(* ===== verification/Prelude.thy ===== *)
theory Prelude
  imports Main "HOL-Library.Word"
begin

text \<open>
  Shared vocabulary of the development: the widths of the C integer types, the result type of
  kernel code that may panic, byte memory with little-endian loads and stores (RISC-V is little
  endian), and the generic lemmas every component uses.
\<close>

unbundle bit_operations_syntax

named_theorems kres_simps \<open>evaluation and inversion of the panic monad\<close>
named_theorems mem_simps \<open>loads after stores\<close>

type_synonym u8 = "8 word"
type_synonym u16 = "16 word"
type_synonym u32 = "32 word"
type_synonym u64 = "64 word"

text \<open>Byte memory: an address (or an offset into a buffer) to the byte stored there.\<close>

type_synonym bytes = "nat \<Rightarrow> u8"

subsection \<open>Code that may panic or fault\<close>

text \<open>
  \<^verbatim>\<open>panic(s)\<close> (kernel/lib/printf.c) prints \<^verbatim>\<open>s\<close> and spins forever: control never comes back
  to the caller. \<open>Panic s\<close> is that outcome, \<open>Ret x\<close> is a normal return, and \<open>Fault\<close> is the access
  through a null pointer, to a freed object or outside an array, where C gives the program no
  meaning. \<open>Diverge\<close> is a loop that never ends: a walk over a linked structure gets as fuel one
  more than the number of cells ever allocated, so that running out of it means that the walk has
  come back to a cell it had already left, in the same state. A theorem that a call returns \<open>Ret\<close>
  therefore includes its memory safety and its termination.
\<close>

datatype 'a kres = Ret 'a | Panic string | Fault | Diverge

fun kbind :: "'a kres \<Rightarrow> ('a \<Rightarrow> 'b kres) \<Rightarrow> 'b kres" where
  "kbind (Ret x) f = f x"
| "kbind (Panic s) f = Panic s"
| "kbind Fault f = Fault"
| "kbind Diverge f = Diverge"

text \<open>Dereference of a pointer: a null or dangling pointer faults.\<close>

fun deref :: "('p \<rightharpoonup> 'a) \<Rightarrow> 'p option \<Rightarrow> 'a kres" where
  "deref h None = Fault"
| "deref h (Some p) = (case h p of None \<Rightarrow> Fault | Some x \<Rightarrow> Ret x)"

lemma kbind_Ret_iff [kres_simps]:
  "kbind r f = Ret y \<longleftrightarrow> (\<exists>x. r = Ret x \<and> f x = Ret y)"
  by (cases r) auto

lemma kbind_Panic_iff [kres_simps]:
  "kbind r f = Panic s \<longleftrightarrow> r = Panic s \<or> (\<exists>x. r = Ret x \<and> f x = Panic s)"
  by (cases r) auto

lemma kbind_Fault_iff [kres_simps]:
  "kbind r f = Fault \<longleftrightarrow> r = Fault \<or> (\<exists>x. r = Ret x \<and> f x = Fault)"
  by (cases r) auto

lemma kbind_Diverge_iff [kres_simps]:
  "kbind r f = Diverge \<longleftrightarrow> r = Diverge \<or> (\<exists>x. r = Ret x \<and> f x = Diverge)"
  by (cases r) auto

lemma kbind_cong [fundef_cong]:
  "r = r' \<Longrightarrow> (\<And>x. r' = Ret x \<Longrightarrow> f x = g x) \<Longrightarrow> kbind r f = kbind r' g"
  by (cases r') auto

lemma kbind_assoc [kres_simps]: "kbind (kbind r f) g = kbind r (\<lambda>x. kbind (f x) g)"
  by (cases r) auto

lemma kbind_Ret_right [simp]: "kbind r Ret = r"
  by (cases r) auto

lemma deref_Ret_iff [simp]: "deref h p = Ret x \<longleftrightarrow> (\<exists>a. p = Some a \<and> h a = Some x)"
  by (cases p) (auto split: option.splits)

lemma deref_not_Panic [simp]: "deref h p \<noteq> Panic s"
  by (cases p) (auto split: option.splits)

fun returns :: "'a kres \<Rightarrow> bool" where
  "returns (Ret x) = True"
| "returns (Panic s) = False"
| "returns Fault = False"
| "returns Diverge = False"

lemma returns_iff: "returns r \<longleftrightarrow> (\<exists>x. r = Ret x)"
  by (cases r) auto

lemma returns_kbind [kres_simps]:
  "returns (kbind r f) \<longleftrightarrow> (\<exists>x. r = Ret x \<and> returns (f x))"
  by (cases r) auto

subsection \<open>Little-endian loads and stores\<close>

definition load8 :: "bytes \<Rightarrow> nat \<Rightarrow> u8" where
  "load8 m a = m a"

definition store8 :: "bytes \<Rightarrow> nat \<Rightarrow> u8 \<Rightarrow> bytes" where
  "store8 m a v = m(a := v)"

definition load16 :: "bytes \<Rightarrow> nat \<Rightarrow> u16" where
  "load16 m a = ucast (m a) OR push_bit 8 (ucast (m (a + 1)))"

definition store16 :: "bytes \<Rightarrow> nat \<Rightarrow> u16 \<Rightarrow> bytes" where
  "store16 m a v = m(a := ucast v, a + 1 := ucast (drop_bit 8 v))"

definition load32 :: "bytes \<Rightarrow> nat \<Rightarrow> u32" where
  "load32 m a = ucast (m a) OR push_bit 8 (ucast (m (a + 1)))
     OR push_bit 16 (ucast (m (a + 2))) OR push_bit 24 (ucast (m (a + 3)))"

definition store32 :: "bytes \<Rightarrow> nat \<Rightarrow> u32 \<Rightarrow> bytes" where
  "store32 m a v = m(a := ucast v, a + 1 := ucast (drop_bit 8 v),
     a + 2 := ucast (drop_bit 16 v), a + 3 := ucast (drop_bit 24 v))"

text \<open>\<open>copy_bytes n src s dst d\<close>: the bytes of \<^verbatim>\<open>memmove(dst + d, src + s, n)\<close> between two buffers.\<close>

definition copy_bytes :: "nat \<Rightarrow> bytes \<Rightarrow> nat \<Rightarrow> bytes \<Rightarrow> nat \<Rightarrow> bytes" where
  "copy_bytes n src s dst d = (\<lambda>a. if d \<le> a \<and> a < d + n then src (s + (a - d)) else dst a)"

definition fill_bytes :: "nat \<Rightarrow> u8 \<Rightarrow> bytes \<Rightarrow> nat \<Rightarrow> bytes" where
  "fill_bytes n v m d = (\<lambda>a. if d \<le> a \<and> a < d + n then v else m a)"

text \<open>\<open>store_list m d bs\<close>: the bytes \<open>bs\<close> copied to \<open>d\<close>.\<close>

definition store_list :: "bytes \<Rightarrow> nat \<Rightarrow> u8 list \<Rightarrow> bytes" where
  "store_list m d bs = (\<lambda>a. if d \<le> a \<and> a < d + length bs then bs ! (a - d) else m a)"

definition bytes_at :: "bytes \<Rightarrow> nat \<Rightarrow> nat \<Rightarrow> u8 list" where
  "bytes_at m a n = map (\<lambda>i. m (a + i)) [0..<n]"

lemma load16_store16 [simp, mem_simps]: "load16 (store16 m a v) a = v"
  unfolding load16_def store16_def
  by (rule bit_word_eqI) (auto simp: bit_simps)

lemma load32_store32 [simp, mem_simps]: "load32 (store32 m a v) a = v"
proof (rule bit_word_eqI)
  fix n :: nat assume "n < LENGTH(32)"
  then have "n < 8 \<or> 8 \<le> n \<and> n < 16 \<or> 16 \<le> n \<and> n < 24 \<or> 24 \<le> n \<and> n < 32" by auto
  then show "bit (load32 (store32 m a v) a) n = bit v n"
    unfolding load32_def store32_def by (elim disjE) (auto simp: bit_simps)
qed

lemma load8_store8 [simp, mem_simps]: "load8 (store8 m a v) a = v"
  by (simp add: load8_def store8_def)

text \<open>Frame rules: a store leaves the loads that do not overlap it alone.\<close>

lemma store_frame [mem_simps]:
  "a \<noteq> b \<Longrightarrow> store8 m a v b = m b"
  "b < a \<or> a + 2 \<le> b \<Longrightarrow> store16 m a w b = m b"
  "b < a \<or> a + 4 \<le> b \<Longrightarrow> store32 m a x b = m b"
  by (auto simp: store8_def store16_def store32_def)

lemma load8_frame [mem_simps]:
  "a \<noteq> b \<Longrightarrow> load8 (store8 m a v) b = load8 m b"
  "b < a \<or> a + 2 \<le> b \<Longrightarrow> load8 (store16 m a w) b = load8 m b"
  "b < a \<or> a + 4 \<le> b \<Longrightarrow> load8 (store32 m a x) b = load8 m b"
  by (auto simp: load8_def mem_simps)

lemma load16_frame [mem_simps]:
  "a < b \<or> b + 2 \<le> a \<Longrightarrow> load16 (store8 m a v) b = load16 m b"
  "b + 2 \<le> a \<or> a + 2 \<le> b \<Longrightarrow> load16 (store16 m a w) b = load16 m b"
  "b + 2 \<le> a \<or> a + 4 \<le> b \<Longrightarrow> load16 (store32 m a x) b = load16 m b"
  by (auto simp: load16_def mem_simps)

lemma load32_frame [mem_simps]:
  "a < b \<or> b + 4 \<le> a \<Longrightarrow> load32 (store8 m a v) b = load32 m b"
  "b + 4 \<le> a \<or> a + 2 \<le> b \<Longrightarrow> load32 (store16 m a w) b = load32 m b"
  "b + 4 \<le> a \<or> a + 4 \<le> b \<Longrightarrow> load32 (store32 m a x) b = load32 m b"
  by (auto simp: load32_def mem_simps)

lemma copy_bytes_in [simp]: "i < n \<Longrightarrow> copy_bytes n src s dst d (d + i) = src (s + i)"
  by (simp add: copy_bytes_def)

lemma copy_bytes_out: "a < d \<or> d + n \<le> a \<Longrightarrow> copy_bytes n src s dst d a = dst a"
  by (auto simp: copy_bytes_def)

lemma copy_bytes_0 [simp]: "copy_bytes 0 src s dst d = dst"
  by (rule ext) (auto simp: copy_bytes_def)

lemma length_bytes_at [simp]: "length (bytes_at m a n) = n"
  by (simp add: bytes_at_def)

lemma nth_bytes_at [simp]: "i < n \<Longrightarrow> bytes_at m a n ! i = m (a + i)"
  by (simp add: bytes_at_def)

lemma bytes_at_0 [simp]: "bytes_at m a 0 = []"
  by (simp add: bytes_at_def)

lemma bytes_at_Suc: "bytes_at m a (Suc n) = m a # bytes_at m (Suc a) n"
  by (auto simp: bytes_at_def upt_conv_Cons map_Suc_upt [symmetric] simp del: upt_Suc)

lemma bytes_at_add: "bytes_at m a (k + n) = bytes_at m a k @ bytes_at m (a + k) n"
  by (induction k arbitrary: a) (simp_all add: bytes_at_Suc)

lemma bytes_at_cong:
  "(\<And>i. i < n \<Longrightarrow> m (a + i) = m' (b + i)) \<Longrightarrow> bytes_at m a n = bytes_at m' b n"
  by (simp add: bytes_at_def)

lemma bytes_at_copy [simp]: "bytes_at (copy_bytes n src s dst d) d n = bytes_at src s n"
  by (rule bytes_at_cong) simp

lemma bytes_at_sub: "k + j \<le> n \<Longrightarrow> bytes_at m (a + k) j = take j (drop k (bytes_at m a n))"
  by (rule nth_equalityI) (simp_all add: add.assoc)

lemma load16_cong: "m a = m' b \<Longrightarrow> m (a + 1) = m' (b + 1) \<Longrightarrow> load16 m a = load16 m' b"
  by (simp add: load16_def)

lemma load32_cong:
  "m a = m' b \<Longrightarrow> m (a + 1) = m' (b + 1) \<Longrightarrow> m (a + 2) = m' (b + 2) \<Longrightarrow> m (a + 3) = m' (b + 3)
   \<Longrightarrow> load32 m a = load32 m' b"
  by (simp add: load32_def)

lemma bytes_at_store_list [simp]: "length bs = n \<Longrightarrow> bytes_at (store_list m d bs) d n = bs"
  by (auto simp: store_list_def intro!: nth_equalityI)

lemma store_list_out [mem_simps]: "a < d \<or> d + length bs \<le> a \<Longrightarrow> store_list m d bs a = m a"
  by (auto simp: store_list_def)

lemma fill_bytes_in [simp]: "d \<le> a \<Longrightarrow> a < d + n \<Longrightarrow> fill_bytes n v m d a = v"
  by (simp add: fill_bytes_def)

lemma fill_bytes_out [mem_simps]: "a < d \<or> d + n \<le> a \<Longrightarrow> fill_bytes n v m d a = m a"
  by (auto simp: fill_bytes_def)

text \<open>Loads and lists of bytes that lie outside a stored or filled block.\<close>

lemma load_block_frame [mem_simps]:
  "b < d \<or> d + length bs \<le> b \<Longrightarrow> load8 (store_list m d bs) b = load8 m b"
  "b + 2 \<le> d \<or> d + length bs \<le> b \<Longrightarrow> load16 (store_list m d bs) b = load16 m b"
  "b + 4 \<le> d \<or> d + length bs \<le> b \<Longrightarrow> load32 (store_list m d bs) b = load32 m b"
  "b < d \<or> d + n \<le> b \<Longrightarrow> load8 (fill_bytes n v m d) b = load8 m b"
  "b + 2 \<le> d \<or> d + n \<le> b \<Longrightarrow> load16 (fill_bytes n v m d) b = load16 m b"
  "b + 4 \<le> d \<or> d + n \<le> b \<Longrightarrow> load32 (fill_bytes n v m d) b = load32 m b"
  by (auto simp: load8_def load16_def load32_def mem_simps)

lemma bytes_at_frame [mem_simps]:
  "b + k \<le> d \<or> d < b \<Longrightarrow> bytes_at (store8 m d v) b k = bytes_at m b k"
  "b + k \<le> d \<or> d + 2 \<le> b \<Longrightarrow> bytes_at (store16 m d w) b k = bytes_at m b k"
  "b + k \<le> d \<or> d + 4 \<le> b \<Longrightarrow> bytes_at (store32 m d x) b k = bytes_at m b k"
  "b + k \<le> d \<or> d + length bs \<le> b \<Longrightarrow> bytes_at (store_list m d bs) b k = bytes_at m b k"
  "b + k \<le> d \<or> d + n \<le> b \<Longrightarrow> bytes_at (fill_bytes n u m d) b k = bytes_at m b k"
  by (rule bytes_at_cong, auto simp: mem_simps)+

subsection \<open>Lists\<close>

lemma find_append: "find P (xs @ ys) = (case find P xs of None \<Rightarrow> find P ys | Some x \<Rightarrow> Some x)"
  by (induction xs) auto

lemma find_by_key:
  "distinct (map f xs) \<Longrightarrow> find (\<lambda>x. f x = k) xs = Some x \<longleftrightarrow> x \<in> set xs \<and> f x = k"
  by (induction xs) auto

subsection \<open>Machine words as numbers\<close>

lemma unat_less_u8: "unat (x :: u8) < 256"
  using unsigned_less [where ?'a = nat and ?'b = 8, of x] by simp

lemma unat_less_u16: "unat (x :: u16) < 65536"
  using unsigned_less [where ?'a = nat and ?'b = 16, of x] by simp

lemma unat_less_u32: "unat (x :: u32) < 4294967296"
  using unsigned_less [where ?'a = nat and ?'b = 32, of x] by simp

lemmas unat_bounds = unat_less_u8 unat_less_u16 unat_less_u32

lemma unat_ucast_mod:
  "unat (ucast (w :: 'a::len word) :: 'b::len word) = unat w mod 2 ^ LENGTH('b)"
  by (simp add: unsigned_ucast_eq take_bit_eq_mod)

lemma unat_ucast_widen:
  "LENGTH('a) \<le> LENGTH('b) \<Longrightarrow> unat (ucast (w :: 'a::len word) :: 'b::len word) = unat w"
proof -
  assume "LENGTH('a) \<le> LENGTH('b)"
  then have "(2::nat) ^ LENGTH('a) \<le> 2 ^ LENGTH('b)" by simp
  then have "unat w < 2 ^ LENGTH('b)" using unsigned_less [where ?'a = nat, of w] by linarith
  then show ?thesis by (simp add: unat_ucast_mod)
qed

lemma unat_and_mask: "unat (w AND mask n) = unat w mod 2 ^ n"
  by (simp only: take_bit_eq_mask [symmetric] unsigned_take_bit_eq) (simp add: take_bit_eq_mod)

lemma unat_drop: "unat (drop_bit n w) = unat w div 2 ^ n"
  by (simp only: unat_drop_bit_eq) (simp add: drop_bit_eq_div)

lemma unat_not: "unat (NOT (w :: 'a::len word)) = 2 ^ LENGTH('a) - 1 - unat w"
proof -
  have "NOT w = - 1 - w" by (simp add: not_eq_complement)
  moreover have "w \<le> - 1" by simp
  ultimately have "unat (NOT w) = unat (- 1 :: 'a word) - unat w" by (simp only: unat_sub)
  then show ?thesis by (simp add: unsigned_minus_1_eq_mask mask_eq_exp_minus_1)
qed

lemma unat_add_of_nat: "unat a + n < 2 ^ 64 \<Longrightarrow> unat (a + of_nat n :: u64) = unat a + n"
  by (simp add: unat_word_ariths unat_of_nat)

lemma unat_add_small:
  "unat a + unat b < 2 ^ LENGTH('a) \<Longrightarrow> unat (a + b :: 'a::len word) = unat a + unat b"
  by (simp add: unat_word_ariths)

subsection \<open>Invariants of transition systems\<close>

text \<open>
  The contract of an invariant: it holds initially and every step keeps it. Components with a
  step relation interpret this locale on it.
\<close>

locale invariant =
  fixes start :: "'s \<Rightarrow> bool"
    and step :: "'s \<Rightarrow> 's \<Rightarrow> bool"
    and I :: "'s \<Rightarrow> bool"
  assumes start_I: "start s \<Longrightarrow> I s"
    and step_I: "step s t \<Longrightarrow> I s \<Longrightarrow> I t"
begin

lemma steps_I: "step\<^sup>*\<^sup>* s t \<Longrightarrow> I s \<Longrightarrow> I t"
  by (induction rule: rtranclp_induct) (auto intro: step_I)

lemma reachable_I: "start s \<Longrightarrow> step\<^sup>*\<^sup>* s t \<Longrightarrow> I t"
  by (rule steps_I) (auto intro: start_I)

end

subsection \<open>First-in first-out queues\<close>

fun push_all :: "('s \<Rightarrow> 'a \<Rightarrow> 's kres) \<Rightarrow> 's \<Rightarrow> 'a list \<Rightarrow> 's kres" where
  "push_all push s [] = Ret s"
| "push_all push s (x # xs) = kbind (push s x) (\<lambda>s'. push_all push s' xs)"

fun pop_n :: "('s \<Rightarrow> ('a option \<times> 's) kres) \<Rightarrow> nat \<Rightarrow> 's \<Rightarrow> ('a option list \<times> 's) kres" where
  "pop_n pop 0 s = Ret ([], s)"
| "pop_n pop (Suc n) s = kbind (pop s) (\<lambda>(r, s1). kbind (pop_n pop n s1) (\<lambda>(rs, s2). Ret (r # rs, s2)))"

text \<open>
  The contract of an intrusive queue: \<open>rep s xs\<close> says the state holds the queue \<open>xs\<close>, and an
  element may be pushed when it is \<open>valid\<close> (live memory) and not already queued.
\<close>

locale fifo =
  fixes rep :: "'s \<Rightarrow> 'a list \<Rightarrow> bool"
    and valid :: "'s \<Rightarrow> 'a \<Rightarrow> bool"
    and push :: "'s \<Rightarrow> 'a \<Rightarrow> 's kres"
    and pop :: "'s \<Rightarrow> ('a option \<times> 's) kres"
  assumes push_rep: "rep s xs \<Longrightarrow> valid s x \<Longrightarrow> x \<notin> set xs \<Longrightarrow>
      \<exists>s'. push s x = Ret s' \<and> rep s' (xs @ [x]) \<and> (\<forall>y. valid s' y = valid s y)"
    and pop_nil: "rep s [] \<Longrightarrow> pop s = Ret (None, s)"
    and pop_cons: "rep s (x # xs) \<Longrightarrow> \<exists>s'. pop s = Ret (Some x, s') \<and> rep s' xs"
begin

lemma push_all_rep:
  "rep s xs \<Longrightarrow> (\<forall>y \<in> set ys. valid s y) \<Longrightarrow> distinct ys \<Longrightarrow> set xs \<inter> set ys = {} \<Longrightarrow>
   \<exists>s'. push_all push s ys = Ret s' \<and> rep s' (xs @ ys)"
proof (induction ys arbitrary: s xs)
  case (Cons y ys)
  then obtain s1 where s1: "push s y = Ret s1" "rep s1 (xs @ [y])" "\<forall>z. valid s1 z = valid s z"
    using push_rep [of s xs y] by auto
  then obtain s' where "push_all push s1 ys = Ret s'" "rep s' ((xs @ [y]) @ ys)"
    using Cons.IH [of s1 "xs @ [y]"] Cons.prems by auto
  then show ?case using s1 by auto
qed simp

lemma pop_all_rep: "rep s xs \<Longrightarrow> \<exists>s'. pop_n pop (length xs) s = Ret (map Some xs, s') \<and> rep s' []"
proof (induction xs arbitrary: s)
  case (Cons x xs)
  then obtain s1 where "pop s = Ret (Some x, s1)" "rep s1 xs" using pop_cons by blast
  then show ?case using Cons.IH [of s1] by auto
qed simp

lemma fifo_order:
  assumes "rep s xs" "\<forall>y \<in> set ys. valid s y" "distinct ys" "set xs \<inter> set ys = {}"
  shows "\<exists>s' s''. push_all push s ys = Ret s' \<and>
     pop_n pop (length (xs @ ys)) s' = Ret (map Some (xs @ ys), s'') \<and> rep s'' []"
  using push_all_rep [OF assms] pop_all_rep by blast

end

end
