(* ===== verification/Mbuf.thy ===== *)
theory Mbuf
  imports Prelude
begin

text \<open>
  Packet buffers: kernel/net/mbuf.c and include/net/mbuf.h. An \<open>mbuf\<close> is the C struct; its \<open>head\<close>
  is the offset of the data in \<open>buf\<close>. The operations that move the two ends of the data work on
  the struct; the queues work on a heap of mbufs linked through \<open>next\<close>, and are shown to
  implement lists.
\<close>

subsection \<open>Data\<close>

definition MBUF_SIZE :: nat where "MBUF_SIZE = 8192"
definition MBUF_DEFAULT_HEADROOM :: u32 where "MBUF_DEFAULT_HEADROOM = 128"

record tcp_params =
  prm_sndnxt :: u32
  prm_flg :: u8
  prm_datalen :: u16

text \<open>
  A pointer to a header inside a packet is the address of the mbuf and the offset in its \<open>buf\<close>.
  The field \<^verbatim>\<open>protodata\<close> is never read or written by the kernel and is left out.
\<close>

record mbuf =
  mb_raddr :: u32
  mb_next :: "nat option"
  mb_head :: nat
  mb_len :: u32
  mb_buf :: bytes
  mb_params :: tcp_params
  mb_tcphdr :: "(nat \<times> nat) option"

type_synonym mheap = "nat \<rightharpoonup> mbuf"

record mbufq =
  q_head :: "nat option"
  q_tail :: "nat option"

subsection \<open>The ends of the data\<close>

definition mbufpull :: "mbuf \<Rightarrow> u32 \<Rightarrow> nat option \<times> mbuf" where
  "mbufpull m len =
     (if mb_len m < len then (None, m)
      else (Some (mb_head m), m\<lparr>mb_len := mb_len m - len, mb_head := mb_head m + unat len\<rparr>))"

definition mbufpush :: "mbuf \<Rightarrow> u32 \<Rightarrow> (nat \<times> mbuf) kres" where
  "mbufpush m len =
     (if mb_head m < unat len then Panic ''mbufpush''
      else let m' = m\<lparr>mb_head := mb_head m - unat len, mb_len := mb_len m + len\<rparr>
           in Ret (mb_head m', m'))"

definition mbufput :: "mbuf \<Rightarrow> u32 \<Rightarrow> (nat \<times> mbuf) kres" where
  "mbufput m len =
     (let tmp = mb_head m + unat (mb_len m);
          m' = m\<lparr>mb_len := mb_len m + len\<rparr>
      in if unat (mb_len m') > MBUF_SIZE then Panic ''mbufput'' else Ret (tmp, m'))"

definition mbuftrim :: "mbuf \<Rightarrow> u32 \<Rightarrow> nat option \<times> mbuf" where
  "mbuftrim m len =
     (if len > mb_len m then (None, m)
      else let m' = m\<lparr>mb_len := mb_len m - len\<rparr>
           in (Some (mb_head m' + unat (mb_len m')), m'))"

text \<open>The contents \<^verbatim>\<open>mbufalloc\<close> gives a fresh buffer: every byte and every parameter is zero.\<close>

definition mbuf_zero :: "u32 \<Rightarrow> mbuf" where
  "mbuf_zero headroom = \<lparr>mb_raddr = 0, mb_next = None, mb_head = unat headroom, mb_len = 0,
     mb_buf = (\<lambda>_. 0), mb_params = \<lparr>prm_sndnxt = 0, prm_flg = 0, prm_datalen = 0\<rparr>,
     mb_tcphdr = None\<rparr>"

text \<open>
  The heap of live mbufs with the address the next allocation gets. \<^verbatim>\<open>ufkalloc\<close> panics when memory
  is exhausted and never returns a block that is in use (theory Ufkalloc); here the blocks are
  taken in order.
\<close>

record mstore =
  ms_heap :: mheap
  ms_brk :: nat

definition mbufalloc :: "mstore \<Rightarrow> u32 \<Rightarrow> nat option \<times> mstore" where
  "mbufalloc s headroom =
     (if unat headroom > MBUF_SIZE then (None, s)
      else (Some (ms_brk s),
            s\<lparr>ms_heap := (ms_heap s)(ms_brk s \<mapsto> mbuf_zero headroom), ms_brk := ms_brk s + 1\<rparr>))"

definition mbuffree :: "mstore \<Rightarrow> nat \<Rightarrow> mstore" where
  "mbuffree s m = s\<lparr>ms_heap := (ms_heap s)(m := None)\<rparr>"

text \<open>
  \<^verbatim>\<open>mbuf_copy\<close> copies the whole struct and moves \<open>head\<close> to the same offset of the new buffer; the
  copied \<open>tcphdr\<close> still points into the old one.
\<close>

definition mbuf_copy :: "mstore \<Rightarrow> nat \<Rightarrow> (nat \<times> mstore) kres" where
  "mbuf_copy s m =
     (case mbufalloc s 0 of
        (None, s1) \<Rightarrow> Fault
      | (Some dst, s1) \<Rightarrow> kbind (deref (ms_heap s1) (Some m)) (\<lambda>src.
          Ret (dst, s1\<lparr>ms_heap := (ms_heap s1)(dst \<mapsto> src\<lparr>mb_next := None\<rparr>)\<rparr>)))"

subsection \<open>Queues\<close>

definition mbufq_pushtail :: "mheap \<Rightarrow> mbufq \<Rightarrow> nat \<Rightarrow> (mheap \<times> mbufq) kres" where
  "mbufq_pushtail h q m =
     kbind (deref h (Some m)) (\<lambda>mb.
     let h1 = h(m \<mapsto> mb\<lparr>mb_next := None\<rparr>) in
     case q_head q of
       None \<Rightarrow> Ret (h1, \<lparr>q_head = Some m, q_tail = Some m\<rparr>)
     | Some _ \<Rightarrow> kbind (deref h1 (q_tail q)) (\<lambda>tb.
         Ret (h1(the (q_tail q) \<mapsto> tb\<lparr>mb_next := Some m\<rparr>), q\<lparr>q_tail := Some m\<rparr>)))"

definition mbufq_pushhead :: "mheap \<Rightarrow> mbufq \<Rightarrow> nat \<Rightarrow> (mheap \<times> mbufq) kres" where
  "mbufq_pushhead h q m =
     kbind (deref h (Some m)) (\<lambda>mb.
     Ret (h(m \<mapsto> mb\<lparr>mb_next := q_head q\<rparr>), q\<lparr>q_head := Some m\<rparr>))"

definition mbufq_pophead :: "mheap \<Rightarrow> mbufq \<Rightarrow> (nat option \<times> mbufq) kres" where
  "mbufq_pophead h q =
     (case q_head q of
        None \<Rightarrow> Ret (None, q)
      | Some head \<Rightarrow> kbind (deref h (Some head)) (\<lambda>mb. Ret (Some head, q\<lparr>q_head := mb_next mb\<rparr>)))"

definition mbufq_empty :: "mbufq \<Rightarrow> bool" where
  "mbufq_empty q = (q_head q = None)"

definition mbufq_init :: "mbufq \<Rightarrow> mbufq" where
  "mbufq_init q = q\<lparr>q_head := None\<rparr>"

subsection \<open>Well-formed buffers\<close>

text \<open>The picture of include/net/mbuf.h: headroom, data and tailroom make up the buffer.\<close>

definition mbuf_ok :: "mbuf \<Rightarrow> bool" where
  "mbuf_ok m \<longleftrightarrow> mb_head m + unat (mb_len m) \<le> MBUF_SIZE"

definition mbuf_data :: "mbuf \<Rightarrow> u8 list" where
  "mbuf_data m = bytes_at (mb_buf m) (mb_head m) (unat (mb_len m))"

lemma mbuf_zero_ok: "unat headroom \<le> MBUF_SIZE \<Longrightarrow> mbuf_ok (mbuf_zero headroom)"
  by (simp add: mbuf_ok_def mbuf_zero_def)

lemma mbufpull_None_iff: "fst (mbufpull m len) = None \<longleftrightarrow> mb_len m < len"
  by (simp add: mbufpull_def)

lemma mbufpull_ok: "mbuf_ok m \<Longrightarrow> mbuf_ok (snd (mbufpull m len))"
  by (auto simp: mbufpull_def mbuf_ok_def unat_sub word_le_nat_alt not_less)

lemma mbufpush_ok: "mbuf_ok m \<Longrightarrow> mbufpush m len = Ret (p, m') \<Longrightarrow> mbuf_ok m'"
  by (auto simp: mbufpush_def mbuf_ok_def MBUF_SIZE_def Let_def unat_add_small split: if_splits)

lemma mbuftrim_ok: "mbuf_ok m \<Longrightarrow> mbuf_ok (snd (mbuftrim m len))"
  by (auto simp: mbuftrim_def mbuf_ok_def Let_def unat_sub word_le_nat_alt not_less)

lemma mbufpull_data:
  assumes "len \<le> mb_len m"
  shows "mbuf_data m = bytes_at (mb_buf m) (mb_head m) (unat len) @ mbuf_data (snd (mbufpull m len))"
proof -
  have "unat (mb_len m) = unat len + unat (mb_len m - len)"
    using assms by (simp add: unat_sub word_le_nat_alt)
  then show ?thesis using assms by (simp add: mbufpull_def mbuf_data_def bytes_at_add leD)
qed

lemma mbuftrim_data:
  assumes "len \<le> mb_len m"
  shows "mbuf_data (snd (mbuftrim m len)) = take (unat (mb_len m) - unat len) (mbuf_data m)"
  using assms
  by (auto simp: mbuftrim_def mbuf_data_def Let_def unat_sub leD intro!: nth_equalityI)

lemma mbufpush_Ret:
  "unat len \<le> mb_head m \<Longrightarrow>
   mbufpush m len = Ret (mb_head m - unat len, m\<lparr>mb_head := mb_head m - unat len, mb_len := mb_len m + len\<rparr>)"
  by (simp add: mbufpush_def)

lemma mbufpull_Ret:
  "len \<le> mb_len m \<Longrightarrow>
   mbufpull m len = (Some (mb_head m), m\<lparr>mb_len := mb_len m - len, mb_head := mb_head m + unat len\<rparr>)"
  by (simp add: mbufpull_def leD)

subsection \<open>Queues implement lists\<close>

primrec mpath :: "mheap \<Rightarrow> nat option \<Rightarrow> nat list \<Rightarrow> bool" where
  "mpath h p [] \<longleftrightarrow> p = None"
| "mpath h p (x # xs) \<longleftrightarrow> p = Some x \<and> (case h x of None \<Rightarrow> False | Some m \<Rightarrow> mpath h (mb_next m) xs)"

definition mbufq_rep :: "mheap \<Rightarrow> mbufq \<Rightarrow> nat list \<Rightarrow> bool" where
  "mbufq_rep h q xs \<longleftrightarrow> mpath h (q_head q) xs \<and> distinct xs \<and> (xs \<noteq> [] \<longrightarrow> q_tail q = Some (last xs))"

lemma mpath_live: "mpath h p xs \<Longrightarrow> x \<in> set xs \<Longrightarrow> h x \<noteq> None"
  by (induction xs arbitrary: p) (auto split: option.splits)

lemma mpath_frame: "(\<And>x. x \<in> set xs \<Longrightarrow> h' x = h x) \<Longrightarrow> mpath h' p xs = mpath h p xs"
  by (induction xs arbitrary: p) (auto split: option.splits)

lemma mpath_upd [simp]: "m \<notin> set xs \<Longrightarrow> mpath (h(m := v)) p xs = mpath h p xs"
  by (rule mpath_frame) auto

lemma mpath_append:
  "mpath h p xs \<Longrightarrow> xs \<noteq> [] \<Longrightarrow> distinct xs \<Longrightarrow> m \<notin> set xs \<Longrightarrow> h (last xs) = Some tb \<Longrightarrow> h m = Some mb
   \<Longrightarrow> mb_next mb = None \<Longrightarrow> mpath (h(last xs \<mapsto> tb\<lparr>mb_next := Some m\<rparr>)) p (xs @ [m])"
proof (induction xs arbitrary: p)
  case (Cons x xs)
  show ?case
  proof (cases "xs = []")
    case False
    then have "last xs \<noteq> x" using Cons.prems(3) by auto
    then show ?thesis using Cons False by (auto split: option.splits)
  qed (use Cons in auto)
qed simp

lemma mbufq_pushtail_rep:
  assumes rep: "mbufq_rep h q xs" and m: "h m = Some mb" "m \<notin> set xs"
  shows "\<exists>h' q'. mbufq_pushtail h q m = Ret (h', q') \<and> mbufq_rep h' q' (xs @ [m]) \<and>
     (\<forall>p. p \<noteq> m \<and> p \<notin> set xs \<longrightarrow> h' p = h p)"
proof (cases "xs = []")
  case True
  then show ?thesis using rep m by (auto simp: mbufq_pushtail_def mbufq_rep_def)
next
  case False
  let ?h1 = "h(m \<mapsto> mb\<lparr>mb_next := None\<rparr>)"
  have path: "mpath ?h1 (q_head q) xs"
    using rep m(2) by (simp add: mbufq_rep_def)
  have t: "q_tail q = Some (last xs)" and d: "distinct xs" using rep False by (auto simp: mbufq_rep_def)
  obtain tb where tb: "?h1 (last xs) = Some tb"
    using mpath_live [OF path] False by fastforce
  have hd: "\<exists>x. q_head q = Some x" using rep False by (cases xs) (auto simp: mbufq_rep_def)
  have "mpath (?h1(last xs \<mapsto> tb\<lparr>mb_next := Some m\<rparr>)) (q_head q) (xs @ [m])"
    using path False d m(2) tb by (rule mpath_append) auto
  moreover have "mbufq_pushtail h q m = Ret (?h1(last xs \<mapsto> tb\<lparr>mb_next := Some m\<rparr>), q\<lparr>q_tail := Some m\<rparr>)"
    using hd t tb m(1) by (auto simp: mbufq_pushtail_def Let_def)
  ultimately show ?thesis using d m(2) False by (auto simp: mbufq_rep_def)
qed

lemma mbufq_pophead_rep:
  assumes "mbufq_rep h q (x # xs)"
  shows "\<exists>q'. mbufq_pophead h q = Ret (Some x, q') \<and> mbufq_rep h q' xs"
  using assms by (auto simp: mbufq_pophead_def mbufq_rep_def split: option.splits)

lemma mbufq_pophead_empty: "mbufq_rep h q [] \<Longrightarrow> mbufq_pophead h q = Ret (None, q)"
  by (simp add: mbufq_pophead_def mbufq_rep_def)

lemma mbufq_pushhead_rep:
  assumes "mbufq_rep h q xs" "h m = Some mb" "m \<notin> set xs" "xs \<noteq> []"
  shows "\<exists>h' q'. mbufq_pushhead h q m = Ret (h', q') \<and> mbufq_rep h' q' (m # xs)"
proof -
  have "mpath (h(m \<mapsto> mb\<lparr>mb_next := q_head q\<rparr>)) (q_head q) xs"
    using assms by (simp add: mbufq_rep_def)
  then show ?thesis using assms by (auto simp: mbufq_pushhead_def mbufq_rep_def)
qed

lemma mbufq_empty_rep: "mbufq_rep h q xs \<Longrightarrow> mbufq_empty q \<longleftrightarrow> xs = []"
  by (cases xs) (auto simp: mbufq_rep_def mbufq_empty_def)

lemma mbufq_init_rep: "mbufq_rep h (mbufq_init q) []"
  by (simp add: mbufq_rep_def mbufq_init_def)

text \<open>
  \<^verbatim>\<open>sockrecv\<close> puts back at the head a packet it has just popped and shortened. The tail pointer is
  then still right, even when the queue was left empty by the pop.
\<close>

lemma mbufq_putback_rep:
  assumes rep: "mbufq_rep h q (x # xs)" and pop: "mbufq_pophead h q = Ret (Some x, q')"
    and h': "h' x = Some mb'" "\<forall>p. p \<noteq> x \<longrightarrow> h' p = h p"
  shows "\<exists>h''. mbufq_pushhead h' q' x = Ret (h'', q) \<and> mbufq_rep h'' q (x # xs) \<and>
     h'' = h'(x \<mapsto> mb'\<lparr>mb_next := q_head q'\<rparr>)"
proof -
  obtain mb where mb: "h x = Some mb" "q' = q\<lparr>q_head := mb_next mb\<rparr>"
    and q: "q_head q = Some x" "x \<notin> set xs" "distinct xs" "q_tail q = Some (last (x # xs))"
    using rep pop by (auto simp: mbufq_rep_def mbufq_pophead_def split: option.splits)
  have "mpath h (mb_next mb) xs" using rep mb by (auto simp: mbufq_rep_def)
  moreover have "\<And>z. z \<in> set xs \<Longrightarrow> h' z = h z" using h'(2) q(2) by metis
  ultimately have "mpath h' (mb_next mb) xs" using mpath_frame by blast
  moreover have "q'\<lparr>q_head := Some x\<rparr> = q" using mb q by simp
  ultimately show ?thesis using h'(1) mb q
    by (auto simp: mbufq_pushhead_def mbufq_rep_def)
qed

lemma mbuf_next_only: "mb'\<lparr>mb_next := None\<rparr> = mb\<lparr>mb_next := None\<rparr> \<Longrightarrow> mb' = mb\<lparr>mb_next := mb_next mb'\<rparr>"
  by (cases mb; cases mb') simp

lemma mbufq_pushtail_data:
  assumes "mbufq_pushtail h q m = Ret (h', q')"
  shows "\<exists>nx. h' x = map_option (\<lambda>mb. mb\<lparr>mb_next := nx\<rparr>) (h x)"
proof -
  have "map_option (\<lambda>mb. mb\<lparr>mb_next := None\<rparr>) (h' x) = map_option (\<lambda>mb. mb\<lparr>mb_next := None\<rparr>) (h x)"
    using assms by (auto simp: mbufq_pushtail_def Let_def kres_simps split: option.splits if_splits)
  then show ?thesis by (cases "h x"; cases "h' x") (auto dest: mbuf_next_only)
qed

definition mq_push :: "mheap \<times> mbufq \<Rightarrow> nat \<Rightarrow> (mheap \<times> mbufq) kres" where
  "mq_push s m = mbufq_pushtail (fst s) (snd s) m"

definition mq_pop :: "mheap \<times> mbufq \<Rightarrow> (nat option \<times> mheap \<times> mbufq) kres" where
  "mq_pop s = kbind (mbufq_pophead (fst s) (snd s)) (\<lambda>(r, q). Ret (r, fst s, q))"

lemma mbufq_pushtail_dom:
  "mbufq_pushtail h q m = Ret (h', q') \<Longrightarrow> h' p = None \<longleftrightarrow> h p = None"
  by (auto simp: mbufq_pushtail_def Let_def kres_simps split: option.splits if_splits)

interpretation mq: fifo "\<lambda>s. mbufq_rep (fst s) (snd s)" "\<lambda>s m. fst s m \<noteq> None" mq_push mq_pop
proof unfold_locales
  fix s xs x
  assume "mbufq_rep (fst s) (snd s) xs" "fst s x \<noteq> None" "x \<notin> set xs"
  then obtain h' q' where "mbufq_pushtail (fst s) (snd s) x = Ret (h', q')" "mbufq_rep h' q' (xs @ [x])"
    using mbufq_pushtail_rep by blast
  then show "\<exists>s'. mq_push s x = Ret s' \<and> mbufq_rep (fst s') (snd s') (xs @ [x]) \<and>
      (\<forall>y. (fst s' y \<noteq> None) = (fst s y \<noteq> None))"
    using mbufq_pushtail_dom by (intro exI [of _ "(h', q')"]) (auto simp: mq_push_def)
next
  fix s assume "mbufq_rep (fst s) (snd s) []"
  then show "mq_pop s = Ret (None, s)" by (simp add: mq_pop_def mbufq_pophead_empty)
next
  fix s x xs assume "mbufq_rep (fst s) (snd s) (x # xs)"
  then show "\<exists>s'. mq_pop s = Ret (Some x, s') \<and> mbufq_rep (fst s') (snd s') xs"
    using mbufq_pophead_rep by (fastforce simp: mq_pop_def)
qed

subsection \<open>Properties\<close>

text \<open>C21: the intrusive queue of packets is first-in first-out: pushing live, distinct packets that are
  not queued yet never faults, and popping then returns what was queued before followed by them, in
  order, and leaves the queue empty.\<close>

theorem mbufq_fifo:
  assumes "mbufq_rep h q xs" "\<forall>y \<in> set ys. h y \<noteq> None" "distinct ys" "set xs \<inter> set ys = {}"
  shows "\<exists>s' s''. push_all mq_push (h, q) ys = Ret s' \<and>
     pop_n mq_pop (length (xs @ ys)) s' = Ret (map Some (xs @ ys), s'') \<and> mbufq_rep (fst s'') (snd s'') []"
  using mq.fifo_order [of "(h, q)" xs ys] assms by simp

theorem mbufq_fifo_witness:
  "\<exists>s' s''. push_all mq_push (\<lambda>_. Some (mbuf_zero 0), mbufq_init \<lparr>q_head = Some 9, q_tail = Some 9\<rparr>) [3, 1, 2] = Ret s' \<and>
     pop_n mq_pop (length ([] @ [3 :: nat, 1, 2])) s' = Ret (map Some ([] @ [3, 1, 2]), s'') \<and> mbufq_rep (fst s'') (snd s'') []"
  by (rule mbufq_fifo) (simp_all add: mbufq_init_rep)

text \<open>putting a popped packet back at the head restores the queue, also when the pop had emptied it
  and whatever was done to the packet in between: the tail pointer is still the right one.\<close>

theorem mbufq_putback:
  assumes "mbufq_rep h q (x # xs)" "mbufq_pophead h q = Ret (Some x, q')"
    and "h' x = Some mb'" "\<forall>p. p \<noteq> x \<longrightarrow> h' p = h p"
  shows "\<exists>h''. mbufq_pushhead h' q' x = Ret (h'', q) \<and> mbufq_rep h'' q (x # xs)"
  using mbufq_putback_rep [OF assms] by blast

theorem mbufq_putback_witness:
  "\<exists>h''. mbufq_pushhead [4 \<mapsto> mbuf_zero 9] \<lparr>q_head = None, q_tail = Some 4\<rparr> 4 = Ret (h'', \<lparr>q_head = Some 4, q_tail = Some 4\<rparr>) \<and>
     mbufq_rep h'' \<lparr>q_head = Some 4, q_tail = Some 4\<rparr> (4 # [])"
  by (rule mbufq_putback [of "[4 \<mapsto> mbuf_zero 0]" _ _ _ _ _ "mbuf_zero 9"])
    (simp_all add: mbufq_rep_def mbufq_pophead_def mbuf_zero_def)

text \<open>pushing a header and pulling it again gives the packet back, and the pointer returned by both is
  the place of the header.\<close>

theorem mbuf_push_pull:
  assumes "mbuf_ok m" "mbufpush m len = Ret (p, m')"
  shows "mbufpull m' len = (Some p, m) \<and> mbuf_ok m'"
proof -
  have h: "unat len \<le> mb_head m" and m': "m' = m\<lparr>mb_head := mb_head m - unat len, mb_len := mb_len m + len\<rparr>" "p = mb_head m - unat len"
    using assms(2) by (auto simp: mbufpush_def Let_def split: if_splits)
  have "unat (mb_len m + len) = unat (mb_len m) + unat len"
    using assms(1) h by (subst unat_add_small) (auto simp: mbuf_ok_def MBUF_SIZE_def)
  then have "len \<le> mb_len m'" using m' by (simp add: word_le_nat_alt)
  then show ?thesis using mbufpull_Ret [of len m'] m' h mbufpush_ok [OF assms] by simp
qed

theorem mbuf_push_pull_witness:
  "mbufpull (mbuf_zero 128\<lparr>mb_head := 108, mb_len := 20\<rparr>) 20 = (Some 108, mbuf_zero 128) \<and>
   mbuf_ok (mbuf_zero 128\<lparr>mb_head := 108, mb_len := 20\<rparr>)"
  by (rule mbuf_push_pull) (simp_all add: mbuf_zero_def mbuf_ok_def mbufpush_def MBUF_SIZE_def)


end
