(* ===== verification/Nicmock.thy ===== *)
theory Nicmock
  imports Mbuf
begin

text \<open>
  The mock network device (kernel/net/dev/nic_mock.c): transmission copies the packet to the end of a
  queue. It is the device the examples of the development run on.
\<close>

definition mock_init :: mbufq where
  "mock_init = mbufq_init \<lparr>q_head = None, q_tail = None\<rparr>"

definition mock_transmit :: "mbufq \<Rightarrow> mstore \<Rightarrow> nat \<Rightarrow> (int \<times> mbufq \<times> mstore) kres" where
  "mock_transmit tx ms m =
     kbind (mbuf_copy ms m) (\<lambda>(c, ms1).
     kbind (mbufq_pushtail (ms_heap ms1) tx c) (\<lambda>(h, q).
     Ret (0, q, ms1\<lparr>ms_heap := h\<rparr>)))"

lemma mock_transmit_rep:
  assumes m: "ms_heap ms m = Some mb" and q: "mbufq_rep (ms_heap ms) tx xs" and b: "\<And>x. ms_heap ms x \<noteq> None \<Longrightarrow> x < ms_brk ms"
  shows "\<exists>tx' ms' cb. mock_transmit tx ms m = Ret (0, tx', ms') \<and> mbufq_rep (ms_heap ms') tx' (xs @ [ms_brk ms]) \<and>
     ms_heap ms' (ms_brk ms) = Some cb \<and> mbuf_data cb = mbuf_data mb \<and>
     (\<forall>p. p \<noteq> ms_brk ms \<and> p \<notin> set xs \<longrightarrow> ms_heap ms' p = ms_heap ms p) \<and> ms_brk ms' = ms_brk ms + 1"
proof -
  let ?c = "ms_brk ms" and ?cb = "mb\<lparr>mb_next := None\<rparr>"
  let ?h = "(ms_heap ms)(?c \<mapsto> ?cb)"
  have mc: "m \<noteq> ?c" using b [of m] m by auto
  have fresh: "?c \<notin> set xs" using mpath_live [of "ms_heap ms" "q_head tx" xs] b q by (auto simp: mbufq_rep_def)
  have copy: "mbuf_copy ms m = Ret (?c, ms\<lparr>ms_heap := ?h, ms_brk := ?c + 1\<rparr>)"
    using m mc by (simp add: mbuf_copy_def mbufalloc_def MBUF_SIZE_def)
  have "mbufq_rep ?h tx xs" using q fresh by (simp add: mbufq_rep_def)
  then obtain h' q' where p: "mbufq_pushtail ?h tx ?c = Ret (h', q')" "mbufq_rep h' q' (xs @ [?c])"
    "\<forall>p. p \<noteq> ?c \<and> p \<notin> set xs \<longrightarrow> h' p = ?h p"
    using mbufq_pushtail_rep [of ?h tx xs ?c ?cb] fresh by auto
  obtain nx where "h' ?c = Some (?cb\<lparr>mb_next := nx\<rparr>)" using mbufq_pushtail_data [OF p(1), of ?c] by auto
  then show ?thesis using copy p
    by (intro exI [of _ q'] exI [of _ "ms\<lparr>ms_heap := h', ms_brk := ?c + 1\<rparr>"] exI [of _ "?cb\<lparr>mb_next := nx\<rparr>"])
      (simp add: mock_transmit_def mbuf_data_def)
qed

text \<open>the mock device accepts every packet: the queue of transmitted packets grows by one packet with
  the same data, and no other packet changes.\<close>

theorem mock_transmit_appends:
  assumes "ms_heap ms m = Some mb" "mbufq_rep (ms_heap ms) tx xs" "\<And>x. ms_heap ms x \<noteq> None \<Longrightarrow> x < ms_brk ms"
  shows "\<exists>tx' ms' cb. mock_transmit tx ms m = Ret (0, tx', ms') \<and> mbufq_rep (ms_heap ms') tx' (xs @ [ms_brk ms]) \<and>
     ms_heap ms' (ms_brk ms) = Some cb \<and> mbuf_data cb = mbuf_data mb \<and>
     (\<forall>p. p \<noteq> ms_brk ms \<and> p \<notin> set xs \<longrightarrow> ms_heap ms' p = ms_heap ms p)"
  using mock_transmit_rep [OF assms] by blast

theorem mock_transmit_appends_witness:
  "\<exists>tx' ms' cb. mock_transmit mock_init \<lparr>ms_heap = [0 \<mapsto> mbuf_zero 7], ms_brk = 1\<rparr> 0 = Ret (0, tx', ms') \<and>
     mbufq_rep (ms_heap ms') tx' ([] @ [ms_brk \<lparr>ms_heap = [0 \<mapsto> mbuf_zero 7], ms_brk = 1\<rparr>]) \<and>
     ms_heap ms' (ms_brk \<lparr>ms_heap = [0 \<mapsto> mbuf_zero 7], ms_brk = 1\<rparr>) = Some cb \<and> mbuf_data cb = mbuf_data (mbuf_zero 7) \<and>
     (\<forall>p. p \<noteq> ms_brk \<lparr>ms_heap = [0 \<mapsto> mbuf_zero 7], ms_brk = 1\<rparr> \<and> p \<notin> set [] \<longrightarrow>
        ms_heap ms' p = ms_heap \<lparr>ms_heap = [0 \<mapsto> mbuf_zero 7], ms_brk = 1\<rparr> p)"
  by (rule mock_transmit_appends) (auto simp: mock_init_def mbufq_init_rep split: if_splits)

end
