(* ===== verification/Sport.thy ===== *)
theory Sport
  imports Prelude
begin

text \<open>
  The table of local ports (kernel/net/socket.c, \<^verbatim>\<open>sport_table\<close>): a bitmap with one bit per port.
  The component promises a set of used ports; the locale \<open>port_table\<close> is that contract and the
  bitmap code is shown to meet it for the ports the array has room for.
\<close>

subsection \<open>State and operations\<close>

definition START_OF_SPORT :: nat where "START_OF_SPORT = 20000"
definition SPORT_NUM :: nat where "SPORT_NUM = 65535"
definition SPORT_ELEM :: nat where "SPORT_ELEM = SPORT_NUM div 8"

record sports =
  sport_table :: "nat \<Rightarrow> u8"
  current_sport :: u16

text \<open>An access \<^verbatim>\<open>sport_table[i]\<close>; the array has \<open>SPORT_ELEM\<close> elements.\<close>

definition sport_elem :: "sports \<Rightarrow> nat \<Rightarrow> u8 kres" where
  "sport_elem s i = (if i < SPORT_ELEM then Ret (sport_table s i) else Fault)"

definition sport_or :: "sports \<Rightarrow> nat \<Rightarrow> nat \<Rightarrow> sports" where
  "sport_or s i b = s\<lparr>sport_table := (sport_table s)(i := sport_table s i OR push_bit b 1)\<rparr>"

text \<open>The loop over the bits of one byte: the first clear bit.\<close>

definition first_clear :: "u8 \<Rightarrow> nat option" where
  "first_clear w = find (\<lambda>i. w AND push_bit i 1 = 0) [0..<8]"

function get_new_sport_loop :: "nat \<Rightarrow> sports \<Rightarrow> (u16 \<times> sports) kres" where
  "get_new_sport_loop islooped s =
     (if islooped < 2 then
        let i = unat (current_sport s) div 8 in
        kbind (sport_elem s i) (\<lambda>w.
        case (if w AND 0xff < 0xff then first_clear w else None) of
          Some b \<Rightarrow> Ret (current_sport s + of_nat b, sport_or s i b)
        | None \<Rightarrow>
            if unat (current_sport s) + 8 \<ge> SPORT_NUM
            then get_new_sport_loop (islooped + 1) (s\<lparr>current_sport := of_nat START_OF_SPORT\<rparr>)
            else get_new_sport_loop islooped (s\<lparr>current_sport := current_sport s + 8\<rparr>))
      else Panic ''[get_new_sport] sport is full'')"
  by pat_completeness auto
termination
proof (relation "measures [\<lambda>(l, s). 2 - l, \<lambda>(l, s). 65535 - unat (current_sport s)]")
  fix islooped s x xa
  assume "\<not> SPORT_NUM \<le> unat (current_sport s) + 8"
  then have "unat (current_sport s + 8) = unat (current_sport s) + 8" "unat (current_sport s) + 8 < 65535"
    by (simp_all add: unat_add_small SPORT_NUM_def)
  then show "((islooped, s\<lparr>current_sport := current_sport s + 8\<rparr>), islooped, s)
      \<in> measures [\<lambda>(l, s). 2 - l, \<lambda>(l, s). 65535 - unat (current_sport s)]"
    by simp
qed auto

definition get_new_sport :: "sports \<Rightarrow> (u16 \<times> sports) kres" where
  "get_new_sport s = get_new_sport_loop 0 s"

definition get_specified_sport :: "sports \<Rightarrow> u16 \<Rightarrow> (u16 \<times> sports) kres" where
  "get_specified_sport s sport =
     (let i = unat sport div 8; b = unat sport mod 8 in
      kbind (sport_elem s i) (\<lambda>w.
      if w AND push_bit b 1 = 0 then Ret (sport, sport_or s i b) else Ret (- 1, s)))"

definition release_sport :: "sports \<Rightarrow> u16 \<Rightarrow> sports kres" where
  "release_sport s sport =
     (if unat sport > SPORT_NUM then Ret s
      else let i = unat sport div 8; b = unat sport mod 8 in
      kbind (sport_elem s i) (\<lambda>w.
      if w AND push_bit b 1 \<ge> 1
      then Ret (s\<lparr>sport_table := (sport_table s)(i := w XOR push_bit b 1)\<rparr>) else Ret s))"

text \<open>\<^verbatim>\<open>socket_init\<close> clears the table; \<^verbatim>\<open>current_sport\<close> starts at \<open>START_OF_SPORT\<close>.\<close>

definition sports_init :: sports where
  "sports_init = \<lparr>sport_table = (\<lambda>_. 0), current_sport = of_nat START_OF_SPORT\<rparr>"

subsection \<open>The set of used ports\<close>

definition sport_used :: "sports \<Rightarrow> nat \<Rightarrow> bool" where
  "sport_used s p \<longleftrightarrow> bit (sport_table s (p div 8)) (p mod 8)"

definition PORT_LIMIT :: nat where "PORT_LIMIT = 8 * SPORT_ELEM"

lemmas sport_consts = START_OF_SPORT_def SPORT_NUM_def SPORT_ELEM_def PORT_LIMIT_def

lemma and_bit_0_iff: "(w :: u8) AND push_bit b 1 = 0 \<longleftrightarrow> \<not> bit w b"
  by (simp add: and_exp_eq_0_iff_not_bit)

lemma sport_used_or:
  "b < 8 \<Longrightarrow> sport_used (sport_or s i b) p \<longleftrightarrow> sport_used s p \<or> p = 8 * i + b"
proof -
  assume "b < 8"
  then have "p = 8 * i + b \<longleftrightarrow> i = p div 8 \<and> b = p mod 8" by auto
  then show ?thesis by (auto simp: sport_used_def sport_or_def bit_simps)
qed

lemma first_clear_Some: "first_clear w = Some b \<Longrightarrow> b < 8 \<and> \<not> bit w b"
  by (auto simp: first_clear_def find_Some_iff and_exp_eq_0_iff_not_bit)

lemma first_clear_None_iff: "first_clear w = None \<longleftrightarrow> (\<forall>b<8. bit w b)"
  by (auto simp: first_clear_def find_None_iff and_exp_eq_0_iff_not_bit)

lemma and_ff: "(w :: u8) AND 0xff = w"
proof -
  have "(0xff :: u8) = - 1" by simp
  then show ?thesis by (simp only: and.right_neutral)
qed

lemma not_full_first_clear: "(w :: u8) < 0xff \<Longrightarrow> \<exists>b. first_clear w = Some b"
proof (rule ccontr)
  assume "w < 0xff" and "\<nexists>b. first_clear w = Some b"
  then have "\<forall>b<8. bit w b" using first_clear_None_iff [of w] by auto
  then have "w = - 1" by (intro bit_word_eqI) (simp add: bit_simps)
  then show False using \<open>w < 0xff\<close> by simp
qed

text \<open>Dispatch on one byte of the table, with the test on the byte folded into the bit search.\<close>

lemma byte_choice:
  "(if w AND 0xff < (0xff :: u8) then first_clear w else None) = first_clear w"
proof (cases "w < 0xff")
  case False
  moreover have "(0xff :: u8) = - 1" by simp
  ultimately have "w = - 1" using word_order.extremum [of w] by (simp only: not_less)
  then have "first_clear w = None" by (simp add: first_clear_None_iff bit_simps)
  then show ?thesis by simp
qed (simp add: and_ff)

definition sports_inv :: "sports \<Rightarrow> bool" where
  "sports_inv s \<longleftrightarrow> 8 dvd unat (current_sport s) \<and> START_OF_SPORT \<le> unat (current_sport s)"

lemma sports_inv_init: "sports_inv sports_init"
  by (simp add: sports_inv_def sports_init_def sport_consts)

declare get_new_sport_loop.simps [simp del]

text \<open>One turn of the loop, case by case.\<close>

lemma loop_full: "\<not> l < 2 \<Longrightarrow> get_new_sport_loop l s = Panic ''[get_new_sport] sport is full''"
  by (simp add: get_new_sport_loop.simps)

lemma loop_out_of_table:
  "l < 2 \<Longrightarrow> \<not> unat (current_sport s) div 8 < SPORT_ELEM \<Longrightarrow> get_new_sport_loop l s = Fault"
  by (simp add: get_new_sport_loop.simps [of l s] sport_elem_def)

lemma loop_found:
  assumes "l < 2" "unat (current_sport s) div 8 < SPORT_ELEM"
    "first_clear (sport_table s (unat (current_sport s) div 8)) = Some b"
  shows "get_new_sport_loop l s =
    Ret (current_sport s + of_nat b, sport_or s (unat (current_sport s) div 8) b)"
  using assms by (simp add: get_new_sport_loop.simps [of l s] sport_elem_def byte_choice)

lemma loop_next:
  assumes "l < 2" "unat (current_sport s) div 8 < SPORT_ELEM"
    "first_clear (sport_table s (unat (current_sport s) div 8)) = None"
  shows "get_new_sport_loop l s =
    (if unat (current_sport s) + 8 \<ge> SPORT_NUM
     then get_new_sport_loop (l + 1) (s\<lparr>current_sport := of_nat START_OF_SPORT\<rparr>)
     else get_new_sport_loop l (s\<lparr>current_sport := current_sport s + 8\<rparr>))"
  using assms by (simp add: get_new_sport_loop.simps [of l s] sport_elem_def byte_choice)

lemma current_step:
  "\<not> SPORT_NUM \<le> unat (c :: u16) + 8 \<Longrightarrow> unat (c + 8) = unat c + 8"
  by (simp add: unat_add_small sport_consts)

lemma sport_used_current [simp]: "sport_used (s\<lparr>current_sport := c\<rparr>) q = sport_used s q"
  by (simp add: sport_used_def)

lemma get_new_sport_loop_Ret:
  assumes "get_new_sport_loop l s = Ret (p, s')" "sports_inv s"
  shows "\<not> sport_used s (unat p) \<and> START_OF_SPORT \<le> unat p \<and> unat p < PORT_LIMIT \<and>
     (\<forall>q. sport_used s' q \<longleftrightarrow> sport_used s q \<or> q = unat p) \<and> sports_inv s'"
  using assms
proof (induction "(2 - l, 65535 - unat (current_sport s))" arbitrary: l s rule: wf_induct_rule [OF wf_lex_prod [OF wf_less_than wf_less_than]])
  case (1 l s)
  let ?i = "unat (current_sport s) div 8"
  have l: "l < 2" using 1(2) loop_full by fastforce
  have i: "?i < SPORT_ELEM" using 1(2) loop_out_of_table [OF l] by fastforce
  show ?case
  proof (cases "first_clear (sport_table s ?i)")
    case (Some b)
    then have b: "b < 8" "\<not> bit (sport_table s ?i) b" using first_clear_Some by blast+
    have c: "unat (current_sport s) = 8 * ?i" using 1(3) by (simp add: sports_inv_def)
    have "unat (current_sport s + of_nat b) = 8 * ?i + b"
      using b(1) i c by (subst unat_add_small) (simp_all add: unat_of_nat sport_consts)
    then have p: "unat p = 8 * ?i + b" and s': "s' = sport_or s ?i b"
      using 1(2) loop_found [OF l i Some] by simp_all
    have "8 * ?i + b < 8 * SPORT_ELEM" using b(1) i by linarith
    then have "START_OF_SPORT \<le> unat p \<and> unat p < PORT_LIMIT \<and> sports_inv s'"
      using c 1(3) unfolding p s' by (simp add: sports_inv_def sport_or_def PORT_LIMIT_def)
    moreover have "\<not> sport_used s (unat p)" using b unfolding p by (simp add: sport_used_def)
    ultimately show ?thesis using sport_used_or [OF b(1)] p s' by simp
  next
    case None
    note nxt = loop_next [OF l i None]
    show ?thesis
    proof (cases "SPORT_NUM \<le> unat (current_sport s) + 8")
      case True
      let ?s = "s\<lparr>current_sport := of_nat START_OF_SPORT\<rparr>"
      have "sports_inv ?s" by (simp add: sports_inv_def sport_consts)
      moreover have "get_new_sport_loop (l + 1) ?s = Ret (p, s')" using nxt True 1(2) by simp
      moreover have "2 - (l + 1) < 2 - l" using l by arith
      ultimately show ?thesis using 1(1) [of "l + 1" ?s] by simp
    next
      case False
      let ?s = "s\<lparr>current_sport := current_sport s + 8\<rparr>"
      note step = current_step [OF False]
      have "sports_inv ?s" using 1(3) step by (simp add: sports_inv_def)
      moreover have "get_new_sport_loop l ?s = Ret (p, s')" using nxt False 1(2) by simp
      moreover have "65535 - unat (current_sport ?s) < 65535 - unat (current_sport s)"
        using step False by (simp add: SPORT_NUM_def)
      ultimately show ?thesis using 1(1) [of l ?s] by simp
    qed
  qed
qed

text \<open>A free port at or above the cursor is found before the cursor leaves the table.\<close>

lemma get_new_sport_loop_total:
  assumes "l < 2" "sports_inv s" "\<not> sport_used s q" "unat (current_sport s) \<le> q" "q < PORT_LIMIT"
  shows "\<exists>p s'. get_new_sport_loop l s = Ret (p, s')"
  using assms
proof (induction "q - unat (current_sport s)" arbitrary: s rule: less_induct)
  case less
  let ?i = "unat (current_sport s) div 8"
  have i: "?i < SPORT_ELEM" using less.prems by (simp add: sport_consts less_mult_imp_div_less)
  show ?case
  proof (cases "first_clear (sport_table s ?i)")
    case (Some b)
    show ?thesis using loop_found [OF less.prems(1) i Some] by blast
  next
    case None
    then have "q div 8 \<noteq> ?i" using less.prems(3) by (auto simp: sport_used_def first_clear_None_iff)
    then have q: "unat (current_sport s) + 8 \<le> q"
      using less.prems(2,4) unfolding sports_inv_def by (auto elim!: dvdE)
    then have n: "\<not> SPORT_NUM \<le> unat (current_sport s) + 8" using less.prems(5) by (simp add: sport_consts)
    let ?s = "s\<lparr>current_sport := current_sport s + 8\<rparr>"
    have "\<exists>p s'. get_new_sport_loop l ?s = Ret (p, s')"
      using less.prems q current_step [OF n]
      by (intro less.hyps) (auto simp: sports_inv_def sport_used_def)
    then show ?thesis using loop_next [OF less.prems(1) i None] n by simp
  qed
qed

lemma get_specified_sport_free:
  assumes "unat p < PORT_LIMIT" "\<not> sport_used s (unat p)"
  shows "\<exists>s'. get_specified_sport s p = Ret (p, s') \<and>
     (\<forall>q. sport_used s' q \<longleftrightarrow> sport_used s q \<or> q = unat p)"
proof -
  have "unat p div 8 < SPORT_ELEM" using assms(1) by (simp add: sport_consts less_mult_imp_div_less)
  then show ?thesis using assms(2)
    by (auto simp: get_specified_sport_def sport_elem_def sport_used_or Let_def
        and_exp_eq_0_iff_not_bit sport_used_def [of s "unat p"])
qed

lemma release_sport_used:
  assumes "unat p < PORT_LIMIT"
  shows "\<exists>s'. release_sport s p = Ret s' \<and>
     (\<forall>q. sport_used s' q \<longleftrightarrow> sport_used s q \<and> q \<noteq> unat p)"
proof -
  let ?i = "unat p div 8" and ?b = "unat p mod 8"
  have i: "?i < SPORT_ELEM" using assms by (simp add: sport_consts less_mult_imp_div_less)
  have lim: "\<not> SPORT_NUM < unat p" using unat_less_u16 [of p] by (simp add: sport_consts)
  have eq: "q = unat p \<longleftrightarrow> q div 8 = ?i \<and> q mod 8 = ?b" for q by (metis div_mult_mod_eq)
  have ge: "1 \<le> sport_table s ?i AND push_bit ?b 1 \<longleftrightarrow> bit (sport_table s ?i) ?b"
    unfolding word_le_nat_alt using and_bit_0_iff [of "sport_table s ?i" ?b] by (auto simp: Suc_le_eq unat_gt_0)
  show ?thesis
  proof (cases "bit (sport_table s ?i) ?b")
    case True
    then show ?thesis using i lim ge
      by (auto simp: release_sport_def sport_elem_def Let_def sport_used_def eq bit_simps)
  next
    case False
    then show ?thesis using i lim ge
      by (auto simp: release_sport_def sport_elem_def Let_def sport_used_def eq)
  qed
qed

subsection \<open>The contract of a port table\<close>

fun alloc_n :: "('s \<Rightarrow> (u16 \<times> 's) kres) \<Rightarrow> nat \<Rightarrow> 's \<Rightarrow> (u16 list \<times> 's) kres" where
  "alloc_n alloc 0 s = Ret ([], s)"
| "alloc_n alloc (Suc n) s = kbind (alloc s) (\<lambda>(p, s1). kbind (alloc_n alloc n s1) (\<lambda>(ps, s2). Ret (p # ps, s2)))"

locale port_table =
  fixes used :: "'s \<Rightarrow> nat set"
    and inv :: "'s \<Rightarrow> bool"
    and limit :: nat
    and alloc :: "'s \<Rightarrow> (u16 \<times> 's) kres"
    and release :: "'s \<Rightarrow> u16 \<Rightarrow> 's kres"
  assumes alloc_fresh: "inv s \<Longrightarrow> alloc s = Ret (p, s') \<Longrightarrow>
      unat p \<notin> used s \<and> unat p < limit \<and> used s' = insert (unat p) (used s) \<and> inv s'"
    and release_frees: "inv s \<Longrightarrow> unat p < limit \<Longrightarrow>
      \<exists>s'. release s p = Ret s' \<and> used s' = used s - {unat p} \<and> inv s'"
begin

lemma alloc_n_distinct:
  "inv s \<Longrightarrow> alloc_n alloc n s = Ret (ps, s') \<Longrightarrow>
   distinct ps \<and> length ps = n \<and> unat ` set ps \<inter> used s = {} \<and> used s' = used s \<union> unat ` set ps \<and> inv s'"
proof (induction n arbitrary: s ps)
  case (Suc n)
  obtain p s1 ps' where a: "alloc s = Ret (p, s1)" and r: "alloc_n alloc n s1 = Ret (ps', s')"
    and ps: "ps = p # ps'" using Suc.prems(2) by (auto simp: kres_simps split: prod.splits)
  note f = alloc_fresh [OF Suc.prems(1) a]
  then show ?case using Suc.IH [OF _ r] ps by auto
qed auto

lemma alloc_release:
  assumes "inv s" "alloc s = Ret (p, s1)"
  shows "\<exists>s2. release s1 p = Ret s2 \<and> used s2 = used s"
  using alloc_fresh [OF assms] release_frees [of s1 p] by auto

end

definition sport_set :: "sports \<Rightarrow> nat set" where
  "sport_set s = {p. sport_used s p}"

lemma release_sport_inv: "release_sport s p = Ret s' \<Longrightarrow> sports_inv s \<Longrightarrow> sports_inv s'"
  by (auto simp: release_sport_def sports_inv_def Let_def kres_simps split: if_splits)

interpretation sport: port_table sport_set sports_inv PORT_LIMIT get_new_sport release_sport
proof unfold_locales
  fix s p s' assume "sports_inv s" "get_new_sport s = Ret (p, s')"
  then show "unat p \<notin> sport_set s \<and> unat p < PORT_LIMIT \<and>
      sport_set s' = insert (unat p) (sport_set s) \<and> sports_inv s'"
    using get_new_sport_loop_Ret [of 0 s p s'] by (auto simp: get_new_sport_def sport_set_def)
next
  fix s p assume "sports_inv s" "unat (p :: u16) < PORT_LIMIT"
  then show "\<exists>s'. release_sport s p = Ret s' \<and> sport_set s' = sport_set s - {unat p} \<and> sports_inv s'"
    using release_sport_used [of p s] release_sport_inv by (fastforce simp: sport_set_def)
qed

subsection \<open>Properties\<close>

text \<open>C33: the ports handed out by successive calls of \<^verbatim>\<open>get_new_sport\<close> are pairwise distinct, were not in
  use before, and are exactly the ports that became used.\<close>

theorem get_new_sport_distinct:
  assumes "sports_inv s" "alloc_n get_new_sport k s = Ret (ps, s')"
  shows "distinct ps \<and> length ps = k \<and> unat ` set ps \<inter> sport_set s = {} \<and>
     sport_set s' = sport_set s \<union> unat ` set ps"
  using sport.alloc_n_distinct [OF assms] by simp

theorem get_new_sport_distinct_witness:
  "alloc_n get_new_sport 2 sports_init = Ret ([20000, 20001],
     sport_or (sport_or sports_init 2500 0) 2500 1) \<and> distinct [20000 :: u16, 20001]"
proof -
  have f0: "first_clear 0 = Some 0" and f1: "first_clear 1 = Some 1" by code_simp+
  have a: "get_new_sport sports_init = Ret (20000, sport_or sports_init 2500 0)"
    unfolding get_new_sport_def using loop_found [of 0 sports_init 0] f0
    by (simp add: sports_init_def sport_consts)
  have b: "get_new_sport (sport_or sports_init 2500 0) = Ret (20001, sport_or (sport_or sports_init 2500 0) 2500 1)"
    unfolding get_new_sport_def using loop_found [of 0 "sport_or sports_init 2500 0" 1] f1
    by (simp add: sports_init_def sport_or_def sport_consts)
  have r: "alloc_n get_new_sport 2 sports_init = Ret ([20000, 20001], sport_or (sport_or sports_init 2500 0) 2500 1)"
    using a b by (simp add: numeral_2_eq_2)
  then show ?thesis using get_new_sport_distinct [OF sports_inv_init r] by simp
qed

text \<open>C34: \<^verbatim>\<open>get_new_sport\<close> returns a port whenever one is free at or above the cursor and below 65528.\<close>

theorem get_new_sport_returns:
  assumes "sports_inv s" "\<not> sport_used s q" "unat (current_sport s) \<le> q" "q < PORT_LIMIT"
  shows "\<exists>p s'. get_new_sport s = Ret (p, s') \<and> \<not> sport_used s (unat p) \<and> sports_inv s'"
  using get_new_sport_loop_total [of 0 s q] get_new_sport_loop_Ret [of 0 s] assms
  unfolding get_new_sport_def by fastforce

theorem get_new_sport_returns_witness:
  "\<exists>p s'. get_new_sport sports_init = Ret (p, s') \<and> \<not> sport_used sports_init (unat p) \<and> sports_inv s'"
  by (rule get_new_sport_returns [where q = 20005, OF sports_inv_init])
    (simp_all add: sport_used_def sports_init_def sport_consts)

text \<open>the table has no element for the ports 65528 to 65535: claiming or releasing one of them reads
  past the end of \<^verbatim>\<open>sport_table\<close>, and the test \<^verbatim>\<open>sport > SPORT_NUM\<close> never prevents it.\<close>

theorem high_ports_out_of_table:
  assumes "PORT_LIMIT \<le> unat p"
  shows "get_specified_sport s p = Fault \<and> release_sport s p = Fault"
proof -
  have "SPORT_ELEM \<le> unat p div 8" using assms by (simp add: sport_consts less_eq_div_iff_mult_less_eq)
  moreover have "\<not> SPORT_NUM < unat p" using unat_less_u16 [of p] by (simp add: sport_consts)
  ultimately show ?thesis by (simp add: get_specified_sport_def release_sport_def sport_elem_def Let_def)
qed

theorem high_ports_out_of_table_witness:
  "get_specified_sport sports_init 65530 = Fault \<and> release_sport sports_init 65530 = Fault"
  by (rule high_ports_out_of_table) (simp add: sport_consts)

text \<open>a port that is free is claimed by \<^verbatim>\<open>get_specified_sport\<close>, and releasing it gives back the set of
  used ports.\<close>

theorem claim_release:
  assumes "unat p < PORT_LIMIT" "\<not> sport_used s (unat p)" "sports_inv s"
  shows "\<exists>s1 s2. get_specified_sport s p = Ret (p, s1) \<and> sport_set s1 = insert (unat p) (sport_set s) \<and>
     release_sport s1 p = Ret s2 \<and> sport_set s2 = sport_set s"
proof -
  obtain s1 where s1: "get_specified_sport s p = Ret (p, s1)" "\<forall>q. sport_used s1 q \<longleftrightarrow> sport_used s q \<or> q = unat p"
    using get_specified_sport_free [OF assms(1,2)] by blast
  obtain s2 where "release_sport s1 p = Ret s2" "\<forall>q. sport_used s2 q \<longleftrightarrow> sport_used s1 q \<and> q \<noteq> unat p"
    using release_sport_used [OF assms(1)] by blast
  then show ?thesis using s1 assms(2) by (intro exI [of _ s1] exI [of _ s2]) (auto simp: sport_set_def)
qed

theorem claim_release_witness:
  "\<exists>s1 s2. get_specified_sport sports_init 80 = Ret (80, s1) \<and> sport_set s1 = insert (unat (80 :: u16)) (sport_set sports_init) \<and>
     release_sport s1 80 = Ret s2 \<and> sport_set s2 = sport_set sports_init"
  by (rule claim_release [OF _ _ sports_inv_init]) (simp_all add: sport_used_def sports_init_def sport_consts)

end
