(* ===== verification/Arptable.thy ===== *)
theory Arptable
  imports Prelude
begin

text \<open>
  The ARP cache (kernel/net/arptable.c): 32 buckets of doubly linked entries. The code is modelled
  on its heap of entries; the lemmas show that adding and looking up implement a finite map from
  IP addresses to MAC addresses, which is what the locale \<open>arp_map\<close> asks of it.
\<close>

subsection \<open>Data\<close>

definition ARP_DEFUALT_ENTRY_NUM :: nat where "ARP_DEFUALT_ENTRY_NUM = 32"
definition ETH_ADDR_LEN :: nat where "ETH_ADDR_LEN = 6"

record arp_cache =
  ac_resolved :: bool
  ac_ip :: u32
  ac_mac :: "u8 list"
  ac_prev :: "nat option"
  ac_next :: "nat option"

record arptab =
  at_heap :: "nat \<rightharpoonup> arp_cache"
  at_brk :: nat
  at_head :: "nat \<Rightarrow> nat option"

definition arp_bucket :: "u32 \<Rightarrow> nat" where
  "arp_bucket ip = unat ip mod ARP_DEFUALT_ENTRY_NUM"

subsection \<open>Operations\<close>

definition arp_cache_free :: "arptab \<Rightarrow> nat \<Rightarrow> arptab kres" where
  "arp_cache_free t p =
     kbind (deref (at_heap t) (Some p)) (\<lambda>c.
     let i = arp_bucket (ac_ip c) in
     kbind (case ac_prev c of
              None \<Rightarrow> Ret (at_heap t)
            | Some pr \<Rightarrow> kbind (deref (at_heap t) (Some pr)) (\<lambda>pc.
                Ret ((at_heap t)(pr \<mapsto> pc\<lparr>ac_next := ac_next c\<rparr>)))) (\<lambda>h1.
     kbind (case ac_next c of
              Some nx \<Rightarrow> kbind (deref h1 (Some nx)) (\<lambda>nc.
                Ret (t\<lparr>at_heap := h1(nx \<mapsto> nc\<lparr>ac_prev := ac_prev c\<rparr>)\<rparr>))
            | None \<Rightarrow> Ret (t\<lparr>at_heap := h1, at_head := (at_head t)(i := ac_next c)\<rparr>)) (\<lambda>t1.
     Ret (t1\<lparr>at_heap := (at_heap t1)(p := None)\<rparr>))))"

text \<open>The search loop: the last entry passed (\<open>prev\<close>) and the entry found, if any.\<close>

fun arp_search :: "nat \<Rightarrow> (nat \<rightharpoonup> arp_cache) \<Rightarrow> u32 \<Rightarrow> nat option \<Rightarrow> nat option \<Rightarrow> (nat option \<times> nat option) kres" where
  "arp_search 0 h ip prev cur = Diverge"
| "arp_search (Suc fuel) h ip prev cur =
     (case cur of
        None \<Rightarrow> Ret (prev, None)
      | Some p \<Rightarrow> kbind (deref h (Some p)) (\<lambda>c.
          if ac_ip c = ip then Ret (prev, Some p) else arp_search fuel h ip (Some p) (ac_next c)))"

definition get_arp_cache :: "arptab \<Rightarrow> u32 \<Rightarrow> (nat \<times> arptab) kres" where
  "get_arp_cache t ip =
     (let i = arp_bucket ip in
      kbind (arp_search (Suc (at_brk t)) (at_heap t) ip None (at_head t i)) (\<lambda>(prev, found).
      kbind (case found of
               Some p \<Rightarrow> Ret (p, t)
             | None \<Rightarrow>
                 let p = at_brk t;
                     new = \<lparr>ac_resolved = False, ac_ip = ip, ac_mac = replicate ETH_ADDR_LEN 0,
                            ac_prev = prev, ac_next = None\<rparr> in
                 (case prev of
                    None \<Rightarrow> Ret (p, t\<lparr>at_heap := (at_heap t)(p \<mapsto> new), at_brk := p + 1\<rparr>)
                  | Some pr \<Rightarrow> kbind (deref (at_heap t) (Some pr)) (\<lambda>pc.
                      Ret (p, t\<lparr>at_heap := (at_heap t)(pr \<mapsto> pc\<lparr>ac_next := Some p\<rparr>, p \<mapsto> new),
                                at_brk := p + 1\<rparr>)))) (\<lambda>(p, t1).
      Ret (p, if at_head t1 i = None then t1\<lparr>at_head := (at_head t1)(i := Some p)\<rparr> else t1))))"

definition arptable_init :: "arptab \<Rightarrow> arptab" where
  "arptable_init t = t\<lparr>at_head := (\<lambda>i. if i < ARP_DEFUALT_ENTRY_NUM then None else at_head t i)\<rparr>"

definition arptable_add :: "arptab \<Rightarrow> u32 \<Rightarrow> u8 list \<Rightarrow> arptab kres" where
  "arptable_add t ip mac =
     kbind (get_arp_cache t ip) (\<lambda>(p, t1).
     kbind (deref (at_heap t1) (Some p)) (\<lambda>c.
     Ret (t1\<lparr>at_heap := (at_heap t1)(p \<mapsto> c\<lparr>ac_resolved := True, ac_mac := mac\<rparr>)\<rparr>)))"

text \<open>\<open>None\<close> is the return value -1; on success the address is copied out.\<close>

definition arptable_get_mac :: "arptab \<Rightarrow> u32 \<Rightarrow> (u8 list option \<times> arptab) kres" where
  "arptable_get_mac t ip =
     kbind (get_arp_cache t ip) (\<lambda>(p, t1).
     kbind (deref (at_heap t1) (Some p)) (\<lambda>c.
     Ret (if ac_resolved c then Some (ac_mac c) else None, t1)))"

definition arptable_del :: "arptab \<Rightarrow> u32 \<Rightarrow> arptab kres" where
  "arptable_del t ip = kbind (get_arp_cache t ip) (\<lambda>(p, t1). arp_cache_free t1 p)"

subsection \<open>The invariant\<close>

text \<open>\<open>achain h pr p xs\<close>: the doubly linked cells from \<open>p\<close>, whose predecessor is \<open>pr\<close>, are \<open>xs\<close>.\<close>

primrec achain :: "(nat \<rightharpoonup> arp_cache) \<Rightarrow> nat option \<Rightarrow> nat option \<Rightarrow> nat list \<Rightarrow> bool" where
  "achain h pr p [] \<longleftrightarrow> p = None"
| "achain h pr p (x # xs) \<longleftrightarrow> p = Some x \<and>
     (case h x of None \<Rightarrow> False | Some c \<Rightarrow> ac_prev c = pr \<and> achain h (Some x) (ac_next c) xs)"

definition cell_ip :: "(nat \<rightharpoonup> arp_cache) \<Rightarrow> nat \<Rightarrow> u32" where
  "cell_ip h x = (case h x of None \<Rightarrow> 0 | Some c \<Rightarrow> ac_ip c)"

text \<open>\<open>L\<close> gives the cells of each bucket in order.\<close>

definition arp_rep :: "arptab \<Rightarrow> (nat \<Rightarrow> nat list) \<Rightarrow> bool" where
  "arp_rep t L \<longleftrightarrow> (\<forall>i < ARP_DEFUALT_ENTRY_NUM.
     achain (at_heap t) None (at_head t i) (L i) \<and> distinct (map (cell_ip (at_heap t)) (L i)) \<and>
     (\<forall>x \<in> set (L i). x < at_brk t \<and> arp_bucket (cell_ip (at_heap t) x) = i))"

text \<open>The map the table stands for: the resolved entry for an address.\<close>

definition arp_abs :: "arptab \<Rightarrow> (nat \<Rightarrow> nat list) \<Rightarrow> u32 \<rightharpoonup> u8 list" where
  "arp_abs t L ip =
     (case find (\<lambda>x. cell_ip (at_heap t) x = ip) (L (arp_bucket ip)) of
        None \<Rightarrow> None
      | Some x \<Rightarrow> (case at_heap t x of None \<Rightarrow> None
                  | Some c \<Rightarrow> if ac_resolved c then Some (ac_mac c) else None))"

subsection \<open>Searching a chain\<close>

lemma achain_live: "achain h pr p xs \<Longrightarrow> x \<in> set xs \<Longrightarrow> h x \<noteq> None"
  by (induction xs arbitrary: pr p) (auto split: option.splits)

lemma achain_frame: "(\<And>x. x \<in> set xs \<Longrightarrow> h' x = h x) \<Longrightarrow> achain h' pr p xs = achain h pr p xs"
  by (induction xs arbitrary: pr p) (auto split: option.splits)

lemma achain_upd [simp]: "m \<notin> set xs \<Longrightarrow> achain (h(m := v)) pr p xs = achain h pr p xs"
  by (rule achain_frame) auto

lemma cell_ip_upd [simp]: "cell_ip (h(x := v)) y = (if y = x then (case v of None \<Rightarrow> 0 | Some c \<Rightarrow> ac_ip c) else cell_ip h y)"
  by (simp add: cell_ip_def)

lemma arp_search_chain:
  "achain h pr p xs \<Longrightarrow> length xs < fuel \<Longrightarrow>
   \<exists>prev. arp_search fuel h ip pr p = Ret (prev, find (\<lambda>x. cell_ip h x = ip) xs) \<and>
     (find (\<lambda>x. cell_ip h x = ip) xs = None \<longrightarrow> prev = (if xs = [] then pr else Some (last xs)))"
proof (induction xs arbitrary: fuel pr p)
  case Nil
  then show ?case by (cases fuel) auto
next
  case (Cons x xs)
  then obtain f c where f: "fuel = Suc f" "length xs < f"
    and c: "h x = Some c" "p = Some x" "achain h (Some x) (ac_next c) xs"
    by (cases fuel) (auto split: option.splits)
  show ?case
  proof (cases "ac_ip c = ip")
    case True
    then show ?thesis using f c by (simp add: cell_ip_def)
  next
    case False
    then show ?thesis using Cons.IH [OF c(3) f(2)] f c by (auto simp: cell_ip_def)
  qed
qed

lemma achain_append:
  "achain h pr p xs \<Longrightarrow> xs \<noteq> [] \<Longrightarrow> distinct xs \<Longrightarrow> m \<notin> set xs \<Longrightarrow> h (last xs) = Some tc \<Longrightarrow>
   ac_prev c = Some (last xs) \<Longrightarrow> ac_next c = None \<Longrightarrow>
   achain (h(last xs \<mapsto> tc\<lparr>ac_next := Some m\<rparr>, m \<mapsto> c)) pr p (xs @ [m])"
proof (induction xs arbitrary: pr p)
  case (Cons x xs)
  show ?case
  proof (cases "xs = []")
    case False
    then have "last xs \<noteq> x" using Cons.prems(3) by auto
    then show ?thesis using Cons False by (auto split: option.splits)
  qed (use Cons in auto)
qed simp

subsection \<open>Looking up an entry\<close>

lemma arp_bucket_less [simp]: "arp_bucket ip < ARP_DEFUALT_ENTRY_NUM"
  by (simp add: arp_bucket_def ARP_DEFUALT_ENTRY_NUM_def)

lemma arp_rep_bucket:
  assumes "arp_rep t L"
  shows "achain (at_heap t) None (at_head t (arp_bucket ip)) (L (arp_bucket ip))"
    and "distinct (map (cell_ip (at_heap t)) (L (arp_bucket ip)))"
    and "distinct (L (arp_bucket ip))"
    and "x \<in> set (L (arp_bucket ip)) \<Longrightarrow> x < at_brk t"
  using assms arp_bucket_less [of ip] by (auto simp: arp_rep_def distinct_map simp del: arp_bucket_less)

lemma arp_rep_length:
  assumes "arp_rep t L"
  shows "length (L (arp_bucket ip)) < Suc (at_brk t)"
proof -
  let ?xs = "L (arp_bucket ip)"
  have "length ?xs = card (set ?xs)" using arp_rep_bucket(3) [OF assms] by (simp add: distinct_card)
  also have "\<dots> \<le> card {..<at_brk t}" using arp_rep_bucket(4) [OF assms] by (intro card_mono) auto
  finally show ?thesis by simp
qed

lemma get_arp_cache_found:
  assumes rep: "arp_rep t L"
    and f: "find (\<lambda>x. cell_ip (at_heap t) x = ip) (L (arp_bucket ip)) = Some x"
  shows "get_arp_cache t ip = Ret (x, t)"
proof -
  obtain prev where "arp_search (Suc (at_brk t)) (at_heap t) ip None (at_head t (arp_bucket ip)) = Ret (prev, Some x)"
    using arp_search_chain [OF arp_rep_bucket(1) [OF rep] arp_rep_length [OF rep], of ip ip] f by fastforce
  moreover obtain y where "at_head t (arp_bucket ip) = Some y"
    using arp_rep_bucket(1) [OF rep, of ip] f by (cases "L (arp_bucket ip)") auto
  ultimately show ?thesis by (simp add: get_arp_cache_def Let_def del: arp_search.simps)
qed

text \<open>Two heaps agree on what the map reads of a cell: only the links may differ.\<close>

definition same_data :: "(nat \<rightharpoonup> arp_cache) \<Rightarrow> (nat \<rightharpoonup> arp_cache) \<Rightarrow> nat \<Rightarrow> bool" where
  "same_data h h' x \<longleftrightarrow>
     (case (h x, h' x) of
        (Some c, Some c') \<Rightarrow> ac_ip c' = ac_ip c \<and> ac_resolved c' = ac_resolved c \<and> ac_mac c' = ac_mac c
      | (None, None) \<Rightarrow> True | _ \<Rightarrow> False)"

lemma same_data_cell_ip: "same_data h h' x \<Longrightarrow> cell_ip h' x = cell_ip h x"
  by (auto simp: same_data_def cell_ip_def split: option.splits)

definition new_cell :: "u32 \<Rightarrow> nat option \<Rightarrow> arp_cache" where
  "new_cell ip prev = \<lparr>ac_resolved = False, ac_ip = ip, ac_mac = replicate ETH_ADDR_LEN 0,
     ac_prev = prev, ac_next = None\<rparr>"

lemma get_arp_cache_new:
  assumes rep: "arp_rep t L"
    and f: "find (\<lambda>x. cell_ip (at_heap t) x = ip) (L (arp_bucket ip)) = None"
  shows "\<exists>t'. get_arp_cache t ip = Ret (at_brk t, t') \<and>
    achain (at_heap t') None (at_head t' (arp_bucket ip)) (L (arp_bucket ip) @ [at_brk t]) \<and>
    (\<exists>prev. at_heap t' (at_brk t) = Some (new_cell ip prev)) \<and> at_brk t' = at_brk t + 1 \<and>
    (\<forall>x. x \<noteq> at_brk t \<longrightarrow> same_data (at_heap t) (at_heap t') x \<and>
       (x \<notin> set (L (arp_bucket ip)) \<longrightarrow> at_heap t' x = at_heap t x)) \<and>
    (\<forall>j. j \<noteq> arp_bucket ip \<longrightarrow> at_head t' j = at_head t j)"
proof -
  let ?i = "arp_bucket ip" and ?h = "at_heap t" and ?m = "at_brk t"
  let ?xs = "L ?i"
  note chain = arp_rep_bucket(1) [OF rep, of ip]
  have d: "distinct ?xs" by (rule arp_rep_bucket(3) [OF rep])
  have m: "?m \<notin> set ?xs" using arp_rep_bucket(4) [OF rep] by blast
  have s: "arp_search (Suc ?m) ?h ip None (at_head t ?i) = Ret (if ?xs = [] then None else Some (last ?xs), None)"
    using arp_search_chain [OF chain arp_rep_length [OF rep], of ip] f by fastforce
  show ?thesis
  proof (cases "?xs = []")
    case True
    then show ?thesis using s chain
      by (auto simp: get_arp_cache_def Let_def new_cell_def same_data_def split: option.splits)
  next
    case False
    then obtain tc where tc: "?h (last ?xs) = Some tc" using achain_live [OF chain, of "last ?xs"] by auto
    let ?c = "new_cell ip (Some (last ?xs))"
    let ?t = "t\<lparr>at_heap := ?h(last ?xs \<mapsto> tc\<lparr>ac_next := Some ?m\<rparr>, ?m \<mapsto> ?c), at_brk := ?m + 1\<rparr>"
    obtain y where "at_head t ?i = Some y" using chain False by (cases ?xs) auto
    then have "get_arp_cache t ip = Ret (?m, ?t)"
      using s False tc by (simp add: get_arp_cache_def Let_def new_cell_def del: arp_search.simps)
    moreover have "achain (at_heap ?t) None (at_head ?t ?i) (?xs @ [?m])"
      using achain_append [OF chain False d m tc, of ?c] by (simp add: new_cell_def)
    moreover have "\<forall>x. x \<noteq> ?m \<longrightarrow> same_data ?h (at_heap ?t) x \<and> (x \<notin> set ?xs \<longrightarrow> at_heap ?t x = ?h x)"
      using tc False by (auto simp: same_data_def split: option.splits)
    ultimately show ?thesis by auto
  qed
qed

lemma arp_abs_at:
  assumes "arp_rep t L" "x \<in> set (L (arp_bucket ip))" "cell_ip (at_heap t) x = ip" "at_heap t x = Some c"
  shows "arp_abs t L ip = (if ac_resolved c then Some (ac_mac c) else None)"
proof -
  have "find (\<lambda>x. cell_ip (at_heap t) x = ip) (L (arp_bucket ip)) = Some x"
    using assms arp_rep_bucket(2) [OF assms(1)] by (simp add: find_by_key)
  then show ?thesis using assms(4) by (simp add: arp_abs_def)
qed

lemma arp_abs_cong:
  assumes "\<And>x. x \<in> set (L (arp_bucket ip)) \<Longrightarrow> same_data (at_heap t) (at_heap t') x"
  shows "arp_abs t' L ip = arp_abs t L ip"
proof -
  have "find (\<lambda>x. cell_ip (at_heap t') x = ip) (L (arp_bucket ip)) = find (\<lambda>x. cell_ip (at_heap t) x = ip) (L (arp_bucket ip))"
    using assms same_data_cell_ip by (intro find_cong) (simp, metis)
  note eq = this
  show ?thesis
  proof (cases "find (\<lambda>x. cell_ip (at_heap t) x = ip) (L (arp_bucket ip))")
    case (Some x)
    then have "x \<in> set (L (arp_bucket ip))" by (auto simp: find_Some_iff)
    then have "same_data (at_heap t) (at_heap t') x" by (rule assms)
    then show ?thesis using eq Some
      by (cases "at_heap t x"; cases "at_heap t' x") (simp_all add: arp_abs_def same_data_def)
  qed (use eq in \<open>simp add: arp_abs_def\<close>)
qed

text \<open>The effect of \<^verbatim>\<open>get_arp_cache\<close>: an entry for the address exists afterwards, and the map is as it was.\<close>

lemma get_arp_cache_rep:
  assumes rep: "arp_rep t L"
  shows "\<exists>x c t' L'. get_arp_cache t ip = Ret (x, t') \<and> arp_rep t' L' \<and> arp_abs t' L' = arp_abs t L \<and>
    x \<in> set (L' (arp_bucket ip)) \<and> at_heap t' x = Some c \<and> ac_ip c = ip"
proof (cases "find (\<lambda>x. cell_ip (at_heap t) x = ip) (L (arp_bucket ip))")
  case (Some x)
  then have x: "x \<in> set (L (arp_bucket ip))" "cell_ip (at_heap t) x = ip"
    using arp_rep_bucket(2) [OF rep] by (simp_all add: find_by_key)
  then obtain c where "at_heap t x = Some c" using achain_live [OF arp_rep_bucket(1) [OF rep]] by blast
  then show ?thesis using get_arp_cache_found [OF rep Some] rep x
    by (intro exI [of _ x] exI [of _ c] exI [of _ t] exI [of _ L]) (auto simp: cell_ip_def)
next
  case None
  let ?i = "arp_bucket ip" and ?m = "at_brk t"
  obtain t' prev where g: "get_arp_cache t ip = Ret (?m, t')"
    and chain: "achain (at_heap t') None (at_head t' ?i) (L ?i @ [?m])"
    and new: "at_heap t' ?m = Some (new_cell ip prev)" and brk: "at_brk t' = ?m + 1"
    and same: "\<And>x. x \<noteq> ?m \<Longrightarrow> same_data (at_heap t) (at_heap t') x"
    and frame: "\<And>x. x \<noteq> ?m \<Longrightarrow> x \<notin> set (L ?i) \<Longrightarrow> at_heap t' x = at_heap t x"
    and heads: "\<And>j. j \<noteq> ?i \<Longrightarrow> at_head t' j = at_head t j"
    using get_arp_cache_new [OF rep None] by blast
  let ?L = "L(?i := L ?i @ [?m])"
  have fresh: "?m \<notin> set (L j)" if "j < ARP_DEFUALT_ENTRY_NUM" for j using rep that by (auto simp: arp_rep_def)
  have ips: "cell_ip (at_heap t') x = cell_ip (at_heap t) x" if "x \<in> set (L j)" "j < ARP_DEFUALT_ENTRY_NUM" for x j
    using same same_data_cell_ip fresh that by metis
  have mip: "cell_ip (at_heap t') ?m = ip" by (simp add: cell_ip_def new new_cell_def)
  have nf: "ip \<notin> cell_ip (at_heap t) ` set (L ?i)" using None by (auto simp: find_None_iff)
  have "arp_rep t' ?L"
    unfolding arp_rep_def
  proof (intro allI impI conjI ballI)
    fix j assume j: "j < ARP_DEFUALT_ENTRY_NUM"
    have old: "achain (at_heap t) None (at_head t j) (L j)" "distinct (map (cell_ip (at_heap t)) (L j))"
      "\<And>x. x \<in> set (L j) \<Longrightarrow> x < ?m \<and> arp_bucket (cell_ip (at_heap t) x) = j"
      using rep j by (auto simp: arp_rep_def)
    show "achain (at_heap t') None (at_head t' j) (?L j)"
    proof (cases "j = ?i")
      case False
      have "at_heap t' x = at_heap t x" if "x \<in> set (L j)" for x
        using frame [of x] old(3) [OF that] that rep False by (fastforce simp: arp_rep_def)
      then have "achain (at_heap t') None (at_head t j) (L j)" using old(1) achain_frame by blast
      then show ?thesis using False heads by simp
    qed (use chain in simp)
    have m: "map (cell_ip (at_heap t')) (L j) = map (cell_ip (at_heap t)) (L j)" using ips j by simp
    have im: "cell_ip (at_heap t') ` set (L j) = cell_ip (at_heap t) ` set (L j)" using ips j by (intro image_cong) auto
    show "distinct (map (cell_ip (at_heap t')) (?L j))"
      using old(2) [folded m] mip nf im by (cases "j = ?i") simp_all
    fix x assume x: "x \<in> set (?L j)"
    then show "x < at_brk t'" using old(3) [of x] brk by (auto split: if_splits)
    show "arp_bucket (cell_ip (at_heap t') x) = j" using x old(3) [of x] ips [of x j] j mip by (auto split: if_splits)
  qed
  moreover have "arp_abs t' ?L = arp_abs t L"
  proof
    fix ip'
    have "arp_abs t' ?L ip' = arp_abs t' L ip'"
    proof (cases "ip' = ip")
      case True
      have "find (\<lambda>x. cell_ip (at_heap t') x = ip) (L ?i) = None"
        using None ips [of _ ?i] by (simp add: find_None_iff)
      then show ?thesis using True mip new
        by (simp add: arp_abs_def find_append new_cell_def split: option.splits)
    next
      case False
      then show ?thesis using mip by (auto simp: arp_abs_def find_append split: option.splits)
    qed
    also have "\<dots> = arp_abs t L ip'"
      using same fresh [of "arp_bucket ip'"] by (intro arp_abs_cong) (metis arp_bucket_less)
    finally show "arp_abs t' ?L ip' = arp_abs t L ip'" .
  qed
  ultimately show ?thesis using g new by (intro exI [of _ ?m] exI [of _ "new_cell ip prev"] exI [of _ t'] exI [of _ ?L])
      (simp add: new_cell_def)
qed

subsection \<open>The table implements a map\<close>

lemma arptable_add_rep:
  assumes "arp_rep t L"
  shows "\<exists>t' L'. arptable_add t ip mac = Ret t' \<and> arp_rep t' L' \<and> arp_abs t' L' = (arp_abs t L)(ip \<mapsto> mac)"
proof -
  obtain x c t1 L' where g: "get_arp_cache t ip = Ret (x, t1)" and rep: "arp_rep t1 L'"
    and ab: "arp_abs t1 L' = arp_abs t L" and x: "x \<in> set (L' (arp_bucket ip))" "at_heap t1 x = Some c" "ac_ip c = ip"
    using get_arp_cache_rep [OF assms] by blast
  let ?c = "c\<lparr>ac_resolved := True, ac_mac := mac\<rparr>"
  let ?t = "t1\<lparr>at_heap := (at_heap t1)(x \<mapsto> ?c)\<rparr>"
  have ips: "cell_ip (at_heap ?t) = cell_ip (at_heap t1)"
    using x(2) by (auto simp: cell_ip_def)
  have chain: "achain ((at_heap t1)(x \<mapsto> ?c)) pr p ys = achain (at_heap t1) pr p ys" for pr p ys
    using x(2) by (induction ys arbitrary: pr p) (auto split: option.splits)
  have rep': "arp_rep ?t L'" using rep ips chain by (simp add: arp_rep_def)
  moreover have "arp_abs ?t L' = (arp_abs t1 L')(ip \<mapsto> mac)"
  proof
    fix ip'
    show "arp_abs ?t L' ip' = ((arp_abs t1 L')(ip \<mapsto> mac)) ip'"
    proof (cases "ip' = ip")
      case True
      have "cell_ip (at_heap ?t) x = ip" using x by (simp add: cell_ip_def)
      then have "arp_abs ?t L' ip = Some mac"
        using arp_abs_at [OF rep' x(1), of ?c] by simp
      then show ?thesis using True by simp
    next
      case False
      have "find (\<lambda>y. cell_ip (at_heap t1) y = ip') (L' (arp_bucket ip')) \<noteq> Some x"
        using False x(2,3) by (auto simp: find_Some_iff cell_ip_def)
      then show ?thesis using False ips
        by (auto simp: arp_abs_def fun_eq_iff split: option.splits)
    qed
  qed
  ultimately show ?thesis using g x(2) ab by (auto simp: arptable_add_def)
qed

lemma arptable_get_mac_rep:
  assumes "arp_rep t L"
  shows "\<exists>t' L'. arptable_get_mac t ip = Ret (arp_abs t L ip, t') \<and> arp_rep t' L' \<and> arp_abs t' L' = arp_abs t L"
proof -
  obtain x c t1 L' where g: "get_arp_cache t ip = Ret (x, t1)" and rep: "arp_rep t1 L'"
    and ab: "arp_abs t1 L' = arp_abs t L" and x: "x \<in> set (L' (arp_bucket ip))" "at_heap t1 x = Some c" "ac_ip c = ip"
    using get_arp_cache_rep [OF assms] by blast
  have "arp_abs t1 L' ip = (if ac_resolved c then Some (ac_mac c) else None)"
    using arp_abs_at [OF rep x(1) _ x(2)] x by (simp add: cell_ip_def)
  then show ?thesis using g rep ab x(2) by (auto simp: arptable_get_mac_def)
qed

definition arptab_empty :: arptab where
  "arptab_empty = \<lparr>at_heap = Map.empty, at_brk = 0, at_head = (\<lambda>_. None)\<rparr>"

lemma arptable_init_rep: "arp_rep (arptable_init t) (\<lambda>_. [])"
  by (simp add: arp_rep_def arptable_init_def)

subsection \<open>The contract of the cache\<close>

text \<open>What the Ethernet and ARP layers rely on: \<open>lookup\<close> and \<open>add\<close> of a map, up to representation.\<close>

locale arp_map =
  fixes models :: "'t \<Rightarrow> (u32 \<rightharpoonup> u8 list) \<Rightarrow> bool"
    and add :: "'t \<Rightarrow> u32 \<Rightarrow> u8 list \<Rightarrow> 't kres"
    and get :: "'t \<Rightarrow> u32 \<Rightarrow> (u8 list option \<times> 't) kres"
  assumes add_models: "models t m \<Longrightarrow> \<exists>t'. add t ip mac = Ret t' \<and> models t' (m(ip \<mapsto> mac))"
    and get_models: "models t m \<Longrightarrow> \<exists>t'. get t ip = Ret (m ip, t') \<and> models t' m"
begin

lemma get_after_add:
  assumes "models t m"
  shows "\<exists>t1 t2. add t ip mac = Ret t1 \<and>
     get t1 ip' = Ret (if ip' = ip then Some mac else m ip', t2) \<and> models t2 (m(ip \<mapsto> mac))"
proof -
  obtain t1 where "add t ip mac = Ret t1" and m: "models t1 (m(ip \<mapsto> mac))" using add_models [OF assms] by blast
  moreover obtain t2 where "get t1 ip' = Ret ((m(ip \<mapsto> mac)) ip', t2)" "models t2 (m(ip \<mapsto> mac))"
    using get_models [OF m] by blast
  ultimately show ?thesis by auto
qed

end

definition arp_models :: "arptab \<Rightarrow> (u32 \<rightharpoonup> u8 list) \<Rightarrow> bool" where
  "arp_models t m \<longleftrightarrow> (\<exists>L. arp_rep t L \<and> arp_abs t L = m)"

interpretation arptab: arp_map arp_models arptable_add arptable_get_mac
  using arptable_add_rep arptable_get_mac_rep by unfold_locales (unfold arp_models_def, blast+)

subsection \<open>Properties\<close>

text \<open>C19: the hash table of the ARP cache is a finite map: after \<^verbatim>\<open>arptable_add\<close> a lookup of the address
  gives the hardware address just added, a lookup of any other address gives what it gave before, and
  neither call faults or loops.\<close>

theorem arp_lookup_after_add:
  assumes "arp_models t m"
  shows "\<exists>t1 t2. arptable_add t ip mac = Ret t1 \<and>
     arptable_get_mac t1 ip' = Ret (if ip' = ip then Some mac else m ip', t2) \<and> arp_models t2 (m(ip \<mapsto> mac))"
  by (rule arptab.get_after_add [OF assms])

theorem arp_lookup_after_add_witness:
  "\<exists>t1 t2. arptable_add (arptable_init arptab_empty) 33 [1, 2, 3, 4, 5, 6] = Ret t1 \<and>
     arptable_get_mac t1 1 = Ret (if (1 :: u32) = 33 then Some [1, 2, 3, 4, 5, 6] else None, t2) \<and>
     arp_models t2 (Map.empty(33 \<mapsto> [1, 2, 3, 4, 5, 6]))"
proof -
  have "arp_models (arptable_init arptab_empty) Map.empty"
    unfolding arp_models_def using arptable_init_rep
    by (intro exI [of _ "\<lambda>_. []"]) (simp add: arp_abs_def fun_eq_iff)
  from arp_lookup_after_add [OF this, of 33 "[1, 2, 3, 4, 5, 6]" 1] show ?thesis by simp
qed

text \<open>\<^verbatim>\<open>arptable_del\<close> loses other entries: with two addresses of the same bucket in the cache, deleting
  the second one clears the head of the bucket (\<^verbatim>\<open>arp_cache_free\<close> takes the branch for the first
  entry when there is no next one), so the first address is no longer found.\<close>

theorem arptable_del_drops_bucket:
  "(case kbind (arptable_add arptab_empty 0 [1, 1, 1, 1, 1, 1]) (\<lambda>t1.
      kbind (arptable_add t1 32 [2, 2, 2, 2, 2, 2]) (\<lambda>t2.
      kbind (arptable_get_mac t2 0) (\<lambda>(before, t3).
      kbind (arptable_del t3 32) (\<lambda>t4.
      kbind (arptable_get_mac t4 0) (\<lambda>(after, t5). Ret (before, after)))))) of
    Ret r \<Rightarrow> r = (Some [1, 1, 1, 1, 1, 1], None) | _ \<Rightarrow> False)"
  by code_simp

end
