(* ===== verification/Filetab.thy ===== *)
theory Filetab
  imports Prelude
begin

text \<open>
  Open files (kernel/fs/file.c and include/file.h): allocation, reference counts and release of
  the struct file. The list \<^verbatim>\<open>ftable.file\<close> is kept as the code keeps it; since \<^verbatim>\<open>filealloc\<close> never
  stores a new file in \<^verbatim>\<open>ftable.file\<close>, the list stays empty, which is the invariant shown here.
\<close>

subsection \<open>Data\<close>

datatype filetype = FD_NONE | FD_PIPE | FD_INODE | FD_DEVICE | FD_SOCK

record kfile =
  f_type :: filetype
  f_ref :: int
  f_readable :: bool
  f_writable :: bool
  f_nonblockable :: bool
  f_pipe :: "nat option"
  f_ip :: "nat option"
  f_scb :: "nat option"
  f_off :: u32
  f_major :: int
  f_prev :: "nat option"
  f_next :: "nat option"

record filetab =
  ft_heap :: "nat \<rightharpoonup> kfile"
  ft_brk :: nat
  ft_file :: "nat option"

subsection \<open>Operations\<close>

definition fileinit :: "filetab \<Rightarrow> filetab" where
  "fileinit t = t\<lparr>ft_file := None\<rparr>"

text \<open>\<^verbatim>\<open>for(p = 0, f = ftable.file; f != 0; p = f, f = f->next)\<close>: the last file of the list.\<close>

fun ftable_last :: "nat \<Rightarrow> (nat \<rightharpoonup> kfile) \<Rightarrow> nat option \<Rightarrow> nat option \<Rightarrow> nat option kres" where
  "ftable_last 0 h p f = Diverge"
| "ftable_last (Suc fuel) h p f =
     (case f of None \<Rightarrow> Ret p
      | Some a \<Rightarrow> kbind (deref h (Some a)) (\<lambda>x. ftable_last fuel h (Some a) (f_next x)))"

text \<open>
  \<open>junk\<close> is what the fresh block holds: \<^verbatim>\<open>ufkalloc\<close> does not clear memory, and \<^verbatim>\<open>filealloc\<close> sets only
  \<^verbatim>\<open>next\<close>, \<^verbatim>\<open>prev\<close> and \<^verbatim>\<open>ref\<close>.
\<close>

definition filealloc :: "kfile \<Rightarrow> filetab \<Rightarrow> (nat \<times> filetab) kres" where
  "filealloc junk t =
     kbind (ftable_last (Suc (ft_brk t)) (ft_heap t) None (ft_file t)) (\<lambda>p.
     let a = ft_brk t;
         f = junk\<lparr>f_next := None, f_prev := p, f_ref := 1\<rparr> in
     case p of
       None \<Rightarrow> Ret (a, t\<lparr>ft_heap := (ft_heap t)(a \<mapsto> f), ft_brk := a + 1\<rparr>)
     | Some q \<Rightarrow> kbind (deref (ft_heap t) (Some q)) (\<lambda>fq.
         Ret (a, t\<lparr>ft_heap := (ft_heap t)(q \<mapsto> fq\<lparr>f_next := Some a\<rparr>, a \<mapsto> f), ft_brk := a + 1\<rparr>)))"

definition filedup :: "filetab \<Rightarrow> nat \<Rightarrow> filetab kres" where
  "filedup t a =
     kbind (deref (ft_heap t) (Some a)) (\<lambda>f.
     if f_ref f < 1 then Panic ''filedup''
     else Ret (t\<lparr>ft_heap := (ft_heap t)(a \<mapsto> f\<lparr>f_ref := f_ref f + 1\<rparr>)\<rparr>))"

text \<open>The unlinking part of \<^verbatim>\<open>filefree\<close>, with the dereferences of \<^verbatim>\<open>f->prev\<close> and \<^verbatim>\<open>f->next\<close> it makes.\<close>

definition file_unlink :: "filetab \<Rightarrow> kfile \<Rightarrow> filetab kres" where
  "file_unlink t f =
     (case f_prev f of
        None \<Rightarrow>
          (case f_next f of
             None \<Rightarrow> Ret (t\<lparr>ft_file := None\<rparr>)
           | Some n \<Rightarrow> kbind (deref (ft_heap t) (Some n)) (\<lambda>fn.
               Ret (t\<lparr>ft_file := Some n, ft_heap := (ft_heap t)(n \<mapsto> fn\<lparr>f_prev := None\<rparr>)\<rparr>)))
      | Some p \<Rightarrow>
          kbind (deref (ft_heap t) (Some p)) (\<lambda>fp.
          let h1 = (ft_heap t)(p \<mapsto> fp\<lparr>f_next := f_next f\<rparr>) in
          kbind (deref h1 (f_next f)) (\<lambda>fn.
          Ret (t\<lparr>ft_heap := h1(the (f_next f) \<mapsto> fn\<lparr>f_prev := f_prev f\<rparr>)\<rparr>))))"

text \<open>The result is -1 while references remain and 0 when the file has been freed.\<close>

definition filefree :: "filetab \<Rightarrow> nat \<Rightarrow> (int \<times> filetab) kres" where
  "filefree t a =
     kbind (deref (ft_heap t) (Some a)) (\<lambda>f.
     if f_ref f < 1 then Panic ''fileclose''
     else if f_ref f - 1 > 0 then Ret (- 1, t\<lparr>ft_heap := (ft_heap t)(a \<mapsto> f\<lparr>f_ref := f_ref f - 1\<rparr>)\<rparr>)
     else
       let f' = f\<lparr>f_ref := 0, f_type := FD_NONE\<rparr> in
       kbind (file_unlink (t\<lparr>ft_heap := (ft_heap t)(a \<mapsto> f')\<rparr>) f') (\<lambda>t1.
       Ret (0, t1\<lparr>ft_heap := (ft_heap t1)(a := None)\<rparr>)))"

subsection \<open>The invariant: live files are counted and unlinked\<close>

definition filetab_inv :: "filetab \<Rightarrow> bool" where
  "filetab_inv t \<longleftrightarrow> ft_file t = None \<and> (\<forall>a f. ft_heap t a = Some f \<longrightarrow>
     a < ft_brk t \<and> 1 \<le> f_ref f \<and> f_prev f = None \<and> f_next f = None)"

lemma filealloc_inv:
  assumes "filetab_inv t"
  shows "\<exists>t'. filealloc junk t = Ret (ft_brk t, t') \<and> filetab_inv t' \<and>
     ft_heap t' = (ft_heap t)(ft_brk t \<mapsto> junk\<lparr>f_next := None, f_prev := None, f_ref := 1\<rparr>)"
  using assms by (auto simp: filealloc_def filetab_inv_def Let_def less_Suc_eq)

lemma filedup_inv:
  assumes "filetab_inv t" "ft_heap t a = Some f"
  shows "\<exists>t'. filedup t a = Ret t' \<and> filetab_inv t' \<and> ft_heap t' = (ft_heap t)(a \<mapsto> f\<lparr>f_ref := f_ref f + 1\<rparr>)"
  using assms by (force simp: filedup_def filetab_inv_def)

lemma filefree_inv:
  assumes "filetab_inv t" "ft_heap t a = Some f"
  shows "\<exists>t'. filefree t a = Ret (if f_ref f = 1 then 0 else - 1, t') \<and> filetab_inv t' \<and>
     ft_heap t' = (if f_ref f = 1 then (ft_heap t)(a := None) else (ft_heap t)(a \<mapsto> f\<lparr>f_ref := f_ref f - 1\<rparr>))"
proof -
  have f: "1 \<le> f_ref f" "f_prev f = None" "f_next f = None" "ft_file t = None"
    using assms by (auto simp: filetab_inv_def)
  show ?thesis
  proof (cases "f_ref f = 1")
    case True
    then show ?thesis using assms f
      by (auto simp: filefree_def file_unlink_def filetab_inv_def Let_def)
  next
    case False
    then have r: "\<not> f_ref f < 1" "f_ref f - 1 > 0" using f by auto
    let ?t = "t\<lparr>ft_heap := (ft_heap t)(a \<mapsto> f\<lparr>f_ref := f_ref f - 1\<rparr>)\<rparr>"
    have "filefree t a = Ret (- 1, ?t)" using r assms(2) by (simp add: filefree_def)
    moreover have "filetab_inv ?t" using assms r(2) f(2,3) unfolding filetab_inv_def by simp
    ultimately show ?thesis using False by simp
  qed
qed

definition file_zero :: kfile where
  "file_zero = \<lparr>f_type = FD_NONE, f_ref = 0, f_readable = False, f_writable = False, f_nonblockable = False,
     f_pipe = None, f_ip = None, f_scb = None, f_off = 0, f_major = 0, f_prev = None, f_next = None\<rparr>"

definition filetab_empty :: filetab where
  "filetab_empty = \<lparr>ft_heap = Map.empty, ft_brk = 0, ft_file = None\<rparr>"

subsection \<open>Properties\<close>

text \<open>the reference count of an open file: \<^verbatim>\<open>filedup\<close> after \<^verbatim>\<open>filealloc\<close> makes two references, the first
  \<^verbatim>\<open>filefree\<close> keeps the file and the second releases it; none of the calls panics or faults, and the
  table is as it was.\<close>

theorem file_refcount:
  assumes "filetab_inv t"
  shows "\<exists>t1 t2 t3 t4. filealloc junk t = Ret (ft_brk t, t1) \<and> filedup t1 (ft_brk t) = Ret t2 \<and>
     filefree t2 (ft_brk t) = Ret (- 1, t3) \<and> filefree t3 (ft_brk t) = Ret (0, t4) \<and>
     ft_heap t4 = ft_heap t \<and> filetab_inv t4"
proof -
  let ?a = "ft_brk t" and ?f = "junk\<lparr>f_next := None, f_prev := None, f_ref := 1\<rparr>"
  obtain t1 where t1: "filealloc junk t = Ret (?a, t1)" "filetab_inv t1" "ft_heap t1 = (ft_heap t)(?a \<mapsto> ?f)"
    using filealloc_inv [OF assms] by blast
  obtain t2 where t2: "filedup t1 ?a = Ret t2" "filetab_inv t2" "ft_heap t2 = (ft_heap t)(?a \<mapsto> ?f\<lparr>f_ref := 2\<rparr>)"
    using filedup_inv [OF t1(2), of ?a ?f] t1(3) by auto
  obtain t3 where t3: "filefree t2 ?a = Ret (- 1, t3)" "filetab_inv t3" "ft_heap t3 = (ft_heap t)(?a \<mapsto> ?f)"
    using filefree_inv [OF t2(2), of ?a "?f\<lparr>f_ref := 2\<rparr>"] t2(3) by auto
  obtain t4 where t4: "filefree t3 ?a = Ret (0, t4)" "filetab_inv t4" "ft_heap t4 = (ft_heap t)(?a := None)"
    using filefree_inv [OF t3(2), of ?a ?f] t3(3) by auto
  have "ft_heap t ?a = None" using assms by (cases "ft_heap t ?a") (auto simp: filetab_inv_def)
  then have "ft_heap t4 = ft_heap t" using t4(3) by (simp add: fun_upd_idem)
  then show ?thesis using t1(1) t2(1) t3(1) t4(1,2) by blast
qed

theorem file_refcount_witness:
  "\<exists>t1 t2 t3 t4. filealloc file_zero filetab_empty = Ret (ft_brk filetab_empty, t1) \<and>
     filedup t1 (ft_brk filetab_empty) = Ret t2 \<and> filefree t2 (ft_brk filetab_empty) = Ret (- 1, t3) \<and>
     filefree t3 (ft_brk filetab_empty) = Ret (0, t4) \<and> ft_heap t4 = ft_heap filetab_empty \<and> filetab_inv t4"
  by (rule file_refcount) (simp add: filetab_inv_def filetab_empty_def)

end
