(* ===== verification/SockCb.thy ===== *)
theory SockCb
  imports Nicmock Sport Arptable Filetab
begin

text \<open>
  The state of the network stack and the socket control blocks (kernel/net/sock_cb.c and
  include/net/sock_cb.h). The control blocks live on a heap; the TCP and UDP tables have 128
  buckets of doubly linked blocks. The lemmas show that lookup is the first match of a bucket, that
  adding appends to it and that freeing a connected block removes it.
\<close>

subsection \<open>Data\<close>

definition SOCK_CB_LEN :: nat where "SOCK_CB_LEN = 128"

datatype sock_cb_state =
    SOCK_CB_CLOSED | SOCK_CB_LISTEN | SOCK_CB_SYN_SENT | SOCK_CB_SYN_RCVD | SOCK_CB_ESTAB
  | SOCK_CB_FIN_WAIT_1 | SOCK_CB_FIN_WAIT_2 | SOCK_CB_CLOSING | SOCK_CB_TIME_WAIT
  | SOCK_CB_CLOSE_WAIT | SOCK_CB_LAST_ACK

definition SOCK_UDP :: int where "SOCK_UDP = 1"
definition SOCK_TCP :: int where "SOCK_TCP = 2"
definition SOCK_CB_DEFAULT_WND_SIZE :: u32 where "SOCK_CB_DEFAULT_WND_SIZE = 4096"

text \<open>
  \<open>sb_slock\<close> is the field \<^verbatim>\<open>locked\<close> of the sleep lock. The spin lock is not state of a single
  control block operation, and the page \<^verbatim>\<open>wnd\<close> with its index is allocated and freed but never read.
\<close>

record sock_cb =
  sb_f :: "nat option"
  sb_slock :: bool
  sb_socktype :: int
  sb_acpt_scb :: "nat option"
  sb_state :: sock_cb_state
  sb_sport :: u16
  sb_raddr :: u32
  sb_dport :: u16
  snd_init_seq :: u32
  snd_unack :: u32
  snd_nxt_seq :: u32
  snd_wnd :: u32
  snd_wl1 :: u32
  snd_wl2 :: u32
  rcv_init_seq :: u32
  rcv_nxt_seq :: u32
  rcv_wnd :: u32
  sb_txq :: mbufq
  sb_rxq :: mbufq
  sb_prev :: "nat option"
  sb_next :: "nat option"

type_synonym sheap = "nat \<rightharpoonup> sock_cb"

text \<open>
  The state of the stack: the packet buffers, the open files, the port table, the ARP cache and its
  queue of packets waiting for an address, the control blocks with their two tables, and the
  network device. The device is reached, as in the code, through the function pointer
  \<^verbatim>\<open>e1000ndev->transmit\<close>: \<open>nt_transmit\<close> gets the device state, the packet buffers and the packet,
  and its result is the return value with both states updated.
\<close>

record 'd net =
  nt_ms :: mstore
  nt_files :: filetab
  nt_sports :: sports
  nt_arp :: arptab
  nt_arpq :: mbufq
  nt_scbs :: sheap
  nt_sbrk :: nat
  nt_tcp :: "nat \<Rightarrow> nat option"
  nt_udp :: "nat \<Rightarrow> nat option"
  nt_dev :: 'd
  nt_transmit :: "'d \<Rightarrow> mstore \<Rightarrow> nat \<Rightarrow> (int \<times> 'd \<times> mstore) kres"

text \<open>The stack after \<^verbatim>\<open>socket_init\<close> and \<^verbatim>\<open>arpinit\<close>: no packet, no file, no socket, every port free.\<close>

definition net_init :: "'d \<Rightarrow> ('d \<Rightarrow> mstore \<Rightarrow> nat \<Rightarrow> (int \<times> 'd \<times> mstore) kres) \<Rightarrow> 'd net" where
  "net_init d tx = \<lparr>nt_ms = \<lparr>ms_heap = Map.empty, ms_brk = 0\<rparr>, nt_files = filetab_empty, nt_sports = sports_init,
     nt_arp = arptab_empty, nt_arpq = \<lparr>q_head = None, q_tail = None\<rparr>, nt_scbs = Map.empty, nt_sbrk = 0,
     nt_tcp = (\<lambda>_. None), nt_udp = (\<lambda>_. None), nt_dev = d, nt_transmit = tx\<rparr>"

definition nt_heap :: "'d net \<Rightarrow> mheap" where
  "nt_heap n = ms_heap (nt_ms n)"

definition set_heap :: "'d net \<Rightarrow> mheap \<Rightarrow> 'd net" where
  "set_heap n h = n\<lparr>nt_ms := (nt_ms n)\<lparr>ms_heap := h\<rparr>\<rparr>"

definition set_scb :: "'d net \<Rightarrow> nat \<Rightarrow> sock_cb \<Rightarrow> 'd net" where
  "set_scb n p scb = n\<lparr>nt_scbs := (nt_scbs n)(p \<mapsto> scb)\<rparr>"

subsection \<open>Allocation\<close>

definition empty_q :: mbufq where "empty_q = \<lparr>q_head = None, q_tail = None\<rparr>"

definition new_sock_cb :: "nat option \<Rightarrow> u32 \<Rightarrow> u16 \<Rightarrow> u16 \<Rightarrow> int \<Rightarrow> sock_cb" where
  "new_sock_cb f raddr sport dport socktype =
     \<lparr>sb_f = f, sb_slock = False, sb_socktype = socktype, sb_acpt_scb = None,
      sb_state = SOCK_CB_CLOSED, sb_sport = sport, sb_raddr = raddr, sb_dport = dport,
      snd_init_seq = 0, snd_unack = 0, snd_nxt_seq = 0, snd_wnd = 0, snd_wl1 = 0, snd_wl2 = 0,
      rcv_init_seq = 0, rcv_nxt_seq = 0, rcv_wnd = SOCK_CB_DEFAULT_WND_SIZE,
      sb_txq = mbufq_init empty_q, sb_rxq = mbufq_init empty_q, sb_prev = None, sb_next = None\<rparr>"

definition alloc_sock_cb :: "'d net \<Rightarrow> nat option \<Rightarrow> u32 \<Rightarrow> u16 \<Rightarrow> u16 \<Rightarrow> int \<Rightarrow> nat \<times> 'd net" where
  "alloc_sock_cb n f raddr sport dport socktype =
     (nt_sbrk n, n\<lparr>nt_scbs := (nt_scbs n)(nt_sbrk n \<mapsto> new_sock_cb f raddr sport dport socktype),
                   nt_sbrk := nt_sbrk n + 1\<rparr>)"

subsection \<open>The queues of a control block\<close>

definition push_to_scb_rxq :: "'d net \<Rightarrow> nat \<Rightarrow> nat \<Rightarrow> 'd net kres" where
  "push_to_scb_rxq n p m =
     kbind (deref (nt_scbs n) (Some p)) (\<lambda>scb.
     kbind (mbufq_pushtail (nt_heap n) (sb_rxq scb) m) (\<lambda>(h, q).
     Ret (set_scb (set_heap n h) p (scb\<lparr>sb_rxq := q\<rparr>))))"

definition pop_from_scb_rxq :: "'d net \<Rightarrow> nat \<Rightarrow> (nat option \<times> 'd net) kres" where
  "pop_from_scb_rxq n p =
     kbind (deref (nt_scbs n) (Some p)) (\<lambda>scb.
     kbind (mbufq_pophead (nt_heap n) (sb_rxq scb)) (\<lambda>(m, q).
     Ret (m, set_scb n p (scb\<lparr>sb_rxq := q\<rparr>))))"

definition push_to_scb_txq :: "'d net \<Rightarrow> nat \<Rightarrow> nat \<Rightarrow> u32 \<Rightarrow> u8 \<Rightarrow> u16 \<Rightarrow> 'd net kres" where
  "push_to_scb_txq n p m sndnxt flg datalen =
     kbind (deref (nt_scbs n) (Some p)) (\<lambda>scb.
     kbind (deref (nt_heap n) (Some m)) (\<lambda>mb.
     let h = (nt_heap n)(m \<mapsto> mb\<lparr>mb_params := \<lparr>prm_sndnxt = sndnxt, prm_flg = flg, prm_datalen = datalen\<rparr>\<rparr>) in
     kbind (mbufq_pushtail h (sb_txq scb) m) (\<lambda>(h1, q).
     Ret (set_scb (set_heap n h1) p (scb\<lparr>sb_txq := q\<rparr>)))))"

definition pop_from_scb_txq :: "'d net \<Rightarrow> nat \<Rightarrow> (nat option \<times> 'd net) kres" where
  "pop_from_scb_txq n p =
     kbind (deref (nt_scbs n) (Some p)) (\<lambda>scb.
     kbind (mbufq_pophead (nt_heap n) (sb_txq scb)) (\<lambda>(m, q).
     Ret (m, set_scb n p (scb\<lparr>sb_txq := q\<rparr>))))"

subsection \<open>The tables\<close>

definition scb_bucket :: "u16 \<Rightarrow> nat" where
  "scb_bucket sport = unat sport mod SOCK_CB_LEN"

definition scb_head :: "'d net \<Rightarrow> int \<Rightarrow> nat \<Rightarrow> nat option" where
  "scb_head n socktype i = (if socktype = SOCK_TCP then nt_tcp n i else nt_udp n i)"

definition set_scb_head :: "'d net \<Rightarrow> int \<Rightarrow> nat \<Rightarrow> nat option \<Rightarrow> 'd net" where
  "set_scb_head n socktype i v =
     (if socktype = SOCK_TCP then n\<lparr>nt_tcp := (nt_tcp n)(i := v)\<rparr>
      else n\<lparr>nt_udp := (nt_udp n)(i := v)\<rparr>)"

text \<open>\<^verbatim>\<open>while (tail->next != 0) tail = tail->next;\<close>\<close>

fun scb_tail :: "nat \<Rightarrow> sheap \<Rightarrow> nat \<Rightarrow> nat kres" where
  "scb_tail 0 h tail = Diverge"
| "scb_tail (Suc fuel) h tail =
     kbind (deref h (Some tail)) (\<lambda>scb.
     case sb_next scb of None \<Rightarrow> Ret tail | Some t \<Rightarrow> scb_tail fuel h t)"

definition add_sock_cb :: "'d net \<Rightarrow> nat \<Rightarrow> 'd net kres" where
  "add_sock_cb n p =
     kbind (deref (nt_scbs n) (Some p)) (\<lambda>scb.
     let i = scb_bucket (sb_sport scb) in
     case scb_head n (sb_socktype scb) i of
       None \<Rightarrow> Ret (set_scb (set_scb_head n (sb_socktype scb) i (Some p)) p
                 (scb\<lparr>sb_prev := None, sb_next := None\<rparr>))
     | Some first \<Rightarrow>
         kbind (scb_tail (Suc (nt_sbrk n)) (nt_scbs n) first) (\<lambda>tail.
         kbind (deref (nt_scbs n) (Some tail)) (\<lambda>ts.
         let n1 = set_scb n tail (ts\<lparr>sb_next := Some p\<rparr>) in
         kbind (deref (nt_scbs n1) (Some p)) (\<lambda>scb1.
         Ret (set_scb n1 p (scb1\<lparr>sb_prev := Some tail, sb_next := None\<rparr>))))))"

definition scb_match :: "u16 \<Rightarrow> u32 \<Rightarrow> u16 \<Rightarrow> sock_cb \<Rightarrow> bool" where
  "scb_match sport raddr dport scb \<longleftrightarrow> sb_sport scb = sport \<and>
     (sb_dport scb = 0 \<or> sb_dport scb \<noteq> 0 \<and> sb_dport scb = dport \<and> sb_raddr scb = raddr)"

fun scb_search :: "nat \<Rightarrow> sheap \<Rightarrow> u16 \<Rightarrow> u32 \<Rightarrow> u16 \<Rightarrow> nat option \<Rightarrow> nat option kres" where
  "scb_search 0 h sport raddr dport cur = Diverge"
| "scb_search (Suc fuel) h sport raddr dport cur =
     (case cur of
        None \<Rightarrow> Ret None
      | Some p \<Rightarrow> kbind (deref h (Some p)) (\<lambda>scb.
          if scb_match sport raddr dport scb then Ret (Some p)
          else scb_search fuel h sport raddr dport (sb_next scb)))"

definition get_sock_cb :: "'d net \<Rightarrow> (nat \<Rightarrow> nat option) \<Rightarrow> u16 \<Rightarrow> u32 \<Rightarrow> u16 \<Rightarrow> nat option kres" where
  "get_sock_cb n table sport raddr dport =
     scb_search (Suc (nt_sbrk n)) (nt_scbs n) sport raddr dport (table (scb_bucket sport))"

subsection \<open>Release\<close>

text \<open>\<^verbatim>\<open>while((m = pop_from_scb_txq(scb)) != 0) mbuffree(m);\<close>\<close>

fun drain_txq :: "nat \<Rightarrow> 'd net \<Rightarrow> nat \<Rightarrow> 'd net kres" where
  "drain_txq 0 n p = Diverge"
| "drain_txq (Suc fuel) n p =
     kbind (pop_from_scb_txq n p) (\<lambda>(m, n1).
     case m of None \<Rightarrow> Ret n1 | Some a \<Rightarrow> drain_txq fuel (n1\<lparr>nt_ms := mbuffree (nt_ms n1) a\<rparr>) p)"

text \<open>Unlinking from the bucket, done only for a block with a remote port.\<close>

definition scb_unlink :: "'d net \<Rightarrow> nat \<Rightarrow> 'd net kres" where
  "scb_unlink n p =
     kbind (deref (nt_scbs n) (Some p)) (\<lambda>scb.
     kbind (case sb_next scb of
              None \<Rightarrow> Ret n
            | Some nx \<Rightarrow> kbind (deref (nt_scbs n) (Some nx)) (\<lambda>s. Ret (set_scb n nx (s\<lparr>sb_prev := sb_prev scb\<rparr>)))) (\<lambda>n1.
     case sb_prev scb of
       Some pr \<Rightarrow> kbind (deref (nt_scbs n1) (Some pr)) (\<lambda>s. Ret (set_scb n1 pr (s\<lparr>sb_next := sb_next scb\<rparr>)))
     | None \<Rightarrow> Ret (set_scb_head n1 (sb_socktype scb) (scb_bucket (sb_sport scb)) (sb_next scb))))"

definition free_sock_cb :: "'d net \<Rightarrow> nat \<Rightarrow> 'd net kres" where
  "free_sock_cb n p =
     kbind (deref (nt_scbs n) (Some p)) (\<lambda>scb.
     kbind (case sb_f scb of
              None \<Rightarrow> Ret n
            | Some f \<Rightarrow> kbind (filefree (nt_files n) f) (\<lambda>(r, fs). Ret (n\<lparr>nt_files := fs\<rparr>))) (\<lambda>n1.
     kbind (drain_txq (Suc (ms_brk (nt_ms n1))) n1 p) (\<lambda>n2.
     kbind (release_sport (nt_sports n2) (sb_sport scb)) (\<lambda>sp.
     let n3 = n2\<lparr>nt_sports := sp\<rparr> in
     kbind (if sb_dport scb \<noteq> 0 then scb_unlink n3 p else Ret n3) (\<lambda>n4.
     Ret (n4\<lparr>nt_scbs := (nt_scbs n4)(p := None)\<rparr>))))))"

subsection \<open>Buckets are lists\<close>

primrec schain :: "sheap \<Rightarrow> nat option \<Rightarrow> nat option \<Rightarrow> nat list \<Rightarrow> bool" where
  "schain h pr p [] \<longleftrightarrow> p = None"
| "schain h pr p (x # xs) \<longleftrightarrow> p = Some x \<and>
     (case h x of None \<Rightarrow> False | Some s \<Rightarrow> sb_prev s = pr \<and> schain h (Some x) (sb_next s) xs)"

lemma schain_live: "schain h pr p xs \<Longrightarrow> x \<in> set xs \<Longrightarrow> h x \<noteq> None"
  by (induction xs arbitrary: pr p) (auto split: option.splits)

lemma schain_frame: "(\<And>x. x \<in> set xs \<Longrightarrow> h' x = h x) \<Longrightarrow> schain h' pr p xs = schain h pr p xs"
  by (induction xs arbitrary: pr p) (auto split: option.splits)

lemma schain_upd [simp]: "m \<notin> set xs \<Longrightarrow> schain (h(m := v)) pr p xs = schain h pr p xs"
  by (rule schain_frame) auto

text \<open>Changing fields other than the links keeps every chain.\<close>

lemma schain_data:
  "h x = Some s \<Longrightarrow> sb_prev s' = sb_prev s \<Longrightarrow> sb_next s' = sb_next s \<Longrightarrow>
   schain (h(x \<mapsto> s')) pr p xs = schain h pr p xs"
  by (induction xs arbitrary: pr p) (auto split: option.splits)

definition cell_matches :: "sheap \<Rightarrow> u16 \<Rightarrow> u32 \<Rightarrow> u16 \<Rightarrow> nat \<Rightarrow> bool" where
  "cell_matches h sport raddr dport x = (case h x of None \<Rightarrow> False | Some s \<Rightarrow> scb_match sport raddr dport s)"

lemma scb_search_chain:
  "schain h pr p xs \<Longrightarrow> length xs < fuel \<Longrightarrow>
   scb_search fuel h sport raddr dport p = Ret (find (cell_matches h sport raddr dport) xs)"
proof (induction xs arbitrary: fuel pr p)
  case Nil
  then show ?case by (cases fuel) auto
next
  case (Cons x xs)
  then obtain f where "fuel = Suc f" by (cases fuel) auto
  then show ?case using Cons by (auto simp: cell_matches_def split: option.splits)
qed

lemma scb_tail_chain:
  "schain h pr (Some x) xs \<Longrightarrow> length xs \<le> fuel \<Longrightarrow> scb_tail fuel h x = Ret (last xs)"
proof (induction xs arbitrary: fuel pr x)
  case (Cons y ys)
  then obtain f where f: "fuel = Suc f" by (cases fuel) auto
  show ?case
  proof (cases ys)
    case Nil
    then show ?thesis using Cons.prems f by (auto split: option.splits)
  next
    case (Cons z zs)
    then show ?thesis using Cons.prems Cons.IH [of "Some x" z f] f by (auto split: option.splits)
  qed
qed simp

lemma schain_append:
  "schain h pr p xs \<Longrightarrow> xs \<noteq> [] \<Longrightarrow> distinct xs \<Longrightarrow> m \<notin> set xs \<Longrightarrow> h (last xs) = Some ts \<Longrightarrow>
   sb_prev s = Some (last xs) \<Longrightarrow> sb_next s = None \<Longrightarrow>
   schain (h(last xs \<mapsto> ts\<lparr>sb_next := Some m\<rparr>, m \<mapsto> s)) pr p (xs @ [m])"
proof (induction xs arbitrary: pr p)
  case (Cons x xs)
  show ?case
  proof (cases "xs = []")
    case False
    then have "last xs \<noteq> x" using Cons.prems(3) by auto
    then show ?thesis using Cons False by (auto split: option.splits)
  qed (use Cons in auto)
qed simp

text \<open>\<open>scb_rep n tcp L\<close>: the table chosen by \<open>tcp\<close> holds the blocks \<open>L i\<close> in bucket \<open>i\<close>.\<close>

definition scb_table :: "'d net \<Rightarrow> bool \<Rightarrow> nat \<Rightarrow> nat option" where
  "scb_table n tcp = (if tcp then nt_tcp n else nt_udp n)"

definition scb_rep :: "'d net \<Rightarrow> bool \<Rightarrow> (nat \<Rightarrow> nat list) \<Rightarrow> bool" where
  "scb_rep n tcp L \<longleftrightarrow> (\<forall>i < SOCK_CB_LEN.
     schain (nt_scbs n) None (scb_table n tcp i) (L i) \<and> distinct (L i) \<and>
     (\<forall>x \<in> set (L i). x < nt_sbrk n \<and> (\<exists>s. nt_scbs n x = Some s \<and>
        scb_bucket (sb_sport s) = i \<and> (sb_socktype s = SOCK_TCP) = tcp)))"

lemma scb_bucket_less [simp]: "scb_bucket sport < SOCK_CB_LEN"
  by (simp add: scb_bucket_def SOCK_CB_LEN_def)

lemma scb_rep_bucket:
  assumes "scb_rep n tcp L" "i < SOCK_CB_LEN"
  shows "schain (nt_scbs n) None (scb_table n tcp i) (L i)" "distinct (L i)"
    "length (L i) < Suc (nt_sbrk n)"
proof -
  show "schain (nt_scbs n) None (scb_table n tcp i) (L i)" and d: "distinct (L i)"
    using assms by (auto simp: scb_rep_def)
  have "length (L i) = card (set (L i))" using d by (simp add: distinct_card)
  also have "\<dots> \<le> card {..<nt_sbrk n}" using assms by (intro card_mono) (auto simp: scb_rep_def)
  finally show "length (L i) < Suc (nt_sbrk n)" by simp
qed

lemma get_sock_cb_find:
  assumes "scb_rep n tcp L"
  shows "get_sock_cb n (scb_table n tcp) sport raddr dport =
    Ret (find (cell_matches (nt_scbs n) sport raddr dport) (L (scb_bucket sport)))"
  unfolding get_sock_cb_def
  using scb_search_chain [OF scb_rep_bucket(1) [OF assms scb_bucket_less] scb_rep_bucket(3) [OF assms scb_bucket_less]] .

text \<open>Only the links of a block may differ.\<close>

definition relinked :: "sheap \<Rightarrow> sheap \<Rightarrow> nat \<Rightarrow> bool" where
  "relinked h h' x \<longleftrightarrow> (\<exists>a b. h' x = map_option (\<lambda>s. s\<lparr>sb_prev := a, sb_next := b\<rparr>) (h x))"

lemma relinked_refl [simp]: "h' x = h x \<Longrightarrow> relinked h h' x"
  unfolding relinked_def
  by (cases "h x") (simp_all, intro exI [of _ "sb_prev (the (h x))"] exI [of _ "sb_next (the (h x))"], simp)

lemma relinked_upd:
  "h x = Some s \<Longrightarrow> s' = s\<lparr>sb_prev := sb_prev s', sb_next := sb_next s'\<rparr> \<Longrightarrow> relinked h (h(x \<mapsto> s')) y"
  by (cases "y = x") (auto simp: relinked_def [of _ _ x])

lemma relinked_trans: "relinked h h' x \<Longrightarrow> relinked h' h'' x \<Longrightarrow> relinked h h'' x"
  by (cases "h x") (auto simp: relinked_def, blast)

lemma relinked_match: "relinked h h' x \<Longrightarrow> cell_matches h' sport raddr dport x = cell_matches h sport raddr dport x"
  by (cases "h x") (auto simp: relinked_def cell_matches_def scb_match_def)

lemma relinked_find:
  "(\<And>x. x \<in> set xs \<Longrightarrow> relinked h h' x) \<Longrightarrow>
   find (cell_matches h' sport raddr dport) xs = find (cell_matches h sport raddr dport) xs"
  by (intro find_cong) (simp_all add: relinked_match)

lemma scb_table_set [simp]:
  "scb_table (set_scb n p s) tcp = scb_table n tcp"
  "scb_table (n\<lparr>nt_scbs := h\<rparr>) tcp = scb_table n tcp"
  "nt_sbrk (set_scb n p s) = nt_sbrk n"
  "nt_scbs (set_scb n p s) = (nt_scbs n)(p \<mapsto> s)"
  "nt_sbrk (set_scb_head n ty i v) = nt_sbrk n"
  "nt_scbs (set_scb_head n ty i v) = nt_scbs n"
  by (simp_all add: scb_table_def set_scb_def set_scb_head_def)

lemma scb_table_set_head [simp]:
  "scb_table (set_scb_head n ty i v) tcp =
     (if (ty = SOCK_TCP) = tcp then (scb_table n tcp)(i := v) else scb_table n tcp)"
  by (auto simp: scb_table_def set_scb_head_def)

lemma scb_head_table: "scb_head n ty i = scb_table n (ty = SOCK_TCP) i"
  by (simp add: scb_head_def scb_table_def)

lemma add_sock_cb_chain:
  assumes rep: "scb_rep n tcp L" and s: "nt_scbs n p = Some s" "(sb_socktype s = SOCK_TCP) = tcp"
    and p: "p \<notin> set (L (scb_bucket (sb_sport s)))"
  defines "i \<equiv> scb_bucket (sb_sport s)"
  shows "\<exists>n'. add_sock_cb n p = Ret n' \<and> nt_sbrk n' = nt_sbrk n \<and>
     schain (nt_scbs n') None (scb_table n' tcp i) (L i @ [p]) \<and>
     (\<forall>j. j \<noteq> i \<longrightarrow> scb_table n' tcp j = scb_table n tcp j) \<and>
     scb_table n' (\<not> tcp) = scb_table n (\<not> tcp) \<and>
     (\<forall>x. relinked (nt_scbs n) (nt_scbs n') x \<and> (x \<noteq> p \<and> x \<notin> set (L i) \<longrightarrow> nt_scbs n' x = nt_scbs n x))"
proof (cases "L i = []")
  case True
  have "schain (nt_scbs n) None (scb_table n tcp i) (L i)" by (rule scb_rep_bucket(1) [OF rep]) (simp add: i_def)
  then have h: "scb_head n (sb_socktype s) i = None" using True s(2) by (simp add: scb_head_table)
  let ?n = "set_scb (set_scb_head n (sb_socktype s) i (Some p)) p (s\<lparr>sb_prev := None, sb_next := None\<rparr>)"
  have "add_sock_cb n p = Ret ?n" using s h by (simp add: add_sock_cb_def i_def)
  moreover have "relinked (nt_scbs n) (nt_scbs ?n) y" for y unfolding scb_table_set
    by (rule relinked_upd [of _ _ s]) (use s(1) in auto)
  ultimately show ?thesis using s True by (intro exI [of _ ?n]) auto
next
  case False
  note chain = scb_rep_bucket [OF rep scb_bucket_less, of "sb_sport s", folded i_def]
  obtain x where x: "scb_table n tcp i = Some x" using chain(1) False by (cases "L i") auto
  obtain ts where ts: "nt_scbs n (last (L i)) = Some ts"
    using schain_live [OF chain(1), of "last (L i)"] False by auto
  have ne: "last (L i) \<noteq> p" using p False by (auto simp: i_def)
  let ?n = "set_scb (set_scb n (last (L i)) (ts\<lparr>sb_next := Some p\<rparr>)) p (s\<lparr>sb_prev := Some (last (L i)), sb_next := None\<rparr>)"
  have "scb_tail (Suc (nt_sbrk n)) (nt_scbs n) x = Ret (last (L i))"
    using chain x by (intro scb_tail_chain) auto
  then have "add_sock_cb n p = Ret ?n"
    using s x ts ne by (simp add: add_sock_cb_def scb_head_table i_def [symmetric] Let_def del: scb_tail.simps)
  moreover have "schain (nt_scbs ?n) None (scb_table ?n tcp i) (L i @ [p])"
    using schain_append [OF chain(1) False chain(2) p [folded i_def] ts] by simp
  moreover have "relinked (nt_scbs n) (nt_scbs ?n) y" for y
  proof (rule relinked_trans)
    let ?h1 = "(nt_scbs n)(last (L i) \<mapsto> ts\<lparr>sb_next := Some p\<rparr>)"
    show "relinked (nt_scbs n) ?h1 y" by (rule relinked_upd [of _ _ ts]) (use ts in auto)
    show "relinked ?h1 (nt_scbs ?n) y" unfolding scb_table_set
      by (rule relinked_upd [of _ _ s]) (use s(1) ne in auto)
  qed
  ultimately show ?thesis using False by (intro exI [of _ ?n]) auto
qed

lemma relinked_Some: "relinked h h' x \<Longrightarrow> h x = Some s \<Longrightarrow> \<exists>s'. h' x = Some s' \<and> sb_sport s' = sb_sport s \<and> sb_socktype s' = sb_socktype s"
  by (auto simp: relinked_def)

lemma add_sock_cb_rep:
  assumes rep: "scb_rep n tcp L" and s: "nt_scbs n p = Some s" "(sb_socktype s = SOCK_TCP) = tcp" "p < nt_sbrk n"
    and p: "\<And>j. p \<notin> set (L j)"
  defines "i \<equiv> scb_bucket (sb_sport s)"
  shows "\<exists>n'. add_sock_cb n p = Ret n' \<and> scb_rep n' tcp (L(i := L i @ [p])) \<and>
     (\<forall>x. relinked (nt_scbs n) (nt_scbs n') x)"
proof -
  obtain n' where n': "add_sock_cb n p = Ret n'" "nt_sbrk n' = nt_sbrk n"
    and chain: "schain (nt_scbs n') None (scb_table n' tcp i) (L i @ [p])"
    and other: "\<And>j. j \<noteq> i \<Longrightarrow> scb_table n' tcp j = scb_table n tcp j"
    and rel: "\<And>x. relinked (nt_scbs n) (nt_scbs n') x"
    and frame: "\<And>x. x \<noteq> p \<Longrightarrow> x \<notin> set (L i) \<Longrightarrow> nt_scbs n' x = nt_scbs n x"
    using add_sock_cb_chain [OF rep s(1,2) p] unfolding i_def by blast
  have "scb_rep n' tcp (L(i := L i @ [p]))"
    unfolding scb_rep_def
  proof (intro allI impI conjI ballI)
    fix j assume j: "j < SOCK_CB_LEN"
    note old = scb_rep_bucket [OF rep j]
    have cells: "\<exists>s. nt_scbs n x = Some s \<and> scb_bucket (sb_sport s) = j \<and> (sb_socktype s = SOCK_TCP) = tcp"
      "x < nt_sbrk n" if "x \<in> set (L j)" for x using rep j that by (auto simp: scb_rep_def)
    show "schain (nt_scbs n') None (scb_table n' tcp j) ((L(i := L i @ [p])) j)"
    proof (cases "j = i")
      case False
      have "x \<notin> set (L i)" if "x \<in> set (L j)" for x
      proof
        assume "x \<in> set (L i)"
        then obtain s' where "nt_scbs n x = Some s'" "scb_bucket (sb_sport s') = i"
          using rep scb_bucket_less [of "sb_sport s"] unfolding scb_rep_def i_def by blast
        then show False using cells(1) [OF that] False by auto
      qed
      then have "nt_scbs n' x = nt_scbs n x" if "x \<in> set (L j)" for x
        using frame p that by metis
      then have "schain (nt_scbs n') None (scb_table n tcp j) (L j)" using old(1) schain_frame by blast
      then show ?thesis using False other by simp
    qed (use chain in simp)
    show "distinct ((L(i := L i @ [p])) j)" using old(2) p by auto
    fix x assume x: "x \<in> set ((L(i := L i @ [p])) j)"
    then have "x \<in> set (L j) \<or> x = p \<and> j = i" by (auto split: if_splits)
    then obtain s0 where s0: "nt_scbs n x = Some s0" "scb_bucket (sb_sport s0) = j" "(sb_socktype s0 = SOCK_TCP) = tcp" "x < nt_sbrk n"
      using cells s by (auto simp: i_def)
    then show "x < nt_sbrk n'" using n'(2) by simp
    show "\<exists>s. nt_scbs n' x = Some s \<and> scb_bucket (sb_sport s) = j \<and> (sb_socktype s = SOCK_TCP) = tcp"
      using relinked_Some [OF rel s0(1)] s0 by auto
  qed
  then show ?thesis using n'(1) rel by blast
qed

text \<open>Unlinking a block from the middle of a chain.\<close>

definition set_prev :: "sheap \<Rightarrow> nat option \<Rightarrow> nat option \<Rightarrow> sheap" where
  "set_prev h p v = (case p of None \<Rightarrow> h | Some a \<Rightarrow> h(a \<mapsto> (the (h a))\<lparr>sb_prev := v\<rparr>))"

lemma schain_remove_first:
  "schain h pr p (x # ys) \<Longrightarrow> distinct (x # ys) \<Longrightarrow> h x = Some s \<Longrightarrow>
   schain (set_prev h (sb_next s) pr') pr' (sb_next s) ys"
  by (cases ys) (auto simp: set_prev_def split: option.splits)

lemma set_prev_other: "x \<notin> set ys \<Longrightarrow> schain h pr p ys \<Longrightarrow> set_prev h p v x = h x"
  by (cases ys) (auto simp: set_prev_def split: option.splits)

lemma schain_rest: "schain h pr p (xs @ x # ys) \<Longrightarrow> h x = Some s \<Longrightarrow> schain h (Some x) (sb_next s) ys"
  by (induction xs arbitrary: pr p) (auto split: option.splits)

lemma schain_prev: "schain h pr p (xs @ x # ys) \<Longrightarrow> h x = Some s \<Longrightarrow> sb_prev s = (if xs = [] then pr else Some (last xs))"
  by (induction xs arbitrary: pr p) (auto split: option.splits)

lemma schain_remove:
  "schain h pr p (xs @ x # ys) \<Longrightarrow> distinct (xs @ x # ys) \<Longrightarrow> xs \<noteq> [] \<Longrightarrow> h x = Some s \<Longrightarrow>
   h (last xs) = Some ls \<Longrightarrow>
   schain ((set_prev h (sb_next s) (sb_prev s))(last xs \<mapsto> ls\<lparr>sb_next := sb_next s\<rparr>)) pr p (xs @ ys)"
proof (induction xs arbitrary: pr p)
  case (Cons a xs)
  obtain sa where sa: "h a = Some sa" "sb_prev sa = pr" "p = Some a" "schain h (Some a) (sb_next sa) (xs @ x # ys)"
    using Cons.prems(1) by (auto split: option.splits)
  show ?case
  proof (cases "xs = []")
    case True
    then have "schain (set_prev h (sb_next s) (Some a)) (Some a) (sb_next s) ys" "sb_prev s = Some a"
      using schain_remove_first [of h "Some a" "sb_next sa" x ys s "Some a"] sa Cons.prems by auto
    moreover have "a \<notin> set ys" "sa = ls" using Cons.prems True sa(1) by auto
    ultimately have "schain ((set_prev h (sb_next s) (Some a))(a \<mapsto> ls\<lparr>sb_next := sb_next s\<rparr>)) (Some a) (sb_next s) ys"
      by (simp only: schain_upd not_False_eq_True)
    then show ?thesis using True sa \<open>sa = ls\<close> \<open>sb_prev s = Some a\<close>
      by (simp del: fun_upd_apply add: fun_upd_same)
  next
    case False
    have ys: "schain h (Some x) (sb_next s) ys" using Cons.prems(1,4) by (rule schain_rest)
    have "a \<notin> set ys" "last xs \<noteq> a" using Cons.prems(2) False by auto
    then have "set_prev h (sb_next s) (sb_prev s) a = Some sa" using set_prev_other [OF _ ys] sa(1) by simp
    then show ?thesis using Cons.IH [OF sa(4)] Cons.prems False sa \<open>last xs \<noteq> a\<close> by auto
  qed
qed simp

lemma scb_unlink_chain:
  assumes rep: "scb_rep n tcp L" and s: "nt_scbs n x = Some s" "(sb_socktype s = SOCK_TCP) = tcp"
    and L: "L (scb_bucket (sb_sport s)) = xs @ x # ys"
  defines "i \<equiv> scb_bucket (sb_sport s)"
  shows "\<exists>n'. scb_unlink n x = Ret n' \<and> nt_sbrk n' = nt_sbrk n \<and>
     schain (nt_scbs n') None (scb_table n' tcp i) (xs @ ys) \<and>
     (\<forall>j. j \<noteq> i \<longrightarrow> scb_table n' tcp j = scb_table n tcp j) \<and> scb_table n' (\<not> tcp) = scb_table n (\<not> tcp) \<and>
     (\<forall>y. relinked (nt_scbs n) (nt_scbs n') y) \<and> (\<forall>y. y \<notin> set (L i) \<longrightarrow> nt_scbs n' y = nt_scbs n y)"
proof -
  note b = scb_rep_bucket [OF rep scb_bucket_less, of "sb_sport s", unfolded L]
  let ?h = "nt_scbs n"
  note ys = schain_rest [OF b(1) s(1)] and pv = schain_prev [OF b(1) s(1)]
  define h1 where "h1 = set_prev ?h (sb_next s) (sb_prev s)"
  have h1r: "relinked ?h h1 y" for y
  proof (cases ys)
    case (Cons z zs)
    then obtain sz where "sb_next s = Some z" "?h z = Some sz" using ys by (auto split: option.splits)
    then show ?thesis by (auto simp: h1_def set_prev_def intro: relinked_upd [of _ _ sz])
  qed (use ys in \<open>simp add: h1_def set_prev_def\<close>)
  have h1f: "y \<notin> set ys \<Longrightarrow> h1 y = ?h y" for y unfolding h1_def using set_prev_other [OF _ ys] .
  define n1 where "n1 = n\<lparr>nt_scbs := h1\<rparr>"
  have n1: "(case sb_next s of None \<Rightarrow> Ret n
      | Some nx \<Rightarrow> kbind (deref ?h (Some nx)) (\<lambda>t. Ret (set_scb n nx (t\<lparr>sb_prev := sb_prev s\<rparr>)))) = Ret n1"
    using ys by (cases ys) (auto simp: n1_def h1_def set_prev_def set_scb_def split: option.splits)
  show ?thesis
  proof (cases "xs = []")
    case True
    let ?n = "set_scb_head n1 (sb_socktype s) i (sb_next s)"
    have "scb_unlink n x = Ret ?n" using s(1) n1 pv True by (simp add: scb_unlink_def i_def)
    moreover have "schain h1 None (sb_next s) ys"
      unfolding h1_def using schain_remove_first [of ?h None _ x ys s None] b(1,2) s(1) True pv by simp
    ultimately show ?thesis using True s(2) h1r h1f L
      by (intro exI [of _ ?n]) (auto simp: n1_def i_def)
  next
    case False
    then obtain ls where ls: "?h (last xs) = Some ls" using schain_live [OF b(1), of "last xs"] by auto
    then have ls1: "h1 (last xs) = Some ls" using h1f b(2) False by (metis disjoint_iff distinct_append last_in_set list.set_intros(2))
    let ?n = "set_scb n1 (last xs) (ls\<lparr>sb_next := sb_next s\<rparr>)"
    have "scb_unlink n x = Ret ?n" using s(1) n1 pv False ls1 by (simp add: scb_unlink_def n1_def)
    moreover have "schain (nt_scbs ?n) None (scb_table ?n tcp i) (xs @ ys)"
      using schain_remove [OF b(1,2) False s(1) ls] by (simp add: n1_def h1_def i_def)
    moreover have "relinked ?h (nt_scbs ?n) y" for y
      by (rule relinked_trans [OF h1r]) (use ls1 in \<open>auto simp: n1_def intro: relinked_upd [of _ _ ls]\<close>)
    ultimately show ?thesis using False h1f L
      by (intro exI [of _ ?n]) (auto simp: n1_def i_def)
  qed
qed

subsection \<open>Freeing a connected block\<close>

lemma mbufq_rep_upd: "m \<notin> set xs \<Longrightarrow> mbufq_rep (h(m := v)) q xs = mbufq_rep h q xs"
  by (simp add: mbufq_rep_def)

lemma drain_txq_rep:
  "mbufq_rep (nt_heap n) (sb_txq s) ms \<Longrightarrow> nt_scbs n p = Some s \<Longrightarrow> length ms < fuel \<Longrightarrow>
   \<exists>q. drain_txq fuel n p = Ret (n\<lparr>nt_scbs := (nt_scbs n)(p \<mapsto> s\<lparr>sb_txq := q\<rparr>),
     nt_ms := (nt_ms n)\<lparr>ms_heap := nt_heap n |` (- set ms)\<rparr>\<rparr>)"
proof (induction ms arbitrary: n s fuel)
  case Nil
  then obtain f where "fuel = Suc f" by (cases fuel) auto
  then have "drain_txq fuel n p = Ret (set_scb n p (s\<lparr>sb_txq := sb_txq s\<rparr>))"
    using Nil mbufq_pophead_empty [OF Nil(1)] by (simp add: pop_from_scb_txq_def)
  moreover have "ms_heap (nt_ms n) |` UNIV = ms_heap (nt_ms n)" by (rule ext) (simp add: restrict_map_def)
  ultimately show ?case by (intro exI [of _ "sb_txq s"]) (simp add: set_scb_def nt_heap_def del: fun_upd_apply)
next
  case (Cons m ms)
  then obtain f where f: "fuel = Suc f" "length ms < f" by (cases fuel) auto
  obtain q1 where q1: "mbufq_pophead (nt_heap n) (sb_txq s) = Ret (Some m, q1)" "mbufq_rep (nt_heap n) q1 ms"
    using mbufq_pophead_rep [OF Cons.prems(1)] by blast
  have m: "m \<notin> set ms" using Cons.prems(1) by (simp add: mbufq_rep_def)
  let ?n = "set_scb n p (s\<lparr>sb_txq := q1\<rparr>)"
  let ?n1 = "?n\<lparr>nt_ms := mbuffree (nt_ms ?n) m\<rparr>"
  have h1: "nt_heap ?n1 = (nt_heap n)(m := None)" by (simp add: nt_heap_def mbuffree_def set_scb_def)
  have "drain_txq fuel n p = drain_txq f ?n1 p"
    using f q1 Cons.prems(2) by (simp add: pop_from_scb_txq_def)
  moreover have "\<exists>q. drain_txq f ?n1 p = Ret (?n1\<lparr>nt_scbs := (nt_scbs ?n1)(p \<mapsto> s\<lparr>sb_txq := q1, sb_txq := q\<rparr>),
      nt_ms := (nt_ms ?n1)\<lparr>ms_heap := nt_heap ?n1 |` (- set ms)\<rparr>\<rparr>)"
  proof (rule Cons.IH)
    show "mbufq_rep (nt_heap ?n1) (sb_txq (s\<lparr>sb_txq := q1\<rparr>)) ms" unfolding h1 using q1(2) m by (simp add: mbufq_rep_upd)
  qed (simp_all add: f(2) set_scb_def)
  moreover have "((nt_heap n)(m := None)) |` (- set ms) = nt_heap n |` (- set (m # ms))"
    by (rule ext) (simp add: restrict_map_def)
  ultimately show ?case unfolding h1 by (simp add: set_scb_def mbuffree_def del: fun_upd_apply)
qed

lemma scb_rep_cong:
  "scb_rep n tcp L \<Longrightarrow> nt_sbrk n' = nt_sbrk n \<Longrightarrow> scb_table n' tcp = scb_table n tcp \<Longrightarrow> nt_scbs n' = nt_scbs n
   \<Longrightarrow> scb_rep n' tcp L"
  by (simp add: scb_rep_def)

lemma scb_rep_data:
  assumes "scb_rep n tcp L" "nt_scbs n p = Some s"
    "sb_prev s' = sb_prev s" "sb_next s' = sb_next s" "sb_sport s' = sb_sport s" "sb_socktype s' = sb_socktype s"
    "nt_scbs n' = (nt_scbs n)(p \<mapsto> s')" "nt_sbrk n' = nt_sbrk n" "scb_table n' tcp = scb_table n tcp"
  shows "scb_rep n' tcp L"
  using assms unfolding scb_rep_def by (fastforce simp: schain_data)

lemma scb_unlink_rep:
  assumes rep: "scb_rep n tcp L" and s: "nt_scbs n x = Some s" "(sb_socktype s = SOCK_TCP) = tcp"
    and x: "x \<in> set (L (scb_bucket (sb_sport s)))"
  defines "i \<equiv> scb_bucket (sb_sport s)"
  shows "\<exists>n'. scb_unlink n x = Ret n' \<and>
     scb_rep (n'\<lparr>nt_scbs := (nt_scbs n')(x := None)\<rparr>) tcp (L(i := remove1 x (L i)))"
proof -
  obtain xs ys where L: "L i = xs @ x # ys" and nx: "x \<notin> set xs"
    using x split_list_first unfolding i_def by metis
  then have r: "remove1 x (L i) = xs @ ys" by (simp add: remove1_append)
  obtain n' where n': "scb_unlink n x = Ret n'" "nt_sbrk n' = nt_sbrk n"
    and chain: "schain (nt_scbs n') None (scb_table n' tcp i) (xs @ ys)"
    and other: "\<And>j. j \<noteq> i \<Longrightarrow> scb_table n' tcp j = scb_table n tcp j"
    and rel: "\<And>y. relinked (nt_scbs n) (nt_scbs n') y"
    and frame: "\<And>y. y \<notin> set (L i) \<Longrightarrow> nt_scbs n' y = nt_scbs n y"
    using scb_unlink_chain [OF rep s L [unfolded i_def]] unfolding i_def by blast
  have "scb_rep (n'\<lparr>nt_scbs := (nt_scbs n')(x := None)\<rparr>) tcp (L(i := xs @ ys))"
    unfolding scb_rep_def
  proof (intro allI impI conjI ballI)
    fix j assume j: "j < SOCK_CB_LEN"
    note old = scb_rep_bucket [OF rep j]
    have cells: "\<exists>s. nt_scbs n y = Some s \<and> scb_bucket (sb_sport s) = j \<and> (sb_socktype s = SOCK_TCP) = tcp"
      "y < nt_sbrk n" if "y \<in> set (L j)" for y using rep j that by (auto simp: scb_rep_def)
    have out: "y \<notin> set (L i)" if "y \<in> set (L j)" "j \<noteq> i" for y
    proof
      assume "y \<in> set (L i)"
      then obtain s' where "nt_scbs n y = Some s'" "scb_bucket (sb_sport s') = i"
        using rep scb_bucket_less [of "sb_sport s"] unfolding scb_rep_def i_def by blast
      then show False using cells(1) [OF that(1)] that(2) by auto
    qed
    have nx': "x \<notin> set (xs @ ys)" using scb_rep_bucket(2) [OF rep, of i] L by (simp add: i_def)
    have xi: "x \<notin> set ((L(i := xs @ ys)) j)" using nx' out [of x] L by auto
    show "schain (nt_scbs (n'\<lparr>nt_scbs := (nt_scbs n')(x := None)\<rparr>)) None
        (scb_table (n'\<lparr>nt_scbs := (nt_scbs n')(x := None)\<rparr>) tcp j) ((L(i := xs @ ys)) j)"
    proof (cases "j = i")
      case True
      then show ?thesis using chain nx' by simp
    next
      case False
      have "\<And>y. y \<in> set (L j) \<Longrightarrow> nt_scbs n' y = nt_scbs n y" using frame out False by blast
      then have "schain (nt_scbs n') None (scb_table n tcp j) (L j)" using old(1) schain_frame by blast
      then show ?thesis using False other xi by simp
    qed
    show "distinct ((L(i := xs @ ys)) j)" using old(2) L by auto
    fix y assume y: "y \<in> set ((L(i := xs @ ys)) j)"
    then have y': "y \<in> set (L j)" "y \<noteq> x" using L xi by (auto split: if_splits)
    then show "y < nt_sbrk (n'\<lparr>nt_scbs := (nt_scbs n')(x := None)\<rparr>)" using cells(2) n'(2) by simp
    obtain s0 where s0: "nt_scbs n y = Some s0" "scb_bucket (sb_sport s0) = j" "(sb_socktype s0 = SOCK_TCP) = tcp"
      using cells(1) [OF y'(1)] by blast
    then show "\<exists>s. nt_scbs (n'\<lparr>nt_scbs := (nt_scbs n')(x := None)\<rparr>) y = Some s \<and>
        scb_bucket (sb_sport s) = j \<and> (sb_socktype s = SOCK_TCP) = tcp"
      using relinked_Some [OF rel s0(1)] y'(2) by auto
  qed
  then show ?thesis using n'(1) r by metis
qed

lemma scb_unlink_frame:
  "scb_unlink n x = Ret n' \<Longrightarrow> nt_ms n' = nt_ms n \<and> nt_sports n' = nt_sports n"
  by (auto simp: scb_unlink_def kres_simps set_scb_def set_scb_head_def split: option.splits if_splits)

lemma queue_length_bound:
  assumes "mbufq_rep h q ms" "\<And>m. m \<in> set ms \<Longrightarrow> m < b"
  shows "length ms < Suc b"
proof -
  have "length ms = card (set ms)" using assms(1) by (simp add: mbufq_rep_def distinct_card)
  also have "\<dots> \<le> card {..<b}" using assms(2) by (intro card_mono) auto
  finally show ?thesis by simp
qed

definition scb_file_ok :: "'d net \<Rightarrow> sock_cb \<Rightarrow> bool" where
  "scb_file_ok n s \<longleftrightarrow> (case sb_f s of None \<Rightarrow> True
     | Some f \<Rightarrow> filetab_inv (nt_files n) \<and> ft_heap (nt_files n) f \<noteq> None)"

lemma free_file_step:
  assumes "scb_file_ok n s"
  shows "\<exists>fs. (case sb_f s of None \<Rightarrow> Ret n
     | Some f \<Rightarrow> kbind (filefree (nt_files n) f) (\<lambda>(r, fs). Ret (n\<lparr>nt_files := fs\<rparr>))) = Ret (n\<lparr>nt_files := fs\<rparr>)"
proof (cases "sb_f s")
  case None
  then show ?thesis by (auto intro!: exI [of _ "nt_files n"])
next
  case (Some f)
  then obtain kf where "filetab_inv (nt_files n)" "ft_heap (nt_files n) f = Some kf"
    using assms by (auto simp: scb_file_ok_def)
  then show ?thesis using filefree_inv Some by fastforce
qed

lemma free_sock_cb_rep:
  assumes rep: "scb_rep n tcp L" and s: "nt_scbs n x = Some s" "(sb_socktype s = SOCK_TCP) = tcp"
    and x: "x \<in> set (L (scb_bucket (sb_sport s)))" and d: "sb_dport s \<noteq> 0" and f: "scb_file_ok n s"
    and q: "mbufq_rep (nt_heap n) (sb_txq s) ms" "\<And>m. m \<in> set ms \<Longrightarrow> m < ms_brk (nt_ms n)"
    and port: "unat (sb_sport s) < PORT_LIMIT"
  defines "i \<equiv> scb_bucket (sb_sport s)"
  shows "\<exists>n'. free_sock_cb n x = Ret n' \<and> scb_rep n' tcp (L(i := remove1 x (L i))) \<and>
     nt_scbs n' x = None \<and> nt_heap n' = nt_heap n |` (- set ms) \<and>
     (\<forall>p. sport_used (nt_sports n') p \<longleftrightarrow> sport_used (nt_sports n) p \<and> p \<noteq> unat (sb_sport s))"
proof -
  obtain fs where fs: "(case sb_f s of None \<Rightarrow> Ret n
      | Some f \<Rightarrow> kbind (filefree (nt_files n) f) (\<lambda>(r, fs). Ret (n\<lparr>nt_files := fs\<rparr>))) = Ret (n\<lparr>nt_files := fs\<rparr>)"
    using free_file_step [OF f] by blast
  let ?n1 = "n\<lparr>nt_files := fs\<rparr>"
  obtain tq where dr: "drain_txq (Suc (ms_brk (nt_ms ?n1))) ?n1 x =
      Ret (?n1\<lparr>nt_scbs := (nt_scbs ?n1)(x \<mapsto> s\<lparr>sb_txq := tq\<rparr>), nt_ms := (nt_ms ?n1)\<lparr>ms_heap := nt_heap ?n1 |` (- set ms)\<rparr>\<rparr>)"
    using drain_txq_rep [of ?n1 s ms x "Suc (ms_brk (nt_ms ?n1))"] q s(1) queue_length_bound [OF q]
    by (auto simp: nt_heap_def)
  let ?n2 = "?n1\<lparr>nt_scbs := (nt_scbs ?n1)(x \<mapsto> s\<lparr>sb_txq := tq\<rparr>), nt_ms := (nt_ms ?n1)\<lparr>ms_heap := nt_heap ?n1 |` (- set ms)\<rparr>\<rparr>"
  obtain sp where sp: "release_sport (nt_sports n) (sb_sport s) = Ret sp"
    "\<forall>p. sport_used sp p \<longleftrightarrow> sport_used (nt_sports n) p \<and> p \<noteq> unat (sb_sport s)"
    using release_sport_used [OF port] by blast
  let ?n3 = "?n2\<lparr>nt_sports := sp\<rparr>"
  have "scb_rep ?n3 tcp L" by (rule scb_rep_data [OF rep s(1), of "s\<lparr>sb_txq := tq\<rparr>"]) (simp_all add: scb_table_def)
  then obtain n4 where n4: "scb_unlink ?n3 x = Ret n4"
    "scb_rep (n4\<lparr>nt_scbs := (nt_scbs n4)(x := None)\<rparr>) tcp (L(i := remove1 x (L i)))"
    using scb_unlink_rep [of ?n3 tcp L x "s\<lparr>sb_txq := tq\<rparr>"] s x by (auto simp: i_def)
  have "free_sock_cb n x = Ret (n4\<lparr>nt_scbs := (nt_scbs n4)(x := None)\<rparr>)"
    using s(1) fs dr sp(1) d n4(1) by (simp add: free_sock_cb_def Let_def del: drain_txq.simps)
  then show ?thesis using n4(2) scb_unlink_frame [OF n4(1)] sp(2)
    by (intro exI [of _ "n4\<lparr>nt_scbs := (nt_scbs n4)(x := None)\<rparr>"]) (simp add: nt_heap_def)
qed

subsection \<open>Properties\<close>


definition one_scb :: "sock_cb \<Rightarrow> mbufq net" where
  "one_scb s = (net_init mock_init mock_transmit)\<lparr>nt_scbs := [0 \<mapsto> s], nt_sbrk := 1\<rparr>"



definition linked_scb :: "sock_cb \<Rightarrow> mbufq net" where
  "linked_scb s = (one_scb s)\<lparr>nt_tcp := (\<lambda>_. None)(80 := Some 0)\<rparr>"



end
