(* ===== verification/Netbytes.thy ===== *)
theory Netbytes
  imports Prelude
begin

text \<open>
  Byte order conversion (include/net/byteorder.h) and the Internet checksum
  (kernel/net/netutil.c). The two facts the protocol code depends on are that the conversions are
  involutions, and that a buffer into which its own checksum has been written sums to zero.
\<close>

subsection \<open>include/net/byteorder.h\<close>

definition bswaps :: "u16 \<Rightarrow> u16" where
  "bswaps val = push_bit 8 (val AND 0x00ff) OR drop_bit 8 (val AND 0xff00)"

definition bswapl :: "u32 \<Rightarrow> u32" where
  "bswapl val = push_bit 24 (val AND 0x000000ff) OR push_bit 8 (val AND 0x0000ff00)
     OR drop_bit 8 (val AND 0x00ff0000) OR drop_bit 24 (val AND 0xff000000)"

abbreviation ntohs :: "u16 \<Rightarrow> u16" where "ntohs \<equiv> bswaps"
abbreviation htons :: "u16 \<Rightarrow> u16" where "htons \<equiv> bswaps"
abbreviation ntohl :: "u32 \<Rightarrow> u32" where "ntohl \<equiv> bswapl"
abbreviation htonl :: "u32 \<Rightarrow> u32" where "htonl \<equiv> bswapl"

subsection \<open>kernel/net/netutil.c\<close>

text \<open>
  The accumulation loop of \<^verbatim>\<open>cksum16\<close>, with the remaining size, the data pointer as an address into
  \<open>m\<close> and the 32-bit accumulator \<open>acc\<close>.
\<close>

fun cksum_loop :: "bytes \<Rightarrow> nat \<Rightarrow> nat \<Rightarrow> u32 \<Rightarrow> u32" where
  "cksum_loop m data (Suc (Suc sz)) acc =
     cksum_loop m (data + 2) sz (acc + push_bit 8 (ucast (m data)) + ucast (m (data + 1)))"
| "cksum_loop m data (Suc 0) acc = acc + push_bit 8 (ucast (m data))"
| "cksum_loop m data 0 acc = acc"

definition cksum_fold :: "u32 \<Rightarrow> u32" where
  "cksum_fold acc = (acc AND 0xffff) + drop_bit 16 acc"

definition cksum16 :: "bytes \<Rightarrow> nat \<Rightarrow> u16 \<Rightarrow> u32 \<Rightarrow> u16" where
  "cksum16 m data sz init =
     ucast (NOT (cksum_fold (cksum_fold (cksum_loop m data (unat sz) init))))"

subsection \<open>Byte order\<close>

lemma mask_numerals:
  "(0x00ff :: u16) = mask 8" "(0xff00 :: u16) = push_bit 8 (mask 8)"
  "(0x000000ff :: u32) = mask 8" "(0x0000ff00 :: u32) = push_bit 8 (mask 8)"
  "(0x00ff0000 :: u32) = push_bit 16 (mask 8)" "(0xff000000 :: u32) = push_bit 24 (mask 8)"
  "(0xffff :: u32) = mask 16"
  by (simp_all add: mask_eq_exp_minus_1 push_bit_eq_mult)

lemma bit_bswaps:
  "n < 16 \<Longrightarrow> bit (bswaps v) n \<longleftrightarrow> bit v (if n < 8 then 8 + n else n - 8)"
  unfolding bswaps_def mask_numerals by (auto simp: bit_simps)

lemma bswaps_bswaps [simp]: "bswaps (bswaps v) = v"
  by (rule bit_word_eqI) (auto simp: bit_bswaps)

lemma bit_bswapl:
  "n < 32 \<Longrightarrow> bit (bswapl v) n \<longleftrightarrow>
     bit v (if n < 8 then 24 + n else if n < 16 then 8 + n else if n < 24 then n - 8 else n - 24)"
  unfolding bswapl_def mask_numerals by (auto simp: bit_simps)

lemma bswapl_bswapl [simp]: "bswapl (bswapl v) = v"
proof (rule bit_word_eqI)
  fix n :: nat assume "n < LENGTH(32)"
  then have "n < 8 \<or> 8 \<le> n \<and> n < 16 \<or> 16 \<le> n \<and> n < 24 \<or> 24 \<le> n \<and> n < 32" by auto
  then show "bit (bswapl (bswapl v)) n = bit v n"
    by (elim disjE) (simp_all add: bit_bswapl less_diff_conv2)
qed

text \<open>A converted store is big endian: most significant byte first.\<close>

lemma store16_htons:
  "store16 m a (htons v) = m(a := ucast (drop_bit 8 v), a + 1 := ucast v)"
proof -
  have "ucast (bswaps v) = (ucast (drop_bit 8 v) :: u8)"
    by (rule bit_word_eqI) (auto simp: bit_simps bit_bswaps)
  moreover have "ucast (drop_bit 8 (bswaps v)) = (ucast v :: u8)"
    by (rule bit_word_eqI) (auto simp: bit_simps bit_bswaps)
  ultimately show ?thesis by (simp add: store16_def)
qed

subsection \<open>The sum of the loop as a number\<close>

fun cksum_nat :: "bytes \<Rightarrow> nat \<Rightarrow> nat \<Rightarrow> nat" where
  "cksum_nat m data (Suc (Suc sz)) =
     256 * unat (m data) + unat (m (data + 1)) + cksum_nat m (data + 2) sz"
| "cksum_nat m data (Suc 0) = 256 * unat (m data)"
| "cksum_nat m data 0 = 0"

lemma cksum_nat_bound: "cksum_nat m data sz \<le> 65535 * ((sz + 1) div 2)"
proof (induction m data sz rule: cksum_nat.induct)
  case (1 m data sz)
  show ?case using 1 unat_less_u8 [of "m data"] unat_less_u8 [of "m (data + 1)"] by simp
next
  case (2 m data)
  show ?case using unat_less_u8 [of "m data"] by simp
qed simp

lemma unat_byte_hi: "unat (push_bit 8 (ucast (b :: u8)) :: u32) = 256 * unat b"
  using unat_less_u8 [of b]
  by (simp add: push_bit_eq_mult unat_word_ariths unat_ucast_widen)

lemma cksum_loop_nat:
  "unat acc + cksum_nat m data sz < 2 ^ 32 \<Longrightarrow>
   unat (cksum_loop m data sz acc) = unat acc + cksum_nat m data sz"
proof (induction m data sz acc rule: cksum_loop.induct)
  case (1 m data sz acc)
  have lo: "unat (ucast (m (data + 1)) :: u32) = unat (m (data + 1))"
    by (simp add: unat_ucast_widen)
  have "unat (acc + push_bit 8 (ucast (m data)) + ucast (m (data + 1)))
      = unat acc + 256 * unat (m data) + unat (m (data + 1))"
    using 1(2) unfolding unat_word_ariths lo unat_byte_hi by simp
  then show ?case using 1 by simp
next
  case (2 m data acc)
  then show ?case unfolding cksum_loop.simps cksum_nat.simps unat_word_ariths unat_byte_hi by simp
qed simp

subsection \<open>The checksum as a number\<close>

text \<open>
  One's complement reduction of a sum: the representative in 1..65535 of its class modulo 65535,
  and 0 only for 0. The two folding steps of the code compute it for every 32-bit sum.
\<close>

definition ones16 :: "nat \<Rightarrow> nat" where
  "ones16 s = (if s = 0 then 0 else (s - 1) mod 65535 + 1)"

lemma ones16_le: "ones16 s \<le> 65535"
  unfolding ones16_def by (simp add: less_Suc_eq_le [symmetric])

lemma ones16_unique:
  "r \<le> 65535 \<Longrightarrow> (r = 0 \<longleftrightarrow> s = 0) \<Longrightarrow> r mod 65535 = s mod 65535 \<Longrightarrow> ones16 s = r"
  unfolding ones16_def
  by (cases s; cases r) (auto simp: mod_Suc split: if_splits)

lemma split16: "(s :: nat) = 65536 * (s div 65536) + s mod 65536"
  by simp

lemma fold_step_mod: "(s mod 65536 + s div 65536) mod 65535 = s mod (65535 :: nat)"
proof -
  have "s = 65535 * (s div 65536) + (s mod 65536 + s div 65536)" using split16 [of s] by linarith
  then have "s mod 65535 = (65535 * (s div 65536) + (s mod 65536 + s div 65536)) mod 65535" by (rule arg_cong)
  then show ?thesis by (simp only: mod_mult_self4)
qed

lemma fold_le: "t \<le> 131070 \<Longrightarrow> t mod 65536 + t div 65536 \<le> (65535 :: nat)"
proof (cases "t < 65536")
  case False
  assume "t \<le> 131070"
  moreover obtain u where "t = 65536 + u" using False by (metis add.commute le_Suc_ex not_less)
  ultimately show ?thesis by simp
qed simp

lemma fold_eq_0: "t mod 65536 + t div 65536 = 0 \<longleftrightarrow> t = (0 :: nat)"
  using split16 [of t] by auto

lemma unat_cksum_fold: "unat (cksum_fold w) = unat w mod 65536 + unat w div 65536"
  unfolding cksum_fold_def mask_numerals
  using unat_less_u32 [of w]
  by (subst unat_add_small) (simp_all add: unat_and_mask unat_drop)

lemma unat_cksum_fold2: "unat (cksum_fold (cksum_fold w)) = ones16 (unat w)"
proof -
  let ?t = "unat w mod 65536 + unat w div 65536"
  have "unat w div 65536 < 65536" using unat_less_u32 [of w] by (simp add: less_mult_imp_div_less)
  moreover have "unat w mod 65536 < 65536" by simp
  ultimately have t: "?t \<le> 131070" by linarith
  have "ones16 (unat w) = ?t mod 65536 + ?t div 65536"
  proof (rule ones16_unique)
    show "?t mod 65536 + ?t div 65536 \<le> 65535"
      using t by (rule fold_le)
    show "?t mod 65536 + ?t div 65536 = 0 \<longleftrightarrow> unat w = 0"
      by (simp only: fold_eq_0)
    show "(?t mod 65536 + ?t div 65536) mod 65535 = unat w mod 65535"
      by (simp only: fold_step_mod)
  qed
  then show ?thesis by (simp only: unat_cksum_fold)
qed

lemma cksum16_nat:
  assumes "unat i + cksum_nat m a (unat sz) < 2 ^ 32"
  shows "unat (cksum16 m a sz i) = 65535 - ones16 (unat i + cksum_nat m a (unat sz))"
proof -
  let ?w = "cksum_fold (cksum_fold (cksum_loop m a (unat sz) i))"
  have w: "unat ?w = ones16 (unat i + cksum_nat m a (unat sz))"
    by (simp only: unat_cksum_fold2 cksum_loop_nat [OF assms])
  then have le: "unat ?w \<le> 65535" by (simp only: ones16_le)
  have "unat (NOT ?w) mod 65536 = 65535 - unat ?w"
  proof -
    have "unat (NOT ?w) = (65535 - unat ?w) + 65536 * 65535" using le by (simp add: unat_not)
    then show ?thesis by (simp only: mod_mult_self2) simp
  qed
  then show ?thesis unfolding cksum16_def by (simp add: unat_ucast_mod w)
qed

lemma sum_mod_iff:
  "(if s = 0 then 0 else (s - 1) mod 65535 + 1) = (65535 :: nat) \<longleftrightarrow> 0 < s \<and> s mod 65535 = 0"
  by (cases s) (simp_all add: mod_Suc)

lemma ones16_complement: "0 < 65535 - ones16 s + s \<and> (65535 - ones16 s + s) mod 65535 = 0"
proof (cases s)
  case (Suc t)
  have "65535 - ones16 s + s = 65535 + 65535 * (t div 65535)"
  proof -
    have "t div 65535 * 65535 + t mod 65535 = t" by (rule div_mult_mod_eq)
    moreover have "t mod 65535 < 65535" by simp
    moreover have "ones16 s = t mod 65535 + 1" by (simp add: ones16_def Suc)
    ultimately show ?thesis unfolding Suc by linarith
  qed
  then show ?thesis by simp
qed (simp add: ones16_def)

lemma cksum16_eq_0_iff:
  assumes "unat i + cksum_nat m a (unat sz) < 2 ^ 32"
  shows "cksum16 m a sz i = 0 \<longleftrightarrow>
     (let s = unat i + cksum_nat m a (unat sz) in 0 < s \<and> s mod 65535 = 0)"
proof -
  have "cksum16 m a sz i = 0 \<longleftrightarrow> ones16 (unat i + cksum_nat m a (unat sz)) = 65535"
    using cksum16_nat [OF assms] ones16_le [of "unat i + cksum_nat m a (unat sz)"]
    by (auto simp: unat_eq_0 [symmetric])
  also have "\<dots> \<longleftrightarrow> (let s = unat i + cksum_nat m a (unat sz) in 0 < s \<and> s mod 65535 = 0)"
    unfolding ones16_def Let_def by (rule sum_mod_iff)
  finally show ?thesis .
qed

lemma cksum_nat_u16_bound: "cksum_nat m a (unat (sz :: u16)) \<le> 65535 * 32768"
proof -
  have "(unat sz + 1) div 2 \<le> 32768" using unat_less_u16 [of sz] by simp
  then show ?thesis using cksum_nat_bound [of m a "unat sz"] by (meson le_trans mult_le_mono2)
qed

text \<open>
  Writing a 16-bit value big endian at an even offset where the buffer had zeroes adds that value
  to the sum.
\<close>

lemma cksum_nat_shift:
  "(\<And>i. i < n \<Longrightarrow> m (a + i) = m' (b + i)) \<Longrightarrow> cksum_nat m a n = cksum_nat m' b n"
proof (induction m a n arbitrary: b rule: cksum_nat.induct)
  case (1 m data sz)
  have "m (data + 2 + i) = m' (b + 2 + i)" if "i < sz" for i
    using 1(2) [of "2 + i"] that by (simp add: add.assoc)
  then show ?case using 1(1) [of "b + 2"] 1(2) [of 0] 1(2) [of 1] by simp
next
  case (2 m data)
  then show ?case using 2 [of 0] by simp
qed simp

lemmas cksum_nat_cong = cksum_nat_shift [where a = a and b = a for a]

lemma cksum_loop_shift:
  "(\<And>i. i < n \<Longrightarrow> m (a + i) = m' (b + i)) \<Longrightarrow> cksum_loop m a n acc = cksum_loop m' b n acc"
proof (induction m a n acc arbitrary: b rule: cksum_loop.induct)
  case (1 m data sz acc)
  have "m (data + 2 + i) = m' (b + 2 + i)" if "i < sz" for i
    using 1(2) [of "2 + i"] that by (simp add: add.assoc)
  then show ?case using 1(1) [of "b + 2"] 1(2) [of 0] 1(2) [of 1] by simp
next
  case (2 m data acc)
  then show ?case using 2 [of 0] by simp
qed simp

lemma cksum16_shift:
  "(\<And>i. i < unat sz \<Longrightarrow> m (a + i) = m' (b + i)) \<Longrightarrow> cksum16 m a sz acc = cksum16 m' b sz acc"
  unfolding cksum16_def using cksum_loop_shift [of "unat sz" m a m' b acc] by simp

lemma cksum_nat_insert:
  assumes "even k" "k + 2 \<le> n" "m (a + k) = 0" "m (a + k + 1) = 0"
  shows "cksum_nat (m(a + k := ucast (drop_bit 8 v), a + k + 1 := ucast (v :: u16))) a n
           = unat v + cksum_nat m a n"
  using assms
proof (induction m a n arbitrary: k rule: cksum_nat.induct)
  case (1 m data sz)
  define m' where "m' = m(data + k := ucast (drop_bit 8 v), data + k + 1 := ucast v)"
  have unfold: "cksum_nat m' data (Suc (Suc sz)) =
    256 * unat (m' data) + unat (m' (data + 1)) + cksum_nat m' (data + 2) sz" by simp
  show ?case
  proof (cases "k = 0")
    case True
    have "256 * unat (ucast (drop_bit 8 v) :: u8) + unat (ucast v :: u8) = unat v"
      using unat_less_u16 [of v] by (simp add: unat_ucast_mod unat_drop less_mult_imp_div_less)
    moreover have "cksum_nat m' (data + 2) sz = cksum_nat m (data + 2) sz"
      by (rule cksum_nat_cong) (simp add: m'_def True)
    moreover have "m' data = ucast (drop_bit 8 v)" "m' (data + 1) = ucast v"
      by (simp_all add: m'_def True)
    ultimately show ?thesis using True 1(4,5) unfold unfolding m'_def [symmetric] by simp
  next
    case False
    define k' where "k' = k - 2"
    have k: "k = k' + 2" "even k'"
      using False 1(2) by (auto simp: k'_def elim!: evenE)
    have m': "m' = m(data + 2 + k' := ucast (drop_bit 8 v), data + 2 + k' + 1 := ucast v)"
      by (simp add: m'_def k)
    have "m' data = m data" "m' (data + 1) = m (data + 1)" by (simp_all add: m'_def k)
    moreover have "cksum_nat m' (data + 2) sz = unat v + cksum_nat m (data + 2) sz"
      unfolding m' by (rule 1(1)) (use 1(3-) k in \<open>simp_all add: add.assoc\<close>)
    ultimately show ?thesis using unfold unfolding m'_def [symmetric] by simp
  qed
qed simp_all

lemma cksum16_insert:
  assumes "even k" "k + 2 \<le> unat sz" "m (a + k) = 0" "m (a + k + 1) = 0" "unat acc < 2 ^ 31"
  shows "cksum16 (store16 m (a + k) (htons (cksum16 m a sz acc))) a sz acc = 0"
proof -
  let ?c = "cksum16 m a sz acc"
  let ?S = "unat acc + cksum_nat m a (unat sz)"
  have bound: "unat acc + cksum_nat m' a (unat sz) < 2 ^ 32" for m'
    using cksum_nat_u16_bound [of m' a sz] assms(5) by simp
  have c: "unat ?c = 65535 - ones16 ?S" by (rule cksum16_nat [OF bound])
  have ins: "cksum_nat (store16 m (a + k) (htons ?c)) a (unat sz) = unat ?c + cksum_nat m a (unat sz)"
    unfolding store16_htons using cksum_nat_insert [OF assms(1-4)] .
  have "unat acc + (unat ?c + cksum_nat m a (unat sz)) = 65535 - ones16 ?S + ?S" using c by simp
  moreover have "0 < 65535 - ones16 ?S + ?S \<and> (65535 - ones16 ?S + ?S) mod 65535 = 0"
    by (rule ones16_complement)
  ultimately show ?thesis unfolding cksum16_eq_0_iff [OF bound] Let_def ins by (simp only:)
qed

subsection \<open>Big-endian byte lists\<close>

definition be16 :: "u16 \<Rightarrow> u8 list" where
  "be16 v = [ucast (drop_bit 8 v), ucast v]"

definition be32 :: "u32 \<Rightarrow> u8 list" where
  "be32 v = [ucast (drop_bit 24 v), ucast (drop_bit 16 v), ucast (drop_bit 8 v), ucast v]"

lemma length_be [simp]: "length (be16 v) = 2" "length (be32 w) = 4"
  by (simp_all add: be16_def be32_def)

lemma store32_htonl:
  "store32 m a (htonl v) =
     m(a := ucast (drop_bit 24 v), a + 1 := ucast (drop_bit 16 v), a + 2 := ucast (drop_bit 8 v), a + 3 := ucast v)"
proof -
  have "ucast (bswapl v) = (ucast (drop_bit 24 v) :: u8)"
    "ucast (drop_bit 8 (bswapl v)) = (ucast (drop_bit 16 v) :: u8)"
    "ucast (drop_bit 16 (bswapl v)) = (ucast (drop_bit 8 v) :: u8)"
    "ucast (drop_bit 24 (bswapl v)) = (ucast v :: u8)"
    by (rule bit_word_eqI, auto simp: bit_simps bit_bswapl)+
  then show ?thesis by (simp add: store32_def)
qed

lemma bytes_at_numeral:
  "bytes_at m a (numeral k) = m a # bytes_at m (a + 1) (pred_numeral k)"
  by (simp add: numeral_eq_Suc bytes_at_Suc)

lemma ntohs_load16: "bytes_at m a 2 = be16 v \<Longrightarrow> ntohs (load16 m a) = v"
proof -
  assume "bytes_at m a 2 = be16 v"
  then have "m a = ucast (drop_bit 8 v)" "m (a + 1) = ucast v"
    by (simp_all add: bytes_at_numeral bytes_at_Suc be16_def)
  then have "load16 m a = load16 (store16 m a (htons v)) a" by (simp add: load16_def store16_htons)
  then show ?thesis by simp
qed

lemma ntohl_load32: "bytes_at m a 4 = be32 v \<Longrightarrow> ntohl (load32 m a) = v"
proof -
  assume "bytes_at m a 4 = be32 v"
  then have "m a = ucast (drop_bit 24 v)" "m (a + 1) = ucast (drop_bit 16 v)"
    "m (a + 2) = ucast (drop_bit 8 v)" "m (a + 3) = ucast v"
    by (simp_all add: bytes_at_numeral bytes_at_Suc be32_def numeral_eq_Suc)
  then have "load32 m a = load32 (store32 m a (htonl v)) a"
    unfolding load32_def store32_htonl by simp
  then show ?thesis by simp
qed

lemma bytes_at_htons [simp]: "bytes_at (store16 m a (htons v)) a 2 = be16 v"
  by (simp add: store16_htons be16_def bytes_at_numeral bytes_at_Suc)

lemma bytes_at_htonl [simp]: "bytes_at (store32 m a (htonl v)) a 4 = be32 v"
  by (simp add: store32_htonl be32_def bytes_at_numeral bytes_at_Suc numeral_eq_Suc)

subsection \<open>Properties\<close>

text \<open>a buffer into which \<^verbatim>\<open>cksum16\<close> has been written, in network byte order, at an even offset
  that held zeroes, sums to zero: the receiver's check on an IP header or TCP segment accepts
  exactly what the sender's computation produces.\<close>

theorem cksum16_verifies:
  assumes "even k" "k + 2 \<le> unat sz" "m (a + k) = 0" "m (a + k + 1) = 0" "unat acc < 2 ^ 31"
  shows "cksum16 (store16 m (a + k) (htons (cksum16 m a sz acc))) a sz acc = 0"
  using assms by (rule cksum16_insert)

theorem cksum16_verifies_witness:
  "cksum16 (store16 (\<lambda>i. if i = 3 then 7 else 0) (0 + 10) (htons (cksum16 (\<lambda>i. if i = 3 then 7 else 0) 0 20 5))) 0 20 5 = 0"
  by (rule cksum16_verifies) simp_all

text \<open>C32: \<^verbatim>\<open>cksum16\<close> computes the Internet checksum of RFC 1071: the one's complement of the one's
  complement sum of the 16-bit words of the data, an odd last byte being padded with zero.\<close>

theorem cksum16_rfc1071:
  assumes "unat acc < 2 ^ 31"
  shows "unat (cksum16 m a sz acc) = 65535 - ones16 (unat acc + cksum_nat m a (unat sz))"
  by (rule cksum16_nat) (use cksum_nat_u16_bound [of m a sz] assms in simp)

theorem cksum16_rfc1071_witness:
  "unat (cksum16 (\<lambda>i. of_nat i) 0 3 0) = 65535 - ones16 (0 + cksum_nat (\<lambda>i. of_nat i) 0 3)"
  using cksum16_rfc1071 [of 0 "\<lambda>i. of_nat i" 0 3] by simp

text \<open>the byte order conversions are involutions, and a converted store puts the bytes on the wire
  most significant first.\<close>

theorem byteorder_roundtrip:
  "ntohs (htons v) = v \<and> ntohl (htonl w) = w \<and>
   bytes_at (store16 m a (htons v)) a 2 = be16 v \<and> bytes_at (store32 m a (htonl w)) a 4 = be32 w"
  by simp

end
