(* ===== verification/Ethernet.thy ===== *)
theory Ethernet
  imports SockCb Netbytes
begin

text \<open>
  Sending over Ethernet and address resolution: kernel/net/ethernet.c and kernel/net/arp.c.
  \<^verbatim>\<open>eth_send\<close> and \<^verbatim>\<open>arp_send\<close> call each other: an IP packet to an unresolved address makes an ARP
  request, which is itself an Ethernet packet of another type. The headers are written into the
  packet byte by byte, at the offsets of the packed C structs.
\<close>

subsection \<open>Constants\<close>

definition ETH_TYPE_IP :: u16 where "ETH_TYPE_IP = 0x0800"
definition ETH_TYPE_ARP :: u16 where "ETH_TYPE_ARP = 0x0806"
definition ETH_MAX_SIZE :: u32 where "ETH_MAX_SIZE = 4000"
definition ARP_HRD_ETHER :: u16 where "ARP_HRD_ETHER = 1"
definition ARP_OP_REQUEST :: u16 where "ARP_OP_REQUEST = 1"
definition ARP_OP_REPLY :: u16 where "ARP_OP_REPLY = 2"

definition local_mac :: "u8 list" where "local_mac = [0x52, 0x54, 0x00, 0x12, 0x34, 0x56]"
definition broadcast_mac :: "u8 list" where "broadcast_mac = [0xff, 0xff, 0xff, 0xff, 0xff, 0xff]"

text \<open>\<^verbatim>\<open>MAKE_IP_ADDR\<close> and the address of the host (kernel/net/ipv4.c).\<close>

definition MAKE_IP_ADDR :: "u8 \<Rightarrow> u8 \<Rightarrow> u8 \<Rightarrow> u8 \<Rightarrow> u32" where
  "MAKE_IP_ADDR a b c d =
     push_bit 24 (ucast a) OR push_bit 16 (ucast b) OR push_bit 8 (ucast c) OR ucast d"

definition local_ip :: u32 where "local_ip = MAKE_IP_ADDR 192 168 35 2"

subsection \<open>Headers\<close>

text \<open>\<^verbatim>\<open>struct eth\<close>: dhost at 0, shost at 6, type at 12; 14 bytes.\<close>

definition eth_header :: "bytes \<Rightarrow> nat \<Rightarrow> u16 \<Rightarrow> u8 list \<Rightarrow> bytes" where
  "eth_header b off ethtype dhost =
     (let b1 = store16 b (off + 12) (htons ethtype);
          b2 = store_list b1 (off + 6) local_mac
      in store_list b2 off dhost)"

text \<open>\<^verbatim>\<open>struct arp\<close>: hrd 0, pro 2, hln 4, pln 5, op 6, sha 8, sip 14, tha 18, tip 24; 28 bytes.\<close>

definition arp_header :: "bytes \<Rightarrow> nat \<Rightarrow> u16 \<Rightarrow> u8 list \<Rightarrow> u32 \<Rightarrow> bytes" where
  "arp_header b off op dmac dip =
     (let b1 = store16 b off (htons ARP_HRD_ETHER);
          b2 = store16 b1 (off + 2) (htons ETH_TYPE_IP);
          b3 = store8 b2 (off + 4) (of_nat ETH_ADDR_LEN);
          b4 = store8 b3 (off + 5) 4;
          b5 = store16 b4 (off + 6) (htons op);
          b6 = store_list b5 (off + 8) local_mac;
          b7 = store32 b6 (off + 14) (htonl local_ip);
          b8 = store_list b7 (off + 18) dmac
      in store32 b8 (off + 24) (htonl dip))"

subsection \<open>Packets by address\<close>

definition get_mbuf :: "'d net \<Rightarrow> nat \<Rightarrow> mbuf kres" where
  "get_mbuf n p = deref (nt_heap n) (Some p)"

definition put_mbuf :: "'d net \<Rightarrow> nat \<Rightarrow> mbuf \<Rightarrow> 'd net" where
  "put_mbuf n p mb = set_heap n ((nt_heap n)(p \<mapsto> mb))"

text \<open>\<^verbatim>\<open>mbufalloc\<close> on the state of the stack; \<open>None\<close> is the null pointer.\<close>

definition net_mbufalloc :: "'d net \<Rightarrow> u32 \<Rightarrow> nat option \<times> 'd net" where
  "net_mbufalloc n headroom =
     (case mbufalloc (nt_ms n) headroom of (p, ms) \<Rightarrow> (p, n\<lparr>nt_ms := ms\<rparr>))"

subsection \<open>Sending\<close>

text \<open>The end of \<^verbatim>\<open>eth_send\<close>: push the Ethernet header and hand the packet to the device.\<close>

definition eth_transmit :: "'d net \<Rightarrow> nat \<Rightarrow> u16 \<Rightarrow> u8 list \<Rightarrow> 'd net kres" where
  "eth_transmit n m ethtype dhost =
     kbind (get_mbuf n m) (\<lambda>mb.
     kbind (mbufpush mb 14) (\<lambda>(off, mb1).
     let n1 = put_mbuf n m (mb1\<lparr>mb_buf := eth_header (mb_buf mb1) off ethtype dhost\<rparr>) in
     kbind (nt_transmit n1 (nt_dev n1) (nt_ms n1) m) (\<lambda>(r, d, ms).
     Ret (n1\<lparr>nt_dev := d, nt_ms := (if r = - 1 then mbuffree ms m else ms)\<rparr>))))"

function (sequential)
  eth_send :: "'d net \<Rightarrow> nat \<Rightarrow> u16 \<Rightarrow> u32 \<Rightarrow> 'd net kres" and
  arp_send :: "'d net \<Rightarrow> u16 \<Rightarrow> u8 list \<Rightarrow> u32 \<Rightarrow> (int \<times> 'd net) kres" where
  "eth_send n m ethtype dip =
     kbind (arptable_get_mac (nt_arp n) dip) (\<lambda>(mac, at).
     let n1 = n\<lparr>nt_arp := at\<rparr> in
     case mac of
       Some dhost \<Rightarrow> eth_transmit n1 m ethtype dhost
     | None \<Rightarrow>
         if ethtype \<noteq> ETH_TYPE_ARP then
           kbind (arp_send n1 ARP_OP_REQUEST broadcast_mac dip) (\<lambda>(r, n2).
           kbind (mbufq_pushtail (nt_heap n2) (nt_arpq n2) m) (\<lambda>(h, q).
           Ret ((set_heap n2 h)\<lparr>nt_arpq := q\<rparr>)))
         else eth_transmit n1 m ethtype broadcast_mac)"
| "arp_send n op dmac dip =
     (case net_mbufalloc n MBUF_DEFAULT_HEADROOM of
        (None, n1) \<Rightarrow> Ret (- 1, n1)
      | (Some m, n1) \<Rightarrow>
          kbind (get_mbuf n1 m) (\<lambda>mb.
          kbind (mbufput mb 28) (\<lambda>(off, mb1).
          let n2 = put_mbuf n1 m (mb1\<lparr>mb_buf := arp_header (mb_buf mb1) off op dmac dip\<rparr>) in
          kbind (eth_send n2 m ETH_TYPE_ARP dip) (\<lambda>n3. Ret (0, n3)))))"
  by pat_completeness auto
termination
  by (relation "measure (\<lambda>x. case x of Inl (n, m, t, d) \<Rightarrow> if t = ETH_TYPE_ARP then 0 else 2 | Inr _ \<Rightarrow> 1)") auto

subsection \<open>Receiving ARP packets\<close>

text \<open>
  The walk over the packets waiting for an address: those for \<open>sip\<close> are sent and taken out of the
  queue by relinking around them. As in the code, \<^verbatim>\<open>now->next\<close> is read after \<^verbatim>\<open>eth_send\<close>, and the
  tail of the queue is not adjusted.
\<close>

fun arp_flush :: "nat \<Rightarrow> 'd net \<Rightarrow> u32 \<Rightarrow> nat option \<Rightarrow> nat option \<Rightarrow> 'd net kres" where
  "arp_flush 0 n sip prev now = Diverge"
| "arp_flush (Suc fuel) n sip prev now =
     (case now of
        None \<Rightarrow> Ret n
      | Some p \<Rightarrow>
          kbind (get_mbuf n p) (\<lambda>mb.
          if mb_raddr mb = sip then
            kbind (eth_send n p ETH_TYPE_IP (mb_raddr mb)) (\<lambda>n1.
            kbind (get_mbuf n1 p) (\<lambda>mb1.
            case prev of
              Some q \<Rightarrow>
                kbind (get_mbuf n1 q) (\<lambda>qb.
                arp_flush fuel (put_mbuf n1 q (qb\<lparr>mb_next := mb_next mb1\<rparr>)) sip prev (mb_next mb1))
            | None \<Rightarrow>
                arp_flush fuel (n1\<lparr>nt_arpq := (nt_arpq n1)\<lparr>q_head := mb_next mb1\<rparr>\<rparr>) sip prev (mb_next mb1)))
          else arp_flush fuel n sip (Some p) (mb_next mb)))"

definition arp_recv :: "'d net \<Rightarrow> nat \<Rightarrow> 'd net kres" where
  "arp_recv n m =
     kbind (get_mbuf n m) (\<lambda>mb.
     case mbufpull mb 28 of
       (None, mb1) \<Rightarrow> Ret (put_mbuf n m mb1)
     | (Some off, mb1) \<Rightarrow>
         let n1 = put_mbuf n m mb1; b = mb_buf mb1 in
         if ntohs (load16 b off) \<noteq> ARP_HRD_ETHER \<or> ntohs (load16 b (off + 2)) \<noteq> ETH_TYPE_IP \<or>
            load8 b (off + 4) \<noteq> of_nat ETH_ADDR_LEN \<or> load8 b (off + 5) \<noteq> 4
         then Ret n1
         else
           let smac = bytes_at b (off + 8) ETH_ADDR_LEN;
               tip = ntohl (load32 b (off + 24));
               sip = ntohl (load32 b (off + 14)) in
           kbind (arptable_add (nt_arp n1) sip smac) (\<lambda>at.
           let n2 = n1\<lparr>nt_arp := at\<rparr> in
           kbind (arp_flush (Suc (ms_brk (nt_ms n2))) n2 sip None (q_head (nt_arpq n2))) (\<lambda>n3.
           kbind (get_mbuf n3 m) (\<lambda>mb3.
           if ntohs (load16 (mb_buf mb3) (off + 6)) \<noteq> ARP_OP_REQUEST \<or> tip \<noteq> local_ip then Ret n3
           else kbind (arp_send n3 ARP_OP_REPLY smac sip) (\<lambda>(r, n4). Ret n4)))))"

text \<open>\<^verbatim>\<open>arpinit\<close>\<close>

definition arpinit :: "'d net \<Rightarrow> 'd net" where
  "arpinit n = n\<lparr>nt_arpq := mbufq_init (nt_arpq n), nt_arp := arptable_init (nt_arp n)\<rparr>"

subsection \<open>The headers as byte strings\<close>

lemma length_macs [simp]: "length local_mac = 6" "length broadcast_mac = 6"
  by (simp_all add: local_mac_def broadcast_mac_def)

lemma eth_header_bytes:
  assumes "length dhost = 6"
  shows "bytes_at (eth_header b off t dhost) off 14 = dhost @ local_mac @ be16 t"
proof -
  let ?m = "eth_header b off t dhost"
  have "bytes_at ?m off (6 + (6 + 2)) = bytes_at ?m off 6 @ bytes_at ?m (off + 6) 6 @ bytes_at ?m (off + 12) 2"
    by (simp only: bytes_at_add add.assoc) simp
  moreover have "bytes_at ?m off 6 = dhost" using assms by (simp add: eth_header_def)
  moreover have "bytes_at ?m (off + 6) 6 = local_mac" using assms by (simp add: eth_header_def mem_simps)
  moreover have "bytes_at ?m (off + 12) 2 = be16 t" using assms by (simp add: eth_header_def mem_simps)
  ultimately show ?thesis by simp
qed

lemma eth_header_frame:
  "length dhost = 6 \<Longrightarrow> off + 14 \<le> a \<Longrightarrow> bytes_at (eth_header b off t dhost) a k = bytes_at b a k"
  by (simp add: eth_header_def mem_simps)

lemma arp_header_bytes:
  assumes "length dmac = 6"
  shows "bytes_at (arp_header b off op dmac dip) off 28 =
    be16 ARP_HRD_ETHER @ be16 ETH_TYPE_IP @ [6, 4] @ be16 op @ local_mac @ be32 local_ip @ dmac @ be32 dip"
proof -
  let ?m = "arp_header b off op dmac dip"
  have "bytes_at ?m off (2 + (2 + (1 + (1 + (2 + (6 + (4 + (6 + 4)))))))) =
      bytes_at ?m off 2 @ bytes_at ?m (off + 2) 2 @ bytes_at ?m (off + 4) 1 @ bytes_at ?m (off + 5) 1 @
      bytes_at ?m (off + 6) 2 @ bytes_at ?m (off + 8) 6 @ bytes_at ?m (off + 14) 4 @ bytes_at ?m (off + 18) 6 @
      bytes_at ?m (off + 24) 4"
    by (simp only: bytes_at_add add.assoc) simp
  moreover have "bytes_at ?m off 2 = be16 ARP_HRD_ETHER" using assms by (simp add: arp_header_def mem_simps)
  moreover have "bytes_at ?m (off + 2) 2 = be16 ETH_TYPE_IP" using assms by (simp add: arp_header_def mem_simps)
  moreover have "bytes_at ?m (off + 4) 1 = [6]"
    using assms by (simp add: arp_header_def mem_simps bytes_at_Suc store8_def ETH_ADDR_LEN_def)
  moreover have "bytes_at ?m (off + 5) 1 = [4]"
    using assms by (simp add: arp_header_def mem_simps bytes_at_Suc store8_def)
  moreover have "bytes_at ?m (off + 6) 2 = be16 op" using assms by (simp add: arp_header_def mem_simps)
  moreover have "bytes_at ?m (off + 8) 6 = local_mac" using assms by (simp add: arp_header_def mem_simps)
  moreover have "bytes_at ?m (off + 14) 4 = be32 local_ip" using assms by (simp add: arp_header_def mem_simps)
  moreover have "bytes_at ?m (off + 18) 6 = dmac" using assms by (simp add: arp_header_def mem_simps)
  moreover have "bytes_at ?m (off + 24) 4 = be32 dip" by (simp add: arp_header_def)
  ultimately show ?thesis by simp
qed

subsection \<open>What a send does\<close>

lemma nt_heap_set [simp]:
  "nt_heap (set_heap n h) = h" "nt_heap (n\<lparr>nt_arp := at\<rparr>) = nt_heap n"
  "nt_heap (set_scb n p s) = nt_heap n" "nt_heap (put_mbuf n p mb) = (nt_heap n)(p \<mapsto> mb)"
  "nt_heap (n\<lparr>nt_arpq := q\<rparr>) = nt_heap n"
  by (simp_all add: nt_heap_def set_heap_def set_scb_def put_mbuf_def)

text \<open>
  \<open>handed n m mb\<close>: the packet \<open>m\<close> holding \<open>mb\<close> is given to the device; a failed transmission frees it.
\<close>

definition handed :: "'d net \<Rightarrow> nat \<Rightarrow> mbuf \<Rightarrow> 'd net kres" where
  "handed n m mb =
     (let n1 = put_mbuf n m mb in
      kbind (nt_transmit n1 (nt_dev n1) (nt_ms n1) m) (\<lambda>(r, d, ms).
      Ret (n1\<lparr>nt_dev := d, nt_ms := (if r = - 1 then mbuffree ms m else ms)\<rparr>)))"

lemma eth_transmit_frame:
  assumes "nt_heap n m = Some mb" "14 \<le> mb_head mb" "mbuf_ok mb" "length dhost = 6"
  shows "\<exists>mb'. eth_transmit n m ethtype dhost = handed n m mb' \<and>
     mbuf_data mb' = dhost @ local_mac @ be16 ethtype @ mbuf_data mb \<and> mb_head mb' = mb_head mb - 14 \<and>
     mbuf_ok mb' \<and> mb_next mb' = mb_next mb \<and> mb_raddr mb' = mb_raddr mb"
proof -
  let ?off = "mb_head mb - 14"
  let ?mb = "mb\<lparr>mb_head := ?off, mb_len := mb_len mb + 14, mb_buf := eth_header (mb_buf mb) ?off ethtype dhost\<rparr>"
  have len: "unat (mb_len mb + 14) = 14 + unat (mb_len mb)"
    using assms(3) by (subst unat_add_small) (auto simp: mbuf_ok_def MBUF_SIZE_def)
  have "eth_transmit n m ethtype dhost = handed n m ?mb"
    using assms(1,2) by (simp add: eth_transmit_def get_mbuf_def mbufpush_Ret handed_def)
  moreover have "mbuf_data ?mb = dhost @ local_mac @ be16 ethtype @ mbuf_data mb"
    using assms(2,4) eth_header_bytes [OF assms(4), of "mb_buf mb" ?off ethtype]
    by (simp add: mbuf_data_def len bytes_at_add eth_header_frame)
  moreover have "mbuf_ok ?mb" using assms(2,3) len by (simp add: mbuf_ok_def)
  ultimately show ?thesis by (intro exI [of _ ?mb]) simp
qed

lemma eth_send_resolved:
  assumes "arp_models (nt_arp n) A" "A dip = Some mac"
  shows "\<exists>at. eth_send n m ethtype dip = eth_transmit (n\<lparr>nt_arp := at\<rparr>) m ethtype mac \<and> arp_models at A"
proof -
  obtain at where "arptable_get_mac (nt_arp n) dip = Ret (A dip, at)" "arp_models at A"
    using arptab.get_models [OF assms(1)] by blast
  then show ?thesis using assms(2) by (auto intro!: exI [of _ at])
qed

subsection \<open>Sending leaves the sockets alone\<close>

text \<open>Everything but the packets, the ARP state and the device is as before.\<close>

definition same_socks :: "'d net \<Rightarrow> 'd net \<Rightarrow> bool" where
  "same_socks n n' \<longleftrightarrow> nt_scbs n' = nt_scbs n \<and> nt_sbrk n' = nt_sbrk n \<and> nt_tcp n' = nt_tcp n \<and>
     nt_udp n' = nt_udp n \<and> nt_files n' = nt_files n \<and> nt_sports n' = nt_sports n \<and>
     nt_transmit n' = nt_transmit n"

lemma same_socks_refl [simp]: "same_socks n n"
  by (simp add: same_socks_def)

lemma same_socks_trans [trans]: "same_socks n n' \<Longrightarrow> same_socks n' n'' \<Longrightarrow> same_socks n n''"
  by (simp add: same_socks_def)

lemma same_socks_upd [simp]:
  "same_socks n (put_mbuf n' p mb) = same_socks n n'" "same_socks n (set_heap n' h) = same_socks n n'"
  "same_socks n (n'\<lparr>nt_arp := at\<rparr>) = same_socks n n'" "same_socks n (n'\<lparr>nt_arpq := q\<rparr>) = same_socks n n'"
  "same_socks n (n'\<lparr>nt_dev := d\<rparr>) = same_socks n n'" "same_socks n (n'\<lparr>nt_ms := ms\<rparr>) = same_socks n n'"
  "same_socks (put_mbuf n p mb) n' = same_socks n n'" "same_socks (set_heap n h) n' = same_socks n n'"
  "same_socks (n\<lparr>nt_arp := at\<rparr>) n' = same_socks n n'" "same_socks (n\<lparr>nt_arpq := q\<rparr>) n' = same_socks n n'"
  "same_socks (n\<lparr>nt_dev := d\<rparr>) n' = same_socks n n'" "same_socks (n\<lparr>nt_ms := ms\<rparr>) n' = same_socks n n'"
  by (simp_all add: same_socks_def put_mbuf_def set_heap_def)

lemma eth_transmit_socks: "eth_transmit n m t dhost = Ret n' \<Longrightarrow> same_socks n n'"
  by (auto simp: eth_transmit_def kres_simps Let_def split: prod.splits)

lemma net_mbufalloc_socks: "net_mbufalloc n h = (r, n') \<Longrightarrow> same_socks n n'"
  by (auto simp: net_mbufalloc_def split: prod.splits)

lemma eth_send_arp_socks: "eth_send n m ETH_TYPE_ARP dip = Ret n' \<Longrightarrow> same_socks n n'"
  by (auto simp: kres_simps Let_def dest!: eth_transmit_socks split: prod.splits option.splits)

lemma arp_send_socks: "arp_send n op dmac dip = Ret (r, n') \<Longrightarrow> same_socks n n'"
  by (auto simp: kres_simps Let_def simp del: eth_send.simps
      dest!: net_mbufalloc_socks eth_send_arp_socks split: prod.splits option.splits intro: same_socks_trans)

lemma eth_send_socks: "eth_send n m t dip = Ret n' \<Longrightarrow> same_socks n n'"
  by (auto simp: kres_simps Let_def simp del: arp_send.simps
      dest!: eth_transmit_socks arp_send_socks split: prod.splits option.splits if_splits)

subsection \<open>ARP requests are answered\<close>

definition arp_pkt :: "u16 \<Rightarrow> u8 list \<Rightarrow> u32 \<Rightarrow> u8 list \<Rightarrow> u32 \<Rightarrow> u8 list" where
  "arp_pkt op sha sip tha tip =
     be16 ARP_HRD_ETHER @ be16 ETH_TYPE_IP @ [6, 4] @ be16 op @ sha @ be32 sip @ tha @ be32 tip"

lemma arp_pkt_fields:
  assumes b: "bytes_at b off 28 = arp_pkt op sha sip tha tip" and l: "length sha = 6" "length tha = 6"
  shows "ntohs (load16 b off) = ARP_HRD_ETHER" "ntohs (load16 b (off + 2)) = ETH_TYPE_IP" "load8 b (off + 4) = 6"
    "load8 b (off + 5) = 4" "ntohs (load16 b (off + 6)) = op" "bytes_at b (off + 8) 6 = sha"
    "ntohl (load32 b (off + 14)) = sip" "ntohl (load32 b (off + 24)) = tip"
proof -
  have sub: "bytes_at b (off + k) j = take j (drop k (arp_pkt op sha sip tha tip))" if "k + j \<le> 28" for k j
    using bytes_at_sub [OF that, of b off] b by simp
  have nth: "b (off + i) = arp_pkt op sha sip tha tip ! i" if "i < 28" for i
    using that nth_bytes_at [OF that, of b off] b by simp
  show "ntohs (load16 b off) = ARP_HRD_ETHER"
    by (rule ntohs_load16) (use sub [of 0 2] in \<open>simp add: arp_pkt_def be16_def\<close>)
  show "ntohs (load16 b (off + 2)) = ETH_TYPE_IP" by (rule ntohs_load16) (simp only: sub, simp add: arp_pkt_def be16_def)
  show "load8 b (off + 4) = 6" "load8 b (off + 5) = 4"
    using nth [of 4] nth [of 5] by (simp_all add: load8_def arp_pkt_def be16_def)
  show "ntohs (load16 b (off + 6)) = op" by (rule ntohs_load16) (simp only: sub, simp add: arp_pkt_def be16_def)
  show "bytes_at b (off + 8) 6 = sha" using sub [of 8 6] l by (simp add: arp_pkt_def be16_def)
  show "ntohl (load32 b (off + 14)) = sip"
    by (rule ntohl_load32) (simp only: sub, simp add: arp_pkt_def be16_def be32_def l)
  show "ntohl (load32 b (off + 24)) = tip"
    by (rule ntohl_load32) (simp only: sub, simp add: arp_pkt_def be16_def be32_def l)
qed

lemma arp_send_frame:
  assumes A: "arp_models (nt_arp n) A" and d: "length dmac = 6"
    and dst: "dst = (case A dip of Some mac \<Rightarrow> mac | None \<Rightarrow> broadcast_mac)" "length dst = 6"
  shows "\<exists>at mb'. arp_send n op dmac dip =
       kbind (handed (n\<lparr>nt_ms := snd (mbufalloc (nt_ms n) MBUF_DEFAULT_HEADROOM), nt_arp := at\<rparr>) (ms_brk (nt_ms n)) mb')
         (\<lambda>n3. Ret (0, n3)) \<and>
     mbuf_data mb' = dst @ local_mac @ be16 ETH_TYPE_ARP @ arp_pkt op local_mac local_ip dmac dip \<and> arp_models at A"
proof -
  let ?m = "ms_brk (nt_ms n)" and ?n1 = "n\<lparr>nt_ms := snd (mbufalloc (nt_ms n) MBUF_DEFAULT_HEADROOM)\<rparr>"
  let ?z = "mbuf_zero MBUF_DEFAULT_HEADROOM"
  define mb2 where "mb2 = ?z\<lparr>mb_len := 28, mb_buf := arp_header (mb_buf ?z) 128 op dmac dip\<rparr>"
  have al: "net_mbufalloc n MBUF_DEFAULT_HEADROOM = (Some ?m, ?n1)" "get_mbuf ?n1 ?m = Ret ?z"
    by (simp_all add: net_mbufalloc_def mbufalloc_def MBUF_DEFAULT_HEADROOM_def MBUF_SIZE_def get_mbuf_def nt_heap_def)
  have put: "mbufput ?z 28 = Ret (128, ?z\<lparr>mb_len := 28\<rparr>)"
    by (simp add: mbufput_def mbuf_zero_def MBUF_DEFAULT_HEADROOM_def MBUF_SIZE_def)
  have data: "mbuf_data mb2 = arp_pkt op local_mac local_ip dmac dip"
    using arp_header_bytes [OF d, of "mb_buf ?z" 128 op dip]
    by (simp add: mbuf_data_def mb2_def arp_pkt_def mbuf_zero_def MBUF_DEFAULT_HEADROOM_def)
  have ok: "14 \<le> mb_head mb2" "mbuf_ok mb2"
    by (simp_all add: mb2_def mbuf_zero_def MBUF_DEFAULT_HEADROOM_def mbuf_ok_def MBUF_SIZE_def)
  let ?n2 = "put_mbuf ?n1 ?m mb2"
  have s: "arp_send n op dmac dip = kbind (eth_send ?n2 ?m ETH_TYPE_ARP dip) (\<lambda>n3. Ret (0, n3))"
    unfolding arp_send.simps by (simp add: al put mb2_def del: eth_send.simps)
  have A2: "arp_models (nt_arp ?n2) A" using A by (simp add: put_mbuf_def set_heap_def)
  then obtain at where at: "arptable_get_mac (nt_arp ?n2) dip = Ret (A dip, at)" "arp_models at A"
    using arptab.get_models by blast
  have e: "eth_send ?n2 ?m ETH_TYPE_ARP dip = eth_transmit (?n2\<lparr>nt_arp := at\<rparr>) ?m ETH_TYPE_ARP dst"
    using at(1) dst(1) by (simp split: option.splits)
  obtain mb' where mb': "eth_transmit (?n2\<lparr>nt_arp := at\<rparr>) ?m ETH_TYPE_ARP dst = handed (?n2\<lparr>nt_arp := at\<rparr>) ?m mb'"
    "mbuf_data mb' = dst @ local_mac @ be16 ETH_TYPE_ARP @ mbuf_data mb2"
    using eth_transmit_frame [of "?n2\<lparr>nt_arp := at\<rparr>" ?m mb2 dst ETH_TYPE_ARP] ok dst(2) by auto
  have "handed (?n2\<lparr>nt_arp := at\<rparr>) ?m mb' = handed (?n1\<lparr>nt_arp := at\<rparr>) ?m mb'"
    by (simp add: handed_def put_mbuf_def set_heap_def nt_heap_def)
  then show ?thesis using s e mb' at(2) data by (intro exI [of _ at] exI [of _ mb']) simp
qed

lemma arp_flush_none:
  "mpath (nt_heap n) now xs \<Longrightarrow> (\<And>x mb. x \<in> set xs \<Longrightarrow> nt_heap n x = Some mb \<Longrightarrow> mb_raddr mb \<noteq> sip) \<Longrightarrow> length xs < fuel \<Longrightarrow>
   arp_flush fuel n sip prev now = Ret n"
proof (induction xs arbitrary: fuel prev now)
  case Nil
  then show ?case by (cases fuel) auto
next
  case (Cons x xs)
  then obtain f mb where "fuel = Suc f" "now = Some x" "nt_heap n x = Some mb" "mpath (nt_heap n) (mb_next mb) xs"
    by (cases fuel) (auto split: option.splits)
  moreover have "mb_raddr mb \<noteq> sip" using Cons.prems(2) [of x mb] \<open>nt_heap n x = Some mb\<close> by simp
  moreover have "arp_flush f n sip (Some x) (mb_next mb) = Ret n"
    by (rule Cons.IH) (use calculation Cons.prems in auto)
  ultimately show ?case by (simp add: get_mbuf_def del: eth_send.simps)
qed

lemma mbufq_rep_length:
  assumes "mbufq_rep h q xs" "\<forall>x\<in>set xs. x < k"
  shows "length xs \<le> k"
proof -
  have "card (set xs) \<le> card {..<k}" using assms(2) by (intro card_mono) auto
  then show ?thesis using assms(1) by (simp add: mbufq_rep_def distinct_card)
qed

subsection \<open>Properties\<close>

text \<open>C20: an ARP request for the local address is answered: the sender's address pair enters the ARP cache,
  and the frame handed to the network device is addressed to the sender and carries an ARP reply whose
  sender is the local address pair and whose target is the requester. (The packets waiting in
  \<^verbatim>\<open>arp_q\<close> are for other hosts.)\<close>

theorem arp_request_answered:
  assumes A: "arp_models (nt_arp n) A"
    and mb: "nt_heap n m = Some mb" "mbuf_ok mb"
    and pkt: "mbuf_data mb = arp_pkt ARP_OP_REQUEST smac sip tmac local_ip @ pad"
    and l: "length smac = 6" "length tmac = 6"
    and q: "mbufq_rep (nt_heap n) (nt_arpq n) xs"
      "\<forall>x\<in>set xs. x < ms_brk (nt_ms n) \<and> x \<noteq> m \<and> map_option mb_raddr (nt_heap n x) \<noteq> Some sip"
  shows "\<exists>n1 mb'. arp_recv n m = handed n1 (ms_brk (nt_ms n)) mb' \<and>
     mbuf_data mb' = smac @ local_mac @ be16 ETH_TYPE_ARP @ arp_pkt ARP_OP_REPLY local_mac local_ip smac sip \<and>
     arp_models (nt_arp n1) (A(sip \<mapsto> smac))"
proof -
  have lp: "length (arp_pkt ARP_OP_REQUEST smac sip tmac local_ip) = 28"
    by (simp add: arp_pkt_def l be16_def be32_def)
  have "length (mbuf_data mb) = unat (mb_len mb)" by (simp add: mbuf_data_def)
  with pkt lp have len: "28 \<le> unat (mb_len mb)" by simp
  define mb1 where "mb1 = mb\<lparr>mb_len := mb_len mb - 28, mb_head := mb_head mb + 28\<rparr>"
  have pull: "mbufpull mb 28 = (Some (mb_head mb), mb1)"
    using len by (simp add: mbufpull_def mb1_def word_less_nat_alt)
  have b: "bytes_at (mb_buf mb1) (mb_head mb) 28 = arp_pkt ARP_OP_REQUEST smac sip tmac local_ip"
    using bytes_at_sub [of 0 28 "unat (mb_len mb)" "mb_buf mb" "mb_head mb"] pkt len lp
    by (simp add: mb1_def mbuf_data_def)
  note flds = arp_pkt_fields [OF b l]
  define n1 where "n1 = put_mbuf n m mb1"
  obtain at where at: "arptable_add (nt_arp n1) sip smac = Ret at" "arp_models at (A(sip \<mapsto> smac))"
    using arptab.add_models [of "nt_arp n1" A] A by (auto simp: n1_def put_mbuf_def set_heap_def)
  define n2 where "n2 = n1\<lparr>nt_arp := at\<rparr>"
  have h2: "nt_heap n2 = (nt_heap n)(m \<mapsto> mb1)" "nt_arpq n2 = nt_arpq n" "ms_brk (nt_ms n2) = ms_brk (nt_ms n)"
    by (simp_all add: n2_def n1_def put_mbuf_def set_heap_def nt_heap_def)
  have "mpath (nt_heap n2) (q_head (nt_arpq n2)) xs" using q by (auto simp: h2 mbufq_rep_def)
  then have fl: "arp_flush (Suc (ms_brk (nt_ms n2))) n2 sip None (q_head (nt_arpq n2)) = Ret n2"
    by (rule arp_flush_none) (use q mbufq_rep_length [OF q(1)] in \<open>auto simp: h2 less_Suc_eq_le\<close>)
  have fl1: "arp_flush (Suc (ms_brk (nt_ms n1))) n2 sip None (q_head (nt_arpq n1)) = Ret n2"
    using fl by (simp add: n2_def del: arp_flush.simps)
  obtain at' mb' where s: "arp_send n2 ARP_OP_REPLY smac sip =
       kbind (handed (n2\<lparr>nt_ms := snd (mbufalloc (nt_ms n2) MBUF_DEFAULT_HEADROOM), nt_arp := at'\<rparr>) (ms_brk (nt_ms n2)) mb')
         (\<lambda>n3. Ret (0, n3))"
      "mbuf_data mb' = smac @ local_mac @ be16 ETH_TYPE_ARP @ arp_pkt ARP_OP_REPLY local_mac local_ip smac sip"
      "arp_models at' (A(sip \<mapsto> smac))"
    using arp_send_frame [of n2 "A(sip \<mapsto> smac)" smac smac sip ARP_OP_REPLY] at(2) l by (auto simp: n2_def)
  have g: "get_mbuf n m = Ret mb" "get_mbuf n2 m = Ret mb1" using mb by (simp_all add: get_mbuf_def h2)
  have "arp_recv n m = handed (n2\<lparr>nt_ms := snd (mbufalloc (nt_ms n2) MBUF_DEFAULT_HEADROOM), nt_arp := at'\<rparr>) (ms_brk (nt_ms n)) mb'"
    unfolding arp_recv_def
    by (simp add: pull Let_def flds ETH_ADDR_LEN_def at(1) n1_def [symmetric] n2_def [symmetric] fl1 g s(1) h2(3)
        kbind_assoc
        del: add_2_eq_Suc' arp_flush.simps eth_send.simps arp_send.simps)
  then show ?thesis using s(2,3) by fastforce
qed

definition packet_of :: "u8 list \<Rightarrow> mbuf" where
  "packet_of bs = (mbuf_zero 128)\<lparr>mb_len := of_nat (length bs), mb_buf := store_list (\<lambda>_. 0) 128 bs\<rparr>"

definition packets_net :: "mheap \<Rightarrow> nat \<Rightarrow> mbufq \<Rightarrow> mbufq net" where
  "packets_net h k q = (net_init mock_init mock_transmit)\<lparr>nt_ms := \<lparr>ms_heap = h, ms_brk = k\<rparr>, nt_arpq := q\<rparr>"

lemma packet_of_data: "length bs \<le> 8064 \<Longrightarrow> mbuf_data (packet_of bs) = bs"
  by (simp add: packet_of_def mbuf_data_def mbuf_zero_def unat_of_nat)

lemma packet_of_ok: "length bs \<le> 8064 \<Longrightarrow> mbuf_ok (packet_of bs)"
  by (simp add: packet_of_def mbuf_ok_def mbuf_zero_def unat_of_nat MBUF_SIZE_def)

lemma arptab_empty_models: "arp_models arptab_empty Map.empty"
proof -
  have "arptable_init arptab_empty = arptab_empty"
    by (simp add: arptable_init_def arptab_empty_def fun_eq_iff)
  then show ?thesis using arptable_init_rep [of arptab_empty]
    by (auto simp: arp_models_def arp_abs_def intro!: exI [of _ "\<lambda>_. []"])
qed

theorem arp_request_answered_witness:
  "\<exists>n1 mb'. arp_recv (packets_net [0 \<mapsto> packet_of (arp_pkt ARP_OP_REQUEST [2, 0, 0, 0, 0, 1] 9 [0, 0, 0, 0, 0, 0] local_ip)] 1 empty_q) 0 =
       handed n1 (ms_brk (nt_ms (packets_net [0 \<mapsto> packet_of (arp_pkt ARP_OP_REQUEST [2, 0, 0, 0, 0, 1] 9 [0, 0, 0, 0, 0, 0] local_ip)] 1 empty_q))) mb' \<and>
     mbuf_data mb' = [2, 0, 0, 0, 0, 1] @ local_mac @ be16 ETH_TYPE_ARP @ arp_pkt ARP_OP_REPLY local_mac local_ip [2, 0, 0, 0, 0, 1] 9 \<and>
     arp_models (nt_arp n1) (Map.empty(9 \<mapsto> [2, 0, 0, 0, 0, 1]))"
  by (rule arp_request_answered [where tmac = "[0, 0, 0, 0, 0, 0]" and pad = "[]" and xs = "[]"
        and mb = "packet_of (arp_pkt ARP_OP_REQUEST [2, 0, 0, 0, 0, 1] 9 [0, 0, 0, 0, 0, 0] local_ip)"])
    (simp_all add: packets_net_def net_init_def nt_heap_def packet_of_data packet_of_ok arp_pkt_def be16_def be32_def
      arptab_empty_models mbufq_rep_def empty_q_def mbufq_init_def)

definition stale_net :: "mbufq net" where
  "stale_net = packets_net
     [0 \<mapsto> (packet_of [])\<lparr>mb_raddr := 7, mb_next := Some 1\<rparr>, 1 \<mapsto> (packet_of [])\<lparr>mb_raddr := 9\<rparr>,
      2 \<mapsto> packet_of (arp_pkt ARP_OP_REPLY [2, 0, 0, 0, 0, 1] 9 local_mac local_ip), 3 \<mapsto> packet_of []]
     4 \<lparr>q_head = Some 0, q_tail = Some 1\<rparr>"

text \<open>when the packet an ARP reply releases is the last of \<^verbatim>\<open>arp_q\<close>, \<^verbatim>\<open>arp_recv\<close> unlinks it and leaves
  the queue's tail on it: the next packet to wait for an address is linked behind the released packet and
  is not in the queue any more.\<close>

theorem arp_q_tail_stale:
  "(case arp_recv stale_net 2 of
      Ret n \<Rightarrow> q_tail (nt_arpq n) = Some 1 \<and>
        (case mbufq_pushtail (nt_heap n) (nt_arpq n) 3 of
           Ret (h, q) \<Rightarrow> q_head q = Some 0 \<and> map_option mb_next (h 0) = Some None
         | _ \<Rightarrow> False)
    | _ \<Rightarrow> False)"
  by code_simp

end
