(* ===== verification/Ipv4.thy ===== *)
theory Ipv4
  imports Ethernet
begin

text \<open>
  The IP layer: sending (kernel/net/ipv4.c, \<^verbatim>\<open>ip_send\<close>) and the checks that \<^verbatim>\<open>ip_recv\<close> makes on a
  header. \<^verbatim>\<open>struct ipv4\<close>: vhl 0, tos 1, len 2, id 4, off 6, ttl 8, p 9, sum 10, src 12, dst 16;
  20 bytes.
\<close>

definition IPPROTO_TCP :: u8 where "IPPROTO_TCP = 6"
definition IPPROTO_UDP :: u8 where "IPPROTO_UDP = 17"

definition IP_GET_OFF :: "u16 \<Rightarrow> u16" where "IP_GET_OFF off = off AND 0x1fff"

definition ip_vhl :: u8 where "ip_vhl = push_bit 4 4 OR drop_bit 2 20"

text \<open>The fields of the header before the checksum is filled in, and the whole header.\<close>

definition ip_fields :: "bytes \<Rightarrow> nat \<Rightarrow> u8 \<Rightarrow> u32 \<Rightarrow> u32 \<Rightarrow> bytes" where
  "ip_fields b off proto dip len =
     (let b1 = fill_bytes 20 0 b off;
          b2 = store8 b1 off ip_vhl;
          b3 = store8 b2 (off + 9) proto;
          b4 = store32 b3 (off + 12) (htonl local_ip);
          b5 = store32 b4 (off + 16) (htonl dip);
          b6 = store16 b5 (off + 2) (htons (ucast len))
      in store8 b6 (off + 8) 100)"

definition ip_header :: "bytes \<Rightarrow> nat \<Rightarrow> u8 \<Rightarrow> u32 \<Rightarrow> u32 \<Rightarrow> bytes" where
  "ip_header b off proto dip len =
     (let b7 = ip_fields b off proto dip len
      in store16 b7 (off + 10) (htons (cksum16 b7 off 20 0)))"

definition ip_send :: "'d net \<Rightarrow> nat \<Rightarrow> u8 \<Rightarrow> u32 \<Rightarrow> 'd net kres" where
  "ip_send n m proto dip =
     kbind (get_mbuf n m) (\<lambda>mb.
     kbind (mbufpush (mb\<lparr>mb_raddr := dip\<rparr>) 20) (\<lambda>(off, mb1).
     let mb2 = mb1\<lparr>mb_buf := ip_header (mb_buf mb1) off proto dip (mb_len mb1)\<rparr> in
     eth_send (put_mbuf n m mb2) m ETH_TYPE_IP dip))"

text \<open>The tests of \<^verbatim>\<open>ip_recv\<close> on the header at \<open>off\<close>, in their order.\<close>

definition ip_accepts :: "bytes \<Rightarrow> nat \<Rightarrow> bool" where
  "ip_accepts b off \<longleftrightarrow>
     load8 b off = ip_vhl \<and> cksum16 b off 20 0 = 0 \<and>
     IP_GET_OFF (htons (load16 b (off + 6))) = 0 \<and> htonl (load32 b (off + 16)) = local_ip"

subsection \<open>The header as a byte string\<close>

lemma ip_header_bytes:
  "\<exists>csum. bytes_at (ip_header b off proto dip len) off 20 =
     [ip_vhl, 0] @ be16 (ucast len) @ [0, 0, 0, 0, 100, proto] @ be16 csum @ be32 local_ip @ be32 dip"
proof -
  let ?m = "ip_header b off proto dip len"
  define csum where "csum = cksum16 (ip_fields b off proto dip len) off 20 0"
  note defs = ip_header_def ip_fields_def Let_def mem_simps
  have split: "bytes_at ?m off (1 + (1 + (2 + (1 + (1 + (1 + (1 + (1 + (1 + (2 + (4 + 4))))))))))) =
      bytes_at ?m off 1 @ bytes_at ?m (off + 1) 1 @ bytes_at ?m (off + 2) 2 @ bytes_at ?m (off + 4) 1 @
      bytes_at ?m (off + 5) 1 @ bytes_at ?m (off + 6) 1 @ bytes_at ?m (off + 7) 1 @ bytes_at ?m (off + 8) 1 @
      bytes_at ?m (off + 9) 1 @ bytes_at ?m (off + 10) 2 @ bytes_at ?m (off + 12) 4 @ bytes_at ?m (off + 16) 4"
    by (simp only: bytes_at_add add.assoc) (simp add: eval_nat_numeral)
  have "bytes_at ?m (off + 2) 2 = be16 (ucast len)"
    using bytes_at_htons [of "store32 (store32 (store8 (store8 (fill_bytes 20 0 b off) off ip_vhl)
      (off + 9) proto) (off + 12) (htonl local_ip)) (off + 16) (htonl dip)" "off + 2" "ucast len"]
    by (simp add: defs del: bytes_at_htons)
  moreover have "bytes_at ?m (off + 10) 2 = be16 csum" by (simp add: ip_header_def Let_def csum_def)
  moreover have "bytes_at ?m (off + 12) 4 = be32 local_ip" "bytes_at ?m (off + 16) 4 = be32 dip"
    by (simp_all add: defs)
  moreover have "bytes_at ?m off 1 = [ip_vhl]" "bytes_at ?m (off + 8) 1 = [100]" "bytes_at ?m (off + 9) 1 = [proto]"
    "bytes_at ?m (off + 1) 1 = [0]" "bytes_at ?m (off + 4) 1 = [0]" "bytes_at ?m (off + 5) 1 = [0]"
    "bytes_at ?m (off + 6) 1 = [0]" "bytes_at ?m (off + 7) 1 = [0]"
    by (simp_all add: defs bytes_at_Suc store8_def)
  ultimately show ?thesis using split by (intro exI [of _ csum]) simp
qed

lemma ip_header_frame: "off + 20 \<le> a \<Longrightarrow> bytes_at (ip_header b off proto dip len) a k = bytes_at b a k"
  by (simp add: ip_header_def ip_fields_def Let_def mem_simps)

text \<open>The checksum written by \<^verbatim>\<open>ip_send\<close> makes the header sum to zero.\<close>

lemma ip_header_cksum: "cksum16 (ip_header b off proto dip len) off 20 0 = 0"
proof -
  let ?b = "ip_fields b off proto dip len"
  have z: "?b (off + 10) = 0" "?b (off + 10 + 1) = 0"
    by (simp_all add: ip_fields_def Let_def mem_simps)
  have "cksum16 (store16 ?b (off + 10) (htons (cksum16 ?b off 20 0))) off 20 0 = 0"
    by (rule cksum16_insert) (use z in simp_all)
  then show ?thesis by (simp only: ip_header_def Let_def)
qed

subsection \<open>Sending and accepting\<close>

text \<open>
  A well-formed header from \<open>src\<close> to \<open>dip\<close>: the fields of RFC 791 in network byte order, with a
  checksum under which the header sums to zero.
\<close>

definition ip_hdr_of :: "u16 \<Rightarrow> u8 \<Rightarrow> u32 \<Rightarrow> u32 \<Rightarrow> u8 list \<Rightarrow> bool" where
  "ip_hdr_of len proto src dip hdr \<longleftrightarrow>
     (\<exists>csum. hdr = [ip_vhl, 0] @ be16 len @ [0, 0, 0, 0, 100, proto] @ be16 csum @ be32 src @ be32 dip) \<and>
     cksum16 (\<lambda>i. hdr ! i) 0 20 0 = 0"

lemma ip_header_of: "ip_hdr_of (ucast len) proto local_ip dip (bytes_at (ip_header b off proto dip len) off 20)"
proof -
  have "cksum16 (\<lambda>i. bytes_at (ip_header b off proto dip len) off 20 ! i) 0 20 0
      = cksum16 (ip_header b off proto dip len) off 20 0"
    by (rule cksum16_shift) simp
  then show ?thesis using ip_header_bytes by (simp add: ip_hdr_of_def ip_header_cksum)
qed

lemma ip_hdr_of_length: "ip_hdr_of len proto src dip hdr \<Longrightarrow> length hdr = 20"
  by (auto simp: ip_hdr_of_def)

lemma ip_hdr_of_fields:
  assumes hdr: "ip_hdr_of len proto src dip hdr" and b: "bytes_at b off 20 = hdr"
  shows "load8 b off = ip_vhl" "cksum16 b off 20 0 = 0" "load16 b (off + 6) = 0"
    "ntohs (load16 b (off + 2)) = len" "load8 b (off + 9) = proto"
    "ntohl (load32 b (off + 12)) = src" "ntohl (load32 b (off + 16)) = dip"
proof -
  obtain csum where h: "hdr = [ip_vhl, 0] @ be16 len @ [0, 0, 0, 0, 100, proto] @ be16 csum @ be32 src @ be32 dip"
    using hdr by (auto simp: ip_hdr_of_def)
  have nth: "b (off + i) = hdr ! i" if "i < 20" for i using that b by auto
  have sub: "bytes_at b (off + k) j = take j (drop k hdr)" if "k + j \<le> 20" for k j
    using bytes_at_sub [OF that, of b off] b by simp
  have "cksum16 b off 20 0 = cksum16 (\<lambda>i. hdr ! i) 0 20 0" by (rule cksum16_shift) (simp add: nth)
  then show "cksum16 b off 20 0 = 0" using hdr by (simp add: ip_hdr_of_def)
  show "load8 b off = ip_vhl" "load8 b (off + 9) = proto" using nth [of 0] nth [of 9] by (simp_all add: load8_def h be16_def)
  show "load16 b (off + 6) = 0" using nth [of 6] nth [of 7] by (simp add: load16_def h be16_def add.commute)
  show "ntohs (load16 b (off + 2)) = len" by (rule ntohs_load16) (simp only: sub, simp add: h be16_def)
  show "ntohl (load32 b (off + 12)) = src" by (rule ntohl_load32) (simp only: sub, simp add: h be16_def be32_def)
  show "ntohl (load32 b (off + 16)) = dip" by (rule ntohl_load32) (simp only: sub, simp add: h be16_def be32_def)
qed

lemma ip_accepts_hdr:
  assumes "ip_hdr_of len proto src dip hdr" "bytes_at b off 20 = hdr"
  shows "ip_accepts b off \<longleftrightarrow> dip = local_ip"
  using ip_hdr_of_fields [OF assms] by (simp add: ip_accepts_def IP_GET_OFF_def bswaps_def)

lemma ip_send_frame:
  assumes A: "arp_models (nt_arp n) A" "A dip = Some mac" "length mac = 6"
    and m: "nt_heap n m = Some mb" "34 \<le> mb_head mb" "mbuf_ok mb"
  shows "\<exists>at hdr mb'. ip_send n m proto dip = handed (n\<lparr>nt_arp := at\<rparr>) m mb' \<and>
     mbuf_data mb' = mac @ local_mac @ be16 ETH_TYPE_IP @ hdr @ mbuf_data mb \<and>
     ip_hdr_of (ucast (mb_len mb + 20)) proto local_ip dip hdr \<and> arp_models at A \<and> mbuf_ok mb'"
proof -
  let ?off = "mb_head mb - 20"
  let ?mb = "mb\<lparr>mb_raddr := dip, mb_head := ?off, mb_len := mb_len mb + 20,
      mb_buf := ip_header (mb_buf mb) ?off proto dip (mb_len mb + 20)\<rparr>"
  let ?hdr = "bytes_at (mb_buf ?mb) ?off 20"
  have len: "unat (mb_len mb + 20) = 20 + unat (mb_len mb)"
    using m(3) by (subst unat_add_small) (auto simp: mbuf_ok_def MBUF_SIZE_def)
  have s: "ip_send n m proto dip = eth_send (put_mbuf n m ?mb) m ETH_TYPE_IP dip"
    using m(1,2) by (simp add: ip_send_def get_mbuf_def mbufpush_Ret del: eth_send.simps)
  have data: "mbuf_data ?mb = ?hdr @ mbuf_data mb"
    using m(2) by (simp add: mbuf_data_def len bytes_at_add ip_header_frame)
  have hd14: "14 \<le> mb_head ?mb" using m(2) by simp
  have ok: "mbuf_ok ?mb" using m(2,3) len by (simp add: mbuf_ok_def)
  have "arp_models (nt_arp (put_mbuf n m ?mb)) A" using A(1) by (simp add: put_mbuf_def set_heap_def)
  then obtain at where at: "eth_send (put_mbuf n m ?mb) m ETH_TYPE_IP dip =
      eth_transmit (put_mbuf n m ?mb\<lparr>nt_arp := at\<rparr>) m ETH_TYPE_IP mac" "arp_models at A"
    using eth_send_resolved A(2) by blast
  obtain mb' where mb': "eth_transmit (put_mbuf n m ?mb\<lparr>nt_arp := at\<rparr>) m ETH_TYPE_IP mac =
      handed (put_mbuf n m ?mb\<lparr>nt_arp := at\<rparr>) m mb'"
    "mbuf_data mb' = mac @ local_mac @ be16 ETH_TYPE_IP @ mbuf_data ?mb" "mbuf_ok mb'"
    using eth_transmit_frame [of "put_mbuf n m ?mb\<lparr>nt_arp := at\<rparr>" m ?mb mac ETH_TYPE_IP] ok hd14 A(3) by auto
  have "handed (put_mbuf n m ?mb\<lparr>nt_arp := at\<rparr>) m mb' = handed (n\<lparr>nt_arp := at\<rparr>) m mb'"
    by (simp add: handed_def put_mbuf_def set_heap_def nt_heap_def)
  then show ?thesis using s at mb' data ip_header_of by (intro exI [of _ at] exI [of _ ?hdr] exI [of _ mb']) simp
qed

lemma ip_send_socks: "ip_send n m proto dip = Ret n' \<Longrightarrow> same_socks n n'"
  by (auto simp: ip_send_def kres_simps Let_def simp del: eth_send.simps dest!: eth_send_socks
      intro: same_socks_trans split: prod.splits)

subsection \<open>Properties\<close>

text \<open>whatever the packet buffer held, \<^verbatim>\<open>ip_recv\<close>'s checks accept the header \<^verbatim>\<open>ip_send\<close> writes into it
  (version, header length, checksum and fragment offset) exactly when it is addressed to this host.\<close>

theorem ip_header_accepted: "ip_accepts (ip_header b off proto dip len) off \<longleftrightarrow> dip = local_ip"
  by (rule ip_accepts_hdr [OF ip_header_of]) simp

text \<open>A stack that knows the hardware address of one host.\<close>

definition arptab_one :: "u32 \<Rightarrow> u8 list \<Rightarrow> arptab" where
  "arptab_one ip mac = (case arptable_add arptab_empty ip mac of Ret t \<Rightarrow> t | _ \<Rightarrow> arptab_empty)"

lemma arptab_one_models: "arp_models (arptab_one ip mac) [ip \<mapsto> mac]"
  using arptab.add_models [OF arptab_empty_models, of ip mac] by (auto simp: arptab_one_def)

definition host_net :: "u32 \<Rightarrow> u8 list \<Rightarrow> mbuf \<Rightarrow> mbufq net" where
  "host_net ip mac mb = (packets_net [0 \<mapsto> mb] 1 empty_q)\<lparr>nt_arp := arptab_one ip mac\<rparr>"

lemma host_net_simps [simp]:
  "nt_arp (host_net ip mac mb) = arptab_one ip mac" "nt_heap (host_net ip mac mb) 0 = Some mb"
  "nt_ms (host_net ip mac mb) = \<lparr>ms_heap = [0 \<mapsto> mb], ms_brk = 1\<rparr>"
  by (simp_all add: host_net_def packets_net_def nt_heap_def)

end
