(* ===== verification/Udp.thy ===== *)
theory Udp
  imports Ipv4
begin

text \<open>
  UDP (kernel/net/udp.c). \<^verbatim>\<open>struct udp\<close>: sport 0, dport 2, ulen 4, sum 6; 8 bytes.
\<close>

subsection \<open>Operations\<close>

definition udp_header :: "bytes \<Rightarrow> nat \<Rightarrow> u16 \<Rightarrow> u16 \<Rightarrow> u32 \<Rightarrow> bytes" where
  "udp_header b off sport dport len =
     (let b1 = store16 b off (htons sport);
          b2 = store16 b1 (off + 2) (htons dport);
          b3 = store16 b2 (off + 4) (htons (ucast len))
      in store16 b3 (off + 6) 0)"

definition udp_send :: "'d net \<Rightarrow> nat \<Rightarrow> u32 \<Rightarrow> u16 \<Rightarrow> u16 \<Rightarrow> 'd net kres" where
  "udp_send n m dip sport dport =
     kbind (get_mbuf n m) (\<lambda>mb.
     kbind (mbufpush mb 8) (\<lambda>(off, mb1).
     let mb2 = mb1\<lparr>mb_buf := udp_header (mb_buf mb1) off sport dport (mb_len mb1)\<rparr> in
     ip_send (put_mbuf n m mb2) m IPPROTO_UDP dip))"

text \<open>\<open>ip\<close> is the offset of the IP header in the packet.\<close>

definition udp_recv :: "'d net \<Rightarrow> nat \<Rightarrow> u16 \<Rightarrow> nat \<Rightarrow> 'd net kres" where
  "udp_recv n m len ip =
     kbind (get_mbuf n m) (\<lambda>mb.
     case mbufpull mb 8 of
       (None, mb1) \<Rightarrow> Ret (put_mbuf n m mb1)
     | (Some off, mb1) \<Rightarrow>
         let b = mb_buf mb1; n1 = put_mbuf n m mb1 in
         if ntohs (load16 b (off + 4)) \<noteq> len then Ret n1
         else
           let len1 = len - 8 in
           if unat len1 > unat (mb_len mb1) then Ret n1
           else
             let mb2 = snd (mbuftrim mb1 (mb_len mb1 - ucast len1));
                 n2 = put_mbuf n m mb2;
                 raddr = ntohl (load32 b (ip + 12));
                 sport = ntohs (load16 b (off + 2));
                 dport = ntohs (load16 b off) in
             kbind (get_sock_cb n2 (nt_udp n2) sport raddr dport) (\<lambda>r.
             case r of
               None \<Rightarrow> Ret n2
             | Some p \<Rightarrow>
                 kbind (deref (nt_scbs n2) (Some p)) (\<lambda>scb.
                 let n3 = (if sb_raddr scb = 0 \<and> sb_dport scb = 0
                           then set_scb n2 p (scb\<lparr>sb_raddr := raddr, sb_dport := dport\<rparr>) else n2) in
                 push_to_scb_rxq n3 p m)))"

subsection \<open>The header as a byte string\<close>

definition udp_hdr :: "u16 \<Rightarrow> u16 \<Rightarrow> u16 \<Rightarrow> u8 list" where
  "udp_hdr sport dport len = be16 sport @ be16 dport @ be16 len @ [0, 0]"

lemma udp_header_bytes: "bytes_at (udp_header b off sport dport len) off 8 = udp_hdr sport dport (ucast len)"
proof -
  let ?m = "udp_header b off sport dport len"
  have split: "bytes_at ?m off (2 + (2 + (2 + (1 + 1)))) =
      bytes_at ?m off 2 @ bytes_at ?m (off + 2) 2 @ bytes_at ?m (off + 4) 2 @ bytes_at ?m (off + 6) 1 @ bytes_at ?m (off + 7) 1"
    by (simp only: bytes_at_add add.assoc) (simp add: eval_nat_numeral)
  note defs = udp_header_def Let_def mem_simps
  have "bytes_at ?m off 2 = be16 sport" by (simp add: defs)
  moreover have "bytes_at ?m (off + 2) 2 = be16 dport"
    using bytes_at_htons [of "store16 b off (htons sport)" "off + 2" dport] by (simp add: defs del: bytes_at_htons)
  moreover have "bytes_at ?m (off + 4) 2 = be16 (ucast len)" by (simp add: defs)
  moreover have "bytes_at ?m (off + 6) 1 = [0]" "bytes_at ?m (off + 7) 1 = [0]"
    by (simp_all add: udp_header_def Let_def bytes_at_Suc store16_def)
  ultimately show ?thesis using split by (simp add: udp_hdr_def)
qed

lemma udp_header_frame: "off + 8 \<le> a \<Longrightarrow> bytes_at (udp_header b off sport dport len) a k = bytes_at b a k"
  by (simp add: udp_header_def Let_def mem_simps)

lemma udp_hdr_fields:
  assumes "bytes_at b off 8 = udp_hdr sport dport len"
  shows "ntohs (load16 b off) = sport" "ntohs (load16 b (off + 2)) = dport" "ntohs (load16 b (off + 4)) = len"
proof -
  have sub: "bytes_at b (off + k) j = take j (drop k (udp_hdr sport dport len))" if "k + j \<le> 8" for k j
    using bytes_at_sub [OF that, of b off] assms by simp
  show "ntohs (load16 b off) = sport" by (rule ntohs_load16) (use sub [of 0 2] in \<open>simp add: udp_hdr_def be16_def\<close>)
  show "ntohs (load16 b (off + 2)) = dport" by (rule ntohs_load16) (simp only: sub, simp add: udp_hdr_def be16_def)
  show "ntohs (load16 b (off + 4)) = len" by (rule ntohs_load16) (simp only: sub, simp add: udp_hdr_def be16_def)
qed

subsection \<open>What is sent\<close>

lemma udp_send_frame:
  assumes A: "arp_models (nt_arp n) A" "A dip = Some mac" "length mac = 6"
    and m: "nt_heap n m = Some mb" "42 \<le> mb_head mb" "mbuf_ok mb"
  shows "\<exists>at hdr mb'. udp_send n m dip sport dport = handed (n\<lparr>nt_arp := at\<rparr>) m mb' \<and>
     mbuf_data mb' = mac @ local_mac @ be16 ETH_TYPE_IP @ hdr @ udp_hdr sport dport (ucast (mb_len mb + 8)) @ mbuf_data mb \<and>
     ip_hdr_of (ucast (mb_len mb + 28)) IPPROTO_UDP local_ip dip hdr \<and> arp_models at A \<and> mbuf_ok mb'"
proof -
  let ?off = "mb_head mb - 8"
  define mb2 where "mb2 = mb\<lparr>mb_head := ?off, mb_len := mb_len mb + 8,
      mb_buf := udp_header (mb_buf mb) ?off sport dport (mb_len mb + 8)\<rparr>"
  have len: "unat (mb_len mb + 8) = 8 + unat (mb_len mb)"
    using m(3) by (subst unat_add_small) (auto simp: mbuf_ok_def MBUF_SIZE_def)
  have s: "udp_send n m dip sport dport = ip_send (put_mbuf n m mb2) m IPPROTO_UDP dip"
    using m(1,2) by (simp add: udp_send_def get_mbuf_def mbufpush_Ret mb2_def)
  have data: "mbuf_data mb2 = udp_hdr sport dport (ucast (mb_len mb + 8)) @ mbuf_data mb"
    using m(2) by (simp add: mbuf_data_def len bytes_at_add udp_header_bytes udp_header_frame mb2_def)
  have ok: "34 \<le> mb_head mb2" "mbuf_ok mb2" "mb_len mb2 + 20 = mb_len mb + 28"
    using m(2,3) len by (simp_all add: mbuf_ok_def mb2_def)
  have "arp_models (nt_arp (put_mbuf n m mb2)) A" "nt_heap (put_mbuf n m mb2) m = Some mb2"
    using A(1) by (simp_all add: put_mbuf_def set_heap_def nt_heap_def)
  from ip_send_frame [OF this(1) A(2,3) this(2) ok(1,2)]
  obtain at hdr mb' where "ip_send (put_mbuf n m mb2) m IPPROTO_UDP dip = handed ((put_mbuf n m mb2)\<lparr>nt_arp := at\<rparr>) m mb'"
    "mbuf_data mb' = mac @ local_mac @ be16 ETH_TYPE_IP @ hdr @ mbuf_data mb2"
    "ip_hdr_of (ucast (mb_len mb2 + 20)) IPPROTO_UDP local_ip dip hdr" "arp_models at A" "mbuf_ok mb'" by blast
  moreover have "handed ((put_mbuf n m mb2)\<lparr>nt_arp := at\<rparr>) m mb' = handed (n\<lparr>nt_arp := at\<rparr>) m mb'"
    by (simp add: handed_def put_mbuf_def set_heap_def nt_heap_def)
  ultimately show ?thesis using s data ok(3) by (intro exI [of _ at] exI [of _ hdr] exI [of _ mb']) simp
qed

end
