(* ===== verification/Tcp.thy ===== *)
theory Tcp
  imports Ipv4
begin

text \<open>
  TCP (kernel/net/tcp.c and include/net/tcp.h): building and checking segments, the handlers for an
  arriving segment, and the user calls that send or close. The checks of an arriving segment
  (\<^verbatim>\<open>check_rst\<close>, \<^verbatim>\<open>check_ack\<close> and so on) work on the control block alone; the handlers compose them on
  the state of the stack. \<^verbatim>\<open>struct tcp\<close>: sport 0, dport 2, seq 4, ack 8, off 12, flg 13, wnd 14,
  sum 16, urg 18; 20 bytes.
\<close>

subsection \<open>Constants\<close>

definition TCP_FLG_FIN :: u8 where "TCP_FLG_FIN = 0x01"
definition TCP_FLG_SYN :: u8 where "TCP_FLG_SYN = 0x02"
definition TCP_FLG_RST :: u8 where "TCP_FLG_RST = 0x04"
definition TCP_FLG_PSH :: u8 where "TCP_FLG_PSH = 0x08"
definition TCP_FLG_ACK :: u8 where "TCP_FLG_ACK = 0x10"
definition TCP_FLG_URG :: u8 where "TCP_FLG_URG = 0x20"

definition TCP_OP_RETRANS :: int where "TCP_OP_RETRANS = - 4"
definition TCP_OP_CLOSE_SCB :: int where "TCP_OP_CLOSE_SCB = - 3"
definition TCP_OP_SND_RST :: int where "TCP_OP_SND_RST = - 2"
definition TCP_OP_ERR :: int where "TCP_OP_ERR = - 1"
definition TCP_OP_OK :: int where "TCP_OP_OK = 0"
definition TCP_OP_SND_ACK :: int where "TCP_OP_SND_ACK = 1"
definition TCP_OP_TXT_OK :: int where "TCP_OP_TXT_OK = 2"
definition TCP_OP_FREE_MBUF :: int where "TCP_OP_FREE_MBUF = 3"

lemmas tcp_ops = TCP_OP_RETRANS_def TCP_OP_CLOSE_SCB_def TCP_OP_SND_RST_def TCP_OP_ERR_def TCP_OP_OK_def
  TCP_OP_SND_ACK_def TCP_OP_TXT_OK_def TCP_OP_FREE_MBUF_def

lemmas tcp_flags = TCP_FLG_FIN_def TCP_FLG_SYN_def TCP_FLG_RST_def TCP_FLG_PSH_def TCP_FLG_ACK_def TCP_FLG_URG_def

definition TCP_HDR_LEN :: "u8 \<Rightarrow> u16" where
  "TCP_HDR_LEN off = push_bit 2 (drop_bit 4 (ucast off))"

definition TCP_DATA_LEN :: "u8 \<Rightarrow> u16 \<Rightarrow> u16" where
  "TCP_DATA_LEN off len = len - TCP_HDR_LEN off"

definition TCP_FLG_ISSET :: "u8 \<Rightarrow> u8 \<Rightarrow> bool" where
  "TCP_FLG_ISSET x y \<longleftrightarrow> (x AND 0x3f) AND y \<noteq> 0"

subsection \<open>Segments\<close>

definition tcp_checksum :: "u32 \<Rightarrow> u32 \<Rightarrow> u8 \<Rightarrow> bytes \<Rightarrow> nat \<Rightarrow> u16 \<Rightarrow> u16" where
  "tcp_checksum ip_src ip_dst ip_p b off len =
     (let pseudo = ucast (ntohs (ucast (drop_bit 16 ip_src AND 0xffff)))
                 + ucast (ntohs (ucast (ip_src AND 0xffff)))
                 + ucast (ntohs (ucast (drop_bit 16 ip_dst AND 0xffff)))
                 + ucast (ntohs (ucast (ip_dst AND 0xffff)))
                 + ucast ip_p + ucast len
      in cksum16 b off len pseudo)"

text \<open>The fields of a segment header, with the checksum field cleared.\<close>

definition tcp_fields :: "bytes \<Rightarrow> nat \<Rightarrow> u16 \<Rightarrow> u16 \<Rightarrow> u32 \<Rightarrow> u32 \<Rightarrow> u32 \<Rightarrow> u8 \<Rightarrow> bytes" where
  "tcp_fields b off sport dport sndnxt rcvnxt rcvwnd flg =
     (let b1 = store16 b off (htons sport);
          b2 = store16 b1 (off + 2) (htons dport);
          b3 = store32 b2 (off + 4) (htonl sndnxt);
          b4 = store32 b3 (off + 8) (if TCP_FLG_ISSET flg TCP_FLG_ACK then htonl rcvnxt else 0);
          b5 = store8 b4 (off + 12) (push_bit 4 (drop_bit 2 20));
          b6 = store8 b5 (off + 13) flg;
          b7 = store16 b6 (off + 14) (htons (ucast rcvwnd));
          b8 = store16 b7 (off + 18) 0
      in store16 b8 (off + 16) 0)"

definition tcp_header :: "bytes \<Rightarrow> nat \<Rightarrow> u32 \<Rightarrow> u16 \<Rightarrow> u16 \<Rightarrow> u32 \<Rightarrow> u32 \<Rightarrow> u32 \<Rightarrow> u8 \<Rightarrow> u16 \<Rightarrow> bytes" where
  "tcp_header b off raddr sport dport sndnxt rcvnxt rcvwnd flg payload_len =
     (let b1 = tcp_fields b off sport dport sndnxt rcvnxt rcvwnd flg
      in store16 b1 (off + 16)
           (htons (tcp_checksum (htonl local_ip) (htonl raddr) IPPROTO_TCP b1 off (payload_len + 20))))"

definition tcp_send_core ::
  "'d net \<Rightarrow> nat \<Rightarrow> u32 \<Rightarrow> u16 \<Rightarrow> u16 \<Rightarrow> u32 \<Rightarrow> u32 \<Rightarrow> u32 \<Rightarrow> u8 \<Rightarrow> u16 \<Rightarrow> 'd net kres" where
  "tcp_send_core n m raddr sport dport sndnxt rcvnxt rcvwnd flg payload_len =
     kbind (get_mbuf n m) (\<lambda>mb.
     kbind (mbufpush mb 20) (\<lambda>(off, mb1).
     let mb2 = mb1\<lparr>mb_buf := tcp_header (mb_buf mb1) off raddr sport dport sndnxt rcvnxt rcvwnd flg payload_len\<rparr> in
     ip_send (put_mbuf n m mb2) m IPPROTO_TCP raddr))"

text \<open>
  A segment without data: \<^verbatim>\<open>mbufalloc(ETH_MAX_SIZE)\<close> and \<^verbatim>\<open>tcp_send_core\<close> on the fresh packet, which
  is how every reply and every FIN is sent.
\<close>

definition tcp_reply :: "'d net \<Rightarrow> u32 \<Rightarrow> u16 \<Rightarrow> u16 \<Rightarrow> u32 \<Rightarrow> u32 \<Rightarrow> u32 \<Rightarrow> u8 \<Rightarrow> 'd net kres" where
  "tcp_reply n raddr sport dport sndnxt rcvnxt rcvwnd flg =
     (case net_mbufalloc n ETH_MAX_SIZE of
        (None, n1) \<Rightarrow> Fault
      | (Some m, n1) \<Rightarrow> tcp_send_core n1 m raddr sport dport sndnxt rcvnxt rcvwnd flg 0)"

text \<open>A reply from the connection's own numbers, as most callers send it.\<close>

definition scb_reply :: "'d net \<Rightarrow> sock_cb \<Rightarrow> u8 \<Rightarrow> 'd net kres" where
  "scb_reply n scb flg =
     tcp_reply n (sb_raddr scb) (sb_sport scb) (sb_dport scb) (snd_nxt_seq scb) (rcv_nxt_seq scb) (rcv_wnd scb) flg"

subsection \<open>Checks on an arriving segment\<close>

definition is_seq_valid :: "u32 \<Rightarrow> u32 \<Rightarrow> u32 \<Rightarrow> u16 \<Rightarrow> bool" where
  "is_seq_valid rcvwnd rcvnxt segseq seglen =
     (if rcvwnd = 0 then (seglen = 0 \<and> segseq = rcvnxt) \<and> seglen = 0
      else if seglen = 0 then rcvnxt \<le> segseq \<and> segseq < rcvnxt + rcvwnd
      else (rcvnxt \<le> segseq \<and> segseq < rcvnxt + rcvwnd) \<or>
           (rcvnxt \<le> segseq + ucast seglen - 1 \<and> segseq + ucast seglen - 1 < rcvnxt + rcvwnd))"

definition check_rst :: "sock_cb \<Rightarrow> u8 \<Rightarrow> int \<times> sock_cb" where
  "check_rst scb flg =
     (if TCP_FLG_ISSET flg TCP_FLG_RST then
        (case sb_state scb of
           SOCK_CB_SYN_RCVD \<Rightarrow> (TCP_OP_CLOSE_SCB, scb\<lparr>sb_state := SOCK_CB_LISTEN\<rparr>)
         | SOCK_CB_ESTAB \<Rightarrow> (TCP_OP_CLOSE_SCB, scb\<lparr>sb_state := SOCK_CB_CLOSED\<rparr>)
         | SOCK_CB_FIN_WAIT_1 \<Rightarrow> (TCP_OP_CLOSE_SCB, scb\<lparr>sb_state := SOCK_CB_CLOSED\<rparr>)
         | SOCK_CB_FIN_WAIT_2 \<Rightarrow> (TCP_OP_CLOSE_SCB, scb\<lparr>sb_state := SOCK_CB_CLOSED\<rparr>)
         | SOCK_CB_CLOSE_WAIT \<Rightarrow> (TCP_OP_CLOSE_SCB, scb\<lparr>sb_state := SOCK_CB_CLOSED\<rparr>)
         | SOCK_CB_CLOSING \<Rightarrow> (TCP_OP_CLOSE_SCB, scb\<lparr>sb_state := SOCK_CB_CLOSED\<rparr>)
         | SOCK_CB_LAST_ACK \<Rightarrow> (TCP_OP_CLOSE_SCB, scb\<lparr>sb_state := SOCK_CB_CLOSED\<rparr>)
         | SOCK_CB_TIME_WAIT \<Rightarrow> (TCP_OP_CLOSE_SCB, scb\<lparr>sb_state := SOCK_CB_CLOSED\<rparr>)
         | _ \<Rightarrow> (0, scb))
      else (0, scb))"

text \<open>The common case of \<^verbatim>\<open>check_ack\<close> in the synchronized states: window update, then state change.\<close>

definition check_ack_sync :: "sock_cb \<Rightarrow> u32 \<Rightarrow> u32 \<Rightarrow> u32 \<Rightarrow> int \<times> sock_cb" where
  "check_ack_sync scb ack seq sndwnd =
     (let is_valid_nxtack = snd_unack scb < ack \<and> ack \<le> snd_nxt_seq scb;
          is_old_ack = ack < snd_unack scb;
          is_future_ack = snd_nxt_seq scb < ack;
          scb1 = (if is_valid_nxtack then
                    let scb0 = scb\<lparr>snd_unack := ack\<rparr> in
                    if snd_wl1 scb0 < seq \<or> (snd_wl1 scb0 = seq \<and> snd_wl2 scb0 \<le> ack)
                    then scb0\<lparr>snd_wnd := sndwnd, snd_wl1 := seq, snd_wl2 := ack\<rparr> else scb0
                  else scb) in
      if \<not> is_valid_nxtack \<and> is_old_ack then (TCP_OP_ERR, scb)
      else if \<not> is_valid_nxtack \<and> is_future_ack then (TCP_OP_SND_ACK, scb)
      else
        let scb2 = (if sb_state scb1 = SOCK_CB_FIN_WAIT_1 then scb1\<lparr>sb_state := SOCK_CB_FIN_WAIT_2\<rparr> else scb1) in
        if sb_state scb2 = SOCK_CB_CLOSING then (TCP_OP_CLOSE_SCB, scb2\<lparr>sb_state := SOCK_CB_CLOSED\<rparr>)
        else (TCP_OP_OK, scb2))"

definition check_ack :: "sock_cb \<Rightarrow> u8 \<Rightarrow> u32 \<Rightarrow> u32 \<Rightarrow> u32 \<Rightarrow> int \<times> sock_cb" where
  "check_ack scb flg ack seq sndwnd =
     (if \<not> TCP_FLG_ISSET flg TCP_FLG_ACK then (TCP_OP_ERR, scb)
      else
        (case sb_state scb of
           SOCK_CB_SYN_RCVD \<Rightarrow>
             if snd_unack scb < ack \<and> ack \<le> snd_nxt_seq scb
             then (TCP_OP_OK, scb\<lparr>sb_state := SOCK_CB_ESTAB, sb_slock := False\<rparr>)
             else (TCP_OP_SND_RST, scb)
         | SOCK_CB_ESTAB \<Rightarrow> check_ack_sync scb ack seq sndwnd
         | SOCK_CB_FIN_WAIT_1 \<Rightarrow> check_ack_sync scb ack seq sndwnd
         | SOCK_CB_FIN_WAIT_2 \<Rightarrow> check_ack_sync scb ack seq sndwnd
         | SOCK_CB_CLOSE_WAIT \<Rightarrow> check_ack_sync scb ack seq sndwnd
         | SOCK_CB_CLOSING \<Rightarrow> check_ack_sync scb ack seq sndwnd
         | SOCK_CB_LAST_ACK \<Rightarrow> (TCP_OP_CLOSE_SCB, scb\<lparr>sb_state := SOCK_CB_CLOSED\<rparr>)
         | _ \<Rightarrow> (TCP_OP_OK, scb)))"

definition check_syn :: "sock_cb \<Rightarrow> u8 \<Rightarrow> int" where
  "check_syn scb flg =
     (if sb_state scb \<in> {SOCK_CB_SYN_RCVD, SOCK_CB_ESTAB, SOCK_CB_FIN_WAIT_1, SOCK_CB_FIN_WAIT_2,
           SOCK_CB_CLOSE_WAIT, SOCK_CB_CLOSING, SOCK_CB_LAST_ACK, SOCK_CB_TIME_WAIT} \<and>
         TCP_FLG_ISSET flg TCP_FLG_SYN
      then TCP_OP_SND_RST else TCP_OP_OK)"

definition check_text :: "sock_cb \<Rightarrow> u32 \<Rightarrow> u16 \<Rightarrow> int \<times> sock_cb" where
  "check_text scb seq datalen =
     (if sb_state scb \<in> {SOCK_CB_ESTAB, SOCK_CB_FIN_WAIT_1, SOCK_CB_FIN_WAIT_2} then
        if datalen > 0 \<and> rcv_nxt_seq scb = seq then
          if rcv_wnd scb > ucast datalen
          then (TCP_OP_TXT_OK, scb\<lparr>rcv_nxt_seq := rcv_nxt_seq scb + ucast datalen,
                                   rcv_wnd := rcv_wnd scb - ucast datalen\<rparr>)
          else (TCP_OP_RETRANS, scb)
        else (TCP_OP_OK, scb)
      else (TCP_OP_ERR, scb))"

definition check_fin :: "sock_cb \<Rightarrow> u8 \<Rightarrow> int \<times> sock_cb" where
  "check_fin scb flg =
     (if TCP_FLG_ISSET flg TCP_FLG_FIN then
        (case sb_state scb of
           SOCK_CB_SYN_RCVD \<Rightarrow>
             (TCP_OP_SND_ACK, scb\<lparr>rcv_nxt_seq := rcv_nxt_seq scb + 1, sb_state := SOCK_CB_CLOSE_WAIT\<rparr>)
         | SOCK_CB_ESTAB \<Rightarrow>
             (TCP_OP_SND_ACK, scb\<lparr>rcv_nxt_seq := rcv_nxt_seq scb + 1, sb_state := SOCK_CB_CLOSE_WAIT\<rparr>)
         | SOCK_CB_FIN_WAIT_1 \<Rightarrow> (TCP_OP_CLOSE_SCB, scb\<lparr>rcv_nxt_seq := rcv_nxt_seq scb + 1\<rparr>)
         | SOCK_CB_FIN_WAIT_2 \<Rightarrow> (TCP_OP_CLOSE_SCB, scb\<lparr>rcv_nxt_seq := rcv_nxt_seq scb + 1\<rparr>)
         | _ \<Rightarrow> (TCP_OP_ERR, scb))
      else (TCP_OP_OK, scb))"

subsection \<open>Handlers for an arriving segment\<close>

text \<open>The header fields of the segment that \<^verbatim>\<open>m->tcphdr\<close> points to.\<close>

record tcp_seg =
  ts_ack :: u32
  ts_seq :: u32
  ts_off :: u8
  ts_flg :: u8
  ts_wnd :: u16

definition read_seg :: "'d net \<Rightarrow> nat \<Rightarrow> tcp_seg kres" where
  "read_seg n m =
     kbind (get_mbuf n m) (\<lambda>mb.
     case mb_tcphdr mb of
       None \<Rightarrow> Fault
     | Some (hm, off) \<Rightarrow>
         kbind (get_mbuf n hm) (\<lambda>hb.
         let b = mb_buf hb in
         Ret \<lparr>ts_ack = ntohl (load32 b (off + 8)), ts_seq = ntohl (load32 b (off + 4)),
              ts_off = load8 b (off + 12), ts_flg = load8 b (off + 13), ts_wnd = load16 b (off + 14)\<rparr>))"

definition tcp_recv_listen :: "'d net \<Rightarrow> nat \<Rightarrow> nat \<Rightarrow> u32 \<Rightarrow> u16 \<Rightarrow> (int \<times> 'd net) kres" where
  "tcp_recv_listen n p m raddr dport =
     kbind (read_seg n m) (\<lambda>sg.
     kbind (deref (nt_scbs n) (Some p)) (\<lambda>scb.
     if TCP_FLG_ISSET (ts_flg sg) TCP_FLG_RST then Ret (- 1, n)
     else if TCP_FLG_ISSET (ts_flg sg) TCP_FLG_ACK then
       kbind (tcp_reply n raddr (sb_sport scb) dport (ts_ack sg) 0 (rcv_wnd scb) (TCP_FLG_RST OR TCP_FLG_ACK))
         (\<lambda>n1. Ret (- 1, n1))
     else if TCP_FLG_ISSET (ts_flg sg) TCP_FLG_SYN then
       let scb1 = scb\<lparr>sb_dport := dport, sb_raddr := raddr, rcv_wnd := SOCK_CB_DEFAULT_WND_SIZE,
                      rcv_init_seq := ts_seq sg, rcv_nxt_seq := ts_seq sg + 1,
                      snd_init_seq := 0, snd_nxt_seq := 1, snd_unack := 0\<rparr>;
           n1 = set_scb n p scb1 in
       kbind (tcp_reply n1 (sb_raddr scb1) (sb_sport scb1) (sb_dport scb1) (snd_init_seq scb1)
                (rcv_nxt_seq scb1) (rcv_wnd scb1) (TCP_FLG_SYN OR TCP_FLG_ACK)) (\<lambda>n2.
       kbind (deref (nt_scbs n2) (Some p)) (\<lambda>scb2.
       Ret (0, set_scb n2 p (scb2\<lparr>sb_state := SOCK_CB_SYN_RCVD\<rparr>))))
     else Ret (- 1, n)))"

definition tcp_recv_syn_sent :: "'d net \<Rightarrow> nat \<Rightarrow> nat \<Rightarrow> (int \<times> 'd net) kres" where
  "tcp_recv_syn_sent n p m =
     kbind (read_seg n m) (\<lambda>sg.
     kbind (deref (nt_scbs n) (Some p)) (\<lambda>scb.
     if TCP_FLG_ISSET (ts_flg sg) TCP_FLG_ACK \<and> (ts_ack sg \<le> snd_init_seq scb \<or> ts_ack sg > snd_nxt_seq scb) then
       kbind (scb_reply n scb (TCP_FLG_RST OR TCP_FLG_ACK)) (\<lambda>n1.
       kbind (deref (nt_scbs n1) (Some p)) (\<lambda>scb1.
       Ret (TCP_OP_ERR, set_scb n1 p (scb1\<lparr>snd_nxt_seq := snd_init_seq scb1 + 1\<rparr>))))
     else if TCP_FLG_ISSET (ts_flg sg) TCP_FLG_RST then Ret (TCP_OP_ERR, n)
     else if TCP_FLG_ISSET (ts_flg sg) TCP_FLG_SYN \<and> TCP_FLG_ISSET (ts_flg sg) TCP_FLG_ACK then
       let scb1 = scb\<lparr>rcv_nxt_seq := ts_seq sg + 1, rcv_init_seq := ts_seq sg, snd_unack := ts_ack sg\<rparr> in
       if snd_unack scb1 > snd_init_seq scb1 then
         let scb2 = scb1\<lparr>sb_state := SOCK_CB_ESTAB, sb_slock := False\<rparr> in
         kbind (scb_reply (set_scb n p scb2) scb2 TCP_FLG_ACK) (\<lambda>n1. Ret (TCP_OP_OK, n1))
       else
         let scb2 = scb1\<lparr>sb_state := SOCK_CB_SYN_RCVD\<rparr> in
         kbind (tcp_reply (set_scb n p scb2) (sb_raddr scb2) (sb_sport scb2) (sb_dport scb2) (snd_init_seq scb2)
                  (rcv_nxt_seq scb2) (rcv_wnd scb2) (TCP_FLG_SYN OR TCP_FLG_ACK)) (\<lambda>n1. Ret (TCP_OP_OK, n1))
     else Ret (TCP_OP_ERR, n)))"

text \<open>The last two steps of \<^verbatim>\<open>tcp_recv_core\<close>: the segment text and the FIN bit.\<close>

definition recv_text_fin :: "'d net \<Rightarrow> nat \<Rightarrow> nat \<Rightarrow> tcp_seg \<Rightarrow> u16 \<Rightarrow> sock_cb \<Rightarrow> (int \<times> 'd net) kres" where
  "recv_text_fin n p m sg datalen scb =
     (case check_text scb (ts_seq sg) datalen of (r, scb1) \<Rightarrow>
      let n1 = set_scb n p scb1 in
      if r = TCP_OP_ERR then Ret (TCP_OP_ERR, n1)
      else if r = TCP_OP_TXT_OK then
        kbind (get_mbuf n1 m) (\<lambda>mb.
        let n2 = put_mbuf n1 m (mb\<lparr>mb_len := ucast datalen, mb_params := (mb_params mb)\<lparr>prm_flg := ts_flg sg\<rparr>\<rparr>) in
        kbind (push_to_scb_rxq n2 p m) (\<lambda>n3.
        kbind (deref (nt_scbs n3) (Some p)) (\<lambda>scb3.
        kbind (scb_reply n3 scb3 TCP_FLG_ACK) (\<lambda>n4. Ret (TCP_OP_OK, n4)))))
      else
        (case check_fin scb1 (ts_flg sg) of (r2, scb2) \<Rightarrow>
         let n2 = set_scb n1 p scb2 in
         if r2 = TCP_OP_RETRANS then kbind (scb_reply n2 scb2 TCP_FLG_ACK) (\<lambda>n3. Ret (TCP_OP_OK, n3))
         else if r2 = TCP_OP_CLOSE_SCB then kbind (scb_reply n2 scb2 TCP_FLG_ACK) (\<lambda>n3. Ret (TCP_OP_CLOSE_SCB, n3))
         else if r2 = TCP_OP_SND_ACK then kbind (scb_reply n2 scb2 TCP_FLG_ACK) (\<lambda>n3. Ret (TCP_OP_ERR, n3))
         else Ret (TCP_OP_FREE_MBUF, n2)))"

definition tcp_recv_core :: "'d net \<Rightarrow> nat \<Rightarrow> nat \<Rightarrow> u16 \<Rightarrow> (int \<times> 'd net) kres" where
  "tcp_recv_core n p m len =
     kbind (read_seg n m) (\<lambda>sg.
     kbind (deref (nt_scbs n) (Some p)) (\<lambda>scb.
     let datalen = TCP_DATA_LEN (ts_off sg) len in
     if \<not> is_seq_valid (rcv_wnd scb) (rcv_nxt_seq scb) (ts_seq sg) datalen then
       (if \<not> TCP_FLG_ISSET (ts_flg sg) TCP_FLG_RST
        then kbind (scb_reply n scb TCP_FLG_ACK) (\<lambda>n1. Ret (TCP_OP_ERR, n1))
        else Ret (TCP_OP_ERR, n))
     else
       (case check_rst scb (ts_flg sg) of (r, scb1) \<Rightarrow>
        let n1 = set_scb n p scb1 in
        if r = TCP_OP_CLOSE_SCB then Ret (TCP_OP_CLOSE_SCB, n1)
        else if r = TCP_OP_ERR then Ret (TCP_OP_ERR, n1)
        else if check_syn scb1 (ts_flg sg) = TCP_OP_SND_RST then
          kbind (tcp_reply n1 (sb_raddr scb1) (sb_sport scb1) (sb_dport scb1) (ts_ack sg) (ts_seq sg)
                   (rcv_wnd scb1) TCP_FLG_RST) (\<lambda>n2. Ret (TCP_OP_CLOSE_SCB, n2))
        else
          (case check_ack scb1 (ts_flg sg) (ts_ack sg) (ts_seq sg) (ntohl (ucast (ts_wnd sg))) of (r2, scb2) \<Rightarrow>
           let n2 = set_scb n1 p scb2 in
           if r2 = TCP_OP_CLOSE_SCB then Ret (TCP_OP_CLOSE_SCB, n2)
           else if r2 = TCP_OP_SND_RST then kbind (scb_reply n2 scb2 TCP_FLG_RST) (\<lambda>n3. Ret (TCP_OP_ERR, n3))
           else if r2 = TCP_OP_ERR then Ret (TCP_OP_ERR, n2)
           else if r2 = TCP_OP_SND_ACK then kbind (scb_reply n2 scb2 TCP_FLG_ACK) (\<lambda>n3. Ret (TCP_OP_ERR, n3))
           else recv_text_fin n2 p m sg datalen scb2))))"

text \<open>\<open>ip\<close> is the offset of the IP header in the packet.\<close>

definition tcp_recv :: "'d net \<Rightarrow> nat \<Rightarrow> u16 \<Rightarrow> nat \<Rightarrow> 'd net kres" where
  "tcp_recv n m len ip =
     kbind (get_mbuf n m) (\<lambda>mb.
     case mbufpull mb 20 of
       (None, mb1) \<Rightarrow> Ret (put_mbuf n m mb1)
     | (Some off, mb1) \<Rightarrow>
         let mb2 = mb1\<lparr>mb_tcphdr := Some (m, off)\<rparr>; n1 = put_mbuf n m mb2; b = mb_buf mb2;
             raddr = ntohl (load32 b (ip + 12));
             sport = ntohs (load16 b (off + 2));
             dport = ntohs (load16 b off) in
         if tcp_checksum (load32 b (ip + 12)) (load32 b (ip + 16)) (load8 b (ip + 9)) b off len \<noteq> 0 then Ret n1
         else
           kbind (get_sock_cb n1 (nt_tcp n1) sport raddr dport) (\<lambda>r.
           case r of
             None \<Rightarrow> Ret n1
           | Some p \<Rightarrow>
               kbind (deref (nt_scbs n1) (Some p)) (\<lambda>scb.
               if sb_state scb \<noteq> SOCK_CB_LISTEN \<and> sb_state scb \<noteq> SOCK_CB_CLOSED \<and> sb_dport scb \<noteq> dport then Ret n1
               else
                 case sb_state scb of
                   SOCK_CB_CLOSED \<Rightarrow> Ret n1
                 | SOCK_CB_LISTEN \<Rightarrow> kbind (tcp_recv_listen n1 p m raddr dport) (\<lambda>(r, n2). Ret n2)
                 | SOCK_CB_SYN_SENT \<Rightarrow> kbind (tcp_recv_syn_sent n1 p m) (\<lambda>(r, n2). Ret n2)
                 | _ \<Rightarrow> kbind (tcp_recv_core n1 p m len) (\<lambda>(r, n2).
                        if r = TCP_OP_CLOSE_SCB then free_sock_cb n2 p else Ret n2))))"

subsection \<open>User calls\<close>

text \<open>
  A call that may wait for the connection. \<open>WDone r\<close> is a return; \<open>WSpin\<close> means that the caller has
  taken the sleep lock and polls it until the receive path releases it; \<open>WSleep\<close> means that the
  sleep lock is taken by someone else and the caller sleeps on it.
\<close>

datatype wait = WDone int | WSpin | WSleep

definition tcp_acquiresleep :: "'d net \<Rightarrow> nat \<Rightarrow> (wait \<times> 'd net) kres" where
  "tcp_acquiresleep n p =
     kbind (deref (nt_scbs n) (Some p)) (\<lambda>scb.
     if sb_state scb = SOCK_CB_ESTAB then Ret (WDone 0, n)
     else
       kbind (deref (ft_heap (nt_files n)) (sb_f scb)) (\<lambda>f.
       if f_nonblockable f then
         Ret (WDone (if sb_state scb = SOCK_CB_SYN_RCVD then 0 else - 1), n)
       else if sb_slock scb then Ret (WSleep, n)
       else Ret (WSpin, set_scb n p (scb\<lparr>sb_slock := True\<rparr>))))"

text \<open>One turn of the polling loop, with the \<^verbatim>\<open>killed\<close> flag of the process.\<close>

definition tcp_acquiresleep_poll :: "'d net \<Rightarrow> nat \<Rightarrow> bool \<Rightarrow> (wait \<times> 'd net) kres" where
  "tcp_acquiresleep_poll n p killed =
     kbind (deref (nt_scbs n) (Some p)) (\<lambda>scb.
     if killed then Ret (WDone (- 1), set_scb n p (scb\<lparr>sb_slock := False\<rparr>))
     else if \<not> sb_slock scb then Ret (WDone 0, n)
     else Ret (WSpin, n))"

definition tcp_listen :: "'d net \<Rightarrow> nat \<Rightarrow> (int \<times> 'd net) kres" where
  "tcp_listen n p =
     kbind (deref (nt_scbs n) (Some p)) (\<lambda>scb. Ret (0, set_scb n p (scb\<lparr>sb_state := SOCK_CB_LISTEN\<rparr>)))"

definition tcp_accept :: "'d net \<Rightarrow> nat \<Rightarrow> (wait \<times> 'd net) kres" where
  "tcp_accept n p = tcp_acquiresleep n p"

definition tcp_connect :: "'d net \<Rightarrow> nat \<Rightarrow> (wait \<times> 'd net) kres" where
  "tcp_connect n p =
     kbind (deref (nt_scbs n) (Some p)) (\<lambda>scb.
     if sb_socktype scb \<noteq> SOCK_TCP then Ret (WDone (- 1), n)
     else
       case net_mbufalloc n ETH_MAX_SIZE of
         (None, n1) \<Rightarrow> Fault
       | (Some m, n1) \<Rightarrow>
           let scb1 = scb\<lparr>rcv_wnd := SOCK_CB_DEFAULT_WND_SIZE\<rparr> in
           kbind (tcp_send_core (set_scb n1 p scb1) m (sb_raddr scb1) (sb_sport scb1) (sb_dport scb1)
                    (snd_nxt_seq scb1) (rcv_nxt_seq scb1) (rcv_wnd scb1) TCP_FLG_SYN 0) (\<lambda>n2.
           kbind (deref (nt_scbs n2) (Some p)) (\<lambda>scb2.
           tcp_acquiresleep
             (set_scb n2 p (scb2\<lparr>sb_state := SOCK_CB_SYN_SENT, snd_nxt_seq := snd_init_seq scb2 + 1\<rparr>)) p)))"

text \<open>The loop that empties the transmit queue.\<close>

fun tcp_send_loop :: "nat \<Rightarrow> 'd net \<Rightarrow> nat \<Rightarrow> 'd net kres" where
  "tcp_send_loop 0 n p = Diverge"
| "tcp_send_loop (Suc fuel) n p =
     kbind (pop_from_scb_txq n p) (\<lambda>(r, n1).
     case r of
       None \<Rightarrow> Ret n1
     | Some m \<Rightarrow>
         kbind (get_mbuf n1 m) (\<lambda>mb.
         kbind (deref (nt_scbs n1) (Some p)) (\<lambda>scb.
         let prm = mb_params mb in
         kbind (tcp_send_core n1 m (sb_raddr scb) (sb_sport scb) (sb_dport scb) (prm_sndnxt prm)
                  (rcv_nxt_seq scb) (rcv_wnd scb) (prm_flg prm) (prm_datalen prm)) (\<lambda>n2.
         kbind (deref (nt_scbs n2) (Some p)) (\<lambda>scb2.
         tcp_send_loop fuel (set_scb n2 p (scb2\<lparr>snd_nxt_seq := snd_nxt_seq scb2 + ucast (prm_datalen prm)\<rparr>)) p)))))"

definition queue_segment :: "'d net \<Rightarrow> nat \<Rightarrow> nat \<Rightarrow> sock_cb \<Rightarrow> u8 \<Rightarrow> 'd net kres" where
  "queue_segment n p m scb flg =
     kbind (get_mbuf n m) (\<lambda>mb. push_to_scb_txq n p m (snd_nxt_seq scb) flg (ucast (mb_len mb)))"

definition tcp_send :: "'d net \<Rightarrow> nat \<Rightarrow> nat \<Rightarrow> u8 \<Rightarrow> (int \<times> 'd net) kres" where
  "tcp_send n p m flg =
     kbind (deref (nt_scbs n) (Some p)) (\<lambda>scb.
     case sb_state scb of
       SOCK_CB_LISTEN \<Rightarrow>
         if sb_raddr scb \<noteq> 0 then
           let scb1 = scb\<lparr>snd_init_seq := 0\<rparr> in
           kbind (tcp_send_core (set_scb n p scb1) m (sb_raddr scb1) (sb_sport scb1) (sb_dport scb1)
                    (snd_init_seq scb1) (rcv_nxt_seq scb1) (rcv_wnd scb1) TCP_FLG_SYN 0) (\<lambda>n1.
           kbind (deref (nt_scbs n1) (Some p)) (\<lambda>scb2.
           Ret (0, set_scb n1 p (scb2\<lparr>sb_state := SOCK_CB_SYN_SENT, snd_unack := snd_init_seq scb2,
                                      snd_nxt_seq := snd_init_seq scb2 + 1\<rparr>))))
         else Ret (- 1, n)
     | SOCK_CB_SYN_SENT \<Rightarrow> kbind (queue_segment n p m scb flg) (\<lambda>n1. Ret (0, n1))
     | SOCK_CB_SYN_RCVD \<Rightarrow> kbind (queue_segment n p m scb flg) (\<lambda>n1. Ret (0, n1))
     | SOCK_CB_ESTAB \<Rightarrow>
         kbind (queue_segment n p m scb flg) (\<lambda>n1.
         kbind (tcp_send_loop (Suc (Suc (ms_brk (nt_ms n1)))) n1 p) (\<lambda>n2. Ret (0, n2)))
     | _ \<Rightarrow> Ret (- 1, n))"

text \<open>The result is 0 when the caller may free the control block at once, and -1 otherwise.\<close>

definition tcp_close :: "'d net \<Rightarrow> nat \<Rightarrow> (int \<times> 'd net) kres" where
  "tcp_close n p =
     kbind (deref (nt_scbs n) (Some p)) (\<lambda>scb.
     let fin = TCP_FLG_FIN OR TCP_FLG_ACK;
         finish = (\<lambda>st. kbind (scb_reply n scb fin) (\<lambda>n1.
           kbind (deref (nt_scbs n1) (Some p)) (\<lambda>scb1.
           Ret (- 1, set_scb n1 p (scb1\<lparr>snd_nxt_seq := snd_nxt_seq scb1 + 1, sb_state := st\<rparr>))))) in
     case sb_state scb of
       SOCK_CB_SYN_RCVD \<Rightarrow>
         if \<not> mbufq_empty (sb_txq scb) then finish SOCK_CB_FIN_WAIT_1
         else
           (case net_mbufalloc n ETH_MAX_SIZE of
              (None, n1) \<Rightarrow> Panic ''[tcp close] m is zero''
            | (Some m, n1) \<Rightarrow>
                kbind (get_mbuf n1 m) (\<lambda>mb.
                kbind (push_to_scb_txq n1 p m (snd_nxt_seq scb) fin (ucast (mb_len mb))) (\<lambda>n2. Ret (- 1, n2))))
     | SOCK_CB_ESTAB \<Rightarrow> finish SOCK_CB_FIN_WAIT_1
     | SOCK_CB_CLOSE_WAIT \<Rightarrow> finish SOCK_CB_LAST_ACK
     | _ \<Rightarrow> Ret (0, n))"

subsection \<open>Segments carry a correct checksum\<close>

lemma unat_u16_in_u32: "unat (ucast (x :: u16) :: u32) = unat x" and unat_u8_in_u32: "unat (ucast (y :: u8) :: u32) = unat y"
  by (simp_all add: unat_ucast_widen)

lemma unat_add_le: "unat (a + b :: u32) \<le> unat a + unat b"
  by (simp add: unat_word_ariths)

lemma pseudo_small:
  "unat (ucast (a :: u16) + ucast (b :: u16) + ucast (c :: u16) + ucast (d :: u16) + ucast (e :: u8) + ucast (f :: u16) :: u32)
     < 2 ^ 31"
proof -
  let ?w = "\<lambda>x :: u16. ucast x :: u32"
  have "unat (?w a + ?w b + ?w c + ?w d + ucast e + ?w f) \<le>
      unat (?w a) + unat (?w b) + unat (?w c) + unat (?w d) + unat (ucast e :: u32) + unat (?w f)"
    by (meson add_mono le_refl le_trans unat_add_le)
  also have "\<dots> < 2 ^ 31"
    using unat_less_u16 [of a] unat_less_u16 [of b] unat_less_u16 [of c] unat_less_u16 [of d] unat_less_u8 [of e] unat_less_u16 [of f]
    by (simp add: unat_u16_in_u32 unat_u8_in_u32)
  finally show ?thesis .
qed

lemma tcp_header_checksum:
  assumes "18 \<le> unat (payload_len + 20)"
  shows "tcp_checksum (htonl local_ip) (htonl raddr) IPPROTO_TCP
     (tcp_header b off raddr sport dport sndnxt rcvnxt rcvwnd flg payload_len) off (payload_len + 20) = 0"
proof -
  let ?b = "tcp_fields b off sport dport sndnxt rcvnxt rcvwnd flg"
  have z: "?b (off + 16) = 0" "?b (off + 16 + 1) = 0"
    by (simp_all add: tcp_fields_def Let_def store16_def)
  show ?thesis
    unfolding tcp_header_def tcp_checksum_def Let_def
    by (rule cksum16_insert) (use z assms pseudo_small in auto)
qed

definition tcp_hdr :: "u16 \<Rightarrow> u16 \<Rightarrow> u32 \<Rightarrow> u32 \<Rightarrow> u8 \<Rightarrow> u16 \<Rightarrow> u16 \<Rightarrow> u8 list" where
  "tcp_hdr sport dport seq ack flg wnd csum =
     be16 sport @ be16 dport @ be32 seq @ be32 ack @ [0x50, flg] @ be16 wnd @ be16 csum @ [0, 0]"

lemma htonl_0: "bswapl 0 = 0" by (simp add: bswapl_def)

lemma tcp_fields_ack:
  "(if c then htonl x else 0) = htonl (if c then x else 0)"
  by (simp add: htonl_0)

lemma tcp_header_bytes:
  "\<exists>csum. bytes_at (tcp_header b off raddr sport dport sndnxt rcvnxt rcvwnd flg payload_len) off 20 =
     tcp_hdr sport dport sndnxt (if TCP_FLG_ISSET flg TCP_FLG_ACK then rcvnxt else 0) flg (ucast rcvwnd) csum"
proof -
  let ?m = "tcp_header b off raddr sport dport sndnxt rcvnxt rcvwnd flg payload_len"
  define csum where "csum = tcp_checksum (htonl local_ip) (htonl raddr) IPPROTO_TCP
     (tcp_fields b off sport dport sndnxt rcvnxt rcvwnd flg) off (payload_len + 20)"
  note defs = tcp_header_def tcp_fields_def Let_def mem_simps tcp_fields_ack
  have split: "bytes_at ?m off (2 + (2 + (4 + (4 + (1 + (1 + (2 + (2 + (1 + 1))))))))) =
      bytes_at ?m off 2 @ bytes_at ?m (off + 2) 2 @ bytes_at ?m (off + 4) 4 @ bytes_at ?m (off + 8) 4 @
      bytes_at ?m (off + 12) 1 @ bytes_at ?m (off + 13) 1 @ bytes_at ?m (off + 14) 2 @ bytes_at ?m (off + 16) 2 @
      bytes_at ?m (off + 18) 1 @ bytes_at ?m (off + 19) 1"
    by (simp only: bytes_at_add add.assoc) (simp add: eval_nat_numeral)
  have "bytes_at ?m off 2 = be16 sport" by (simp add: defs)
  moreover have "bytes_at ?m (off + 2) 2 = be16 dport"
    using bytes_at_htons [of "store16 b off (htons sport)" "off + 2" dport] by (simp add: defs del: bytes_at_htons)
  moreover have "bytes_at ?m (off + 4) 4 = be32 sndnxt" by (simp add: defs)
  moreover have "bytes_at ?m (off + 8) 4 = be32 (if TCP_FLG_ISSET flg TCP_FLG_ACK then rcvnxt else 0)"
    unfolding tcp_header_def tcp_fields_def Let_def tcp_fields_ack by (simp add: mem_simps del: if_split)
  moreover have "bytes_at ?m (off + 12) 1 = [0x50]" "bytes_at ?m (off + 13) 1 = [flg]"
    by (simp_all add: defs bytes_at_Suc store8_def)
  moreover have "bytes_at ?m (off + 14) 2 = be16 (ucast rcvwnd)" by (simp add: defs)
  moreover have "bytes_at ?m (off + 16) 2 = be16 csum" by (simp add: tcp_header_def Let_def csum_def)
  moreover have "bytes_at ?m (off + 18) 1 = [0]" "bytes_at ?m (off + 19) 1 = [0]"
    by (simp_all add: tcp_header_def tcp_fields_def Let_def bytes_at_Suc store16_def)
  ultimately show ?thesis using split by (intro exI [of _ csum]) (simp add: tcp_hdr_def)
qed

lemma tcp_header_frame:
  "off + 20 \<le> a \<Longrightarrow> bytes_at (tcp_header b off raddr sport dport sndnxt rcvnxt rcvwnd flg payload_len) a k = bytes_at b a k"
  by (simp add: tcp_header_def tcp_fields_def Let_def mem_simps)

text \<open>
  \<open>tcp_segment_of\<close>: a segment from \<open>src\<close> to \<open>dst\<close>, as header and data, whose checksum under the
  pseudo header is right.
\<close>

definition tcp_segment_of :: "u32 \<Rightarrow> u32 \<Rightarrow> u16 \<Rightarrow> u16 \<Rightarrow> u32 \<Rightarrow> u32 \<Rightarrow> u8 \<Rightarrow> u16 \<Rightarrow> u8 list \<Rightarrow> u8 list \<Rightarrow> bool" where
  "tcp_segment_of src dst sport dport seq ack flg wnd payload seg \<longleftrightarrow>
     (\<exists>csum. seg = tcp_hdr sport dport seq ack flg wnd csum @ payload) \<and>
     tcp_checksum (htonl src) (htonl dst) IPPROTO_TCP (\<lambda>i. seg ! i) 0 (of_nat (length seg)) = 0"

lemma tcp_checksum_shift:
  "(\<And>i. i < unat len \<Longrightarrow> m (a + i) = m' (b + i)) \<Longrightarrow>
   tcp_checksum src dst pr m a len = tcp_checksum src dst pr m' b len"
  unfolding tcp_checksum_def Let_def by (rule cksum16_shift)

lemma length_tcp_hdr [simp]: "length (tcp_hdr sport dport seq ack flg wnd csum) = 20"
  by (simp add: tcp_hdr_def)

lemma tcp_send_core_frame:
  assumes A: "arp_models (nt_arp n) A" "A raddr = Some mac" "length mac = 6"
    and m: "nt_heap n m = Some mb" "54 \<le> mb_head mb" "mbuf_ok mb"
    and len: "unat payload_len = unat (mb_len mb)"
  shows "\<exists>at iphdr seg mb'. tcp_send_core n m raddr sport dport sndnxt rcvnxt rcvwnd flg payload_len
       = handed (n\<lparr>nt_arp := at\<rparr>) m mb' \<and>
     mbuf_data mb' = mac @ local_mac @ be16 ETH_TYPE_IP @ iphdr @ seg \<and>
     ip_hdr_of (ucast (mb_len mb + 40)) IPPROTO_TCP local_ip raddr iphdr \<and>
     tcp_segment_of local_ip raddr sport dport sndnxt (if TCP_FLG_ISSET flg TCP_FLG_ACK then rcvnxt else 0) flg (ucast rcvwnd)
       (mbuf_data mb) seg \<and> arp_models at A \<and> mbuf_ok mb'"
proof -
  let ?off = "mb_head mb - 20"
  define b where "b = tcp_header (mb_buf mb) ?off raddr sport dport sndnxt rcvnxt rcvwnd flg payload_len"
  define mb2 where "mb2 = mb\<lparr>mb_head := ?off, mb_len := mb_len mb + 20, mb_buf := b\<rparr>"
  have sz: "unat (mb_len mb) \<le> 8192 - 54" using m(2,3) by (simp add: mbuf_ok_def MBUF_SIZE_def)
  have len20: "unat (mb_len mb + 20) = 20 + unat (mb_len mb)" using sz by (subst unat_add_small) auto
  have plen: "unat (payload_len + 20) = 20 + unat (mb_len mb)" using sz len by (subst unat_add_small) auto
  have s: "tcp_send_core n m raddr sport dport sndnxt rcvnxt rcvwnd flg payload_len = ip_send (put_mbuf n m mb2) m IPPROTO_TCP raddr"
    using m(1,2) by (simp add: tcp_send_core_def get_mbuf_def mbufpush_Ret mb2_def b_def)
  obtain csum where csum: "bytes_at b ?off 20 =
      tcp_hdr sport dport sndnxt (if TCP_FLG_ISSET flg TCP_FLG_ACK then rcvnxt else 0) flg (ucast rcvwnd) csum"
    unfolding b_def using tcp_header_bytes by blast
  have data: "mbuf_data mb2 = bytes_at b ?off 20 @ mbuf_data mb"
    using m(2) by (simp add: mbuf_data_def len20 bytes_at_add tcp_header_frame mb2_def b_def)
  have nth: "mbuf_data mb2 ! i = b (?off + i)" if "i < unat (payload_len + 20)" for i
    using that plen by (simp add: mbuf_data_def mb2_def len20)
  have "tcp_checksum (htonl local_ip) (htonl raddr) IPPROTO_TCP (\<lambda>i. mbuf_data mb2 ! i) 0 (payload_len + 20)
      = tcp_checksum (htonl local_ip) (htonl raddr) IPPROTO_TCP b ?off (payload_len + 20)"
    by (rule tcp_checksum_shift) (simp add: nth)
  also have "\<dots> = 0" unfolding b_def by (rule tcp_header_checksum) (simp add: plen)
  finally have sum0: "tcp_checksum (htonl local_ip) (htonl raddr) IPPROTO_TCP (\<lambda>i. mbuf_data mb2 ! i) 0 (payload_len + 20) = 0" .
  have lseg: "of_nat (length (mbuf_data mb2)) = payload_len + 20"
  proof -
    have "length (mbuf_data mb2) = unat (payload_len + 20)" by (simp add: mbuf_data_def mb2_def len20 plen)
    then show ?thesis by simp
  qed
  have seg: "tcp_segment_of local_ip raddr sport dport sndnxt (if TCP_FLG_ISSET flg TCP_FLG_ACK then rcvnxt else 0) flg
      (ucast rcvwnd) (mbuf_data mb) (mbuf_data mb2)"
    unfolding tcp_segment_of_def lseg using data [unfolded csum] sum0 by blast
  have ok: "34 \<le> mb_head mb2" "mbuf_ok mb2" "mb_len mb2 + 20 = mb_len mb + 40"
    using m(2,3) len20 by (simp_all add: mbuf_ok_def mb2_def)
  have "arp_models (nt_arp (put_mbuf n m mb2)) A" "nt_heap (put_mbuf n m mb2) m = Some mb2"
    using A(1) by (simp_all add: put_mbuf_def set_heap_def nt_heap_def)
  from ip_send_frame [OF this(1) A(2,3) this(2) ok(1,2)]
  obtain at hdr mb' where "ip_send (put_mbuf n m mb2) m IPPROTO_TCP raddr = handed ((put_mbuf n m mb2)\<lparr>nt_arp := at\<rparr>) m mb'"
    "mbuf_data mb' = mac @ local_mac @ be16 ETH_TYPE_IP @ hdr @ mbuf_data mb2"
    "ip_hdr_of (ucast (mb_len mb2 + 20)) IPPROTO_TCP local_ip raddr hdr" "arp_models at A" "mbuf_ok mb'" by blast
  moreover have "handed ((put_mbuf n m mb2)\<lparr>nt_arp := at\<rparr>) m mb' = handed (n\<lparr>nt_arp := at\<rparr>) m mb'"
    by (simp add: handed_def put_mbuf_def set_heap_def nt_heap_def)
  ultimately show ?thesis using s seg ok(3) by (intro exI [of _ at] exI [of _ hdr] exI [of _ "mbuf_data mb2"] exI [of _ mb']) simp
qed

subsection \<open>The state machine\<close>

lemma tcp_send_core_socks:
  "tcp_send_core n m raddr sport dport sndnxt rcvnxt rcvwnd flg payload_len = Ret n' \<Longrightarrow> same_socks n n'"
  by (auto simp: tcp_send_core_def kres_simps Let_def dest!: ip_send_socks split: prod.splits)

lemma tcp_reply_socks: "tcp_reply n raddr sport dport sndnxt rcvnxt rcvwnd flg = Ret n' \<Longrightarrow> same_socks n n'"
  by (auto simp: tcp_reply_def dest!: net_mbufalloc_socks tcp_send_core_socks intro: same_socks_trans
      split: prod.splits option.splits)

lemma scb_reply_socks: "scb_reply n scb flg = Ret n' \<Longrightarrow> same_socks n n'"
  unfolding scb_reply_def by (rule tcp_reply_socks)

text \<open>The state changes an arriving segment can cause in a synchronized connection.\<close>

fun tcp_next :: "sock_cb_state \<Rightarrow> sock_cb_state set" where
  "tcp_next SOCK_CB_SYN_RCVD = {SOCK_CB_SYN_RCVD, SOCK_CB_LISTEN, SOCK_CB_ESTAB, SOCK_CB_CLOSE_WAIT}"
| "tcp_next SOCK_CB_ESTAB = {SOCK_CB_ESTAB, SOCK_CB_CLOSE_WAIT, SOCK_CB_CLOSED}"
| "tcp_next SOCK_CB_FIN_WAIT_1 = {SOCK_CB_FIN_WAIT_1, SOCK_CB_FIN_WAIT_2, SOCK_CB_CLOSED}"
| "tcp_next s = {s, SOCK_CB_CLOSED}"

text \<open>
  The invariant of a connection's counters: what is acknowledged has been sent, and the receive
  window never closes.
\<close>

definition tcp_ok :: "sock_cb \<Rightarrow> bool" where
  "tcp_ok s \<longleftrightarrow> snd_unack s \<le> snd_nxt_seq s \<and> 0 < rcv_wnd s"

lemma check_rst_ok: "check_rst s flg = (r, s') \<Longrightarrow> tcp_ok s \<Longrightarrow> tcp_ok s'"
  by (auto simp: check_rst_def tcp_ok_def split: if_splits sock_cb_state.splits)

lemma check_ack_ok: "check_ack s flg ack seq w = (r, s') \<Longrightarrow> tcp_ok s \<Longrightarrow> tcp_ok s'"
  by (auto simp: check_ack_def check_ack_sync_def tcp_ok_def Let_def split: if_splits sock_cb_state.splits)

lemma word_diff_pos: "(b :: u32) < a \<Longrightarrow> 0 < a - b"
  by (metis eq_iff_diff_eq_0 word_gt_0 less_irrefl)

lemma check_text_ok: "check_text s seq len = (r, s') \<Longrightarrow> tcp_ok s \<Longrightarrow> tcp_ok s'"
  by (auto simp: check_text_def tcp_ok_def word_diff_pos split: if_splits)

lemma check_fin_ok: "check_fin s flg = (r, s') \<Longrightarrow> tcp_ok s \<Longrightarrow> tcp_ok s'"
  by (auto simp: check_fin_def tcp_ok_def split: if_splits sock_cb_state.splits)

lemma check_rst_next:
  "check_rst s flg = (r, s') \<Longrightarrow> sb_state s' \<in> tcp_next (sb_state s) \<and> (r \<noteq> TCP_OP_CLOSE_SCB \<longrightarrow> s' = s)"
  by (cases "sb_state s") (auto simp: check_rst_def tcp_ops split: if_splits)

lemma check_ack_state:
  "check_ack s flg ack seq w = (r, s') \<Longrightarrow>
   sb_state s' = sb_state s \<or> sb_state s = SOCK_CB_SYN_RCVD \<and> sb_state s' = SOCK_CB_ESTAB \<or>
   sb_state s = SOCK_CB_FIN_WAIT_1 \<and> sb_state s' = SOCK_CB_FIN_WAIT_2 \<or>
   sb_state s \<in> {SOCK_CB_CLOSING, SOCK_CB_LAST_ACK} \<and> sb_state s' = SOCK_CB_CLOSED \<and> r = TCP_OP_CLOSE_SCB"
  by (auto simp: check_ack_def check_ack_sync_def Let_def split: if_splits sock_cb_state.splits)

lemma check_text_state: "check_text s seq len = (r, s') \<Longrightarrow> sb_state s' = sb_state s"
  by (auto simp: check_text_def split: if_splits)

lemma check_fin_state:
  "check_fin s flg = (r, s') \<Longrightarrow> sb_state s' = sb_state s \<or>
     sb_state s \<in> {SOCK_CB_SYN_RCVD, SOCK_CB_ESTAB} \<and> sb_state s' = SOCK_CB_CLOSE_WAIT"
  by (auto simp: check_fin_def split: if_splits sock_cb_state.splits)

text \<open>
  \<open>scb_step n p n' P\<close>: of the control blocks only \<open>p\<close> changed, and the new block satisfies \<open>P\<close>.
\<close>

definition scb_step :: "'d net \<Rightarrow> nat \<Rightarrow> 'd net \<Rightarrow> (sock_cb \<Rightarrow> bool) \<Rightarrow> bool" where
  "scb_step n p n' P \<longleftrightarrow> (\<exists>s. nt_scbs n' p = Some s \<and> P s) \<and> (\<forall>q. q \<noteq> p \<longrightarrow> nt_scbs n' q = nt_scbs n q)"

lemma scb_step_socks: "same_socks n1 n2 \<Longrightarrow> scb_step n p n1 P \<Longrightarrow> scb_step n p n2 P"
  by (simp add: scb_step_def same_socks_def)

lemma scb_step_set: "P s \<Longrightarrow> scb_step n p (set_scb n p s) P"
  by (simp add: scb_step_def)

lemma scb_step_set2: "scb_step n p n1 Q \<Longrightarrow> P s \<Longrightarrow> scb_step n p (set_scb n1 p s) P"
  by (simp add: scb_step_def)

lemma scb_step_refl: "nt_scbs n p = Some s \<Longrightarrow> P s \<Longrightarrow> scb_step n p n P"
  by (simp add: scb_step_def)

lemma scb_step_put: "scb_step n p (put_mbuf n1 m mb) P = scb_step n p n1 P"
  by (simp add: scb_step_def put_mbuf_def set_heap_def)

lemma push_to_scb_rxq_step:
  assumes "push_to_scb_rxq n1 p m = Ret n2" "scb_step n p n1 P" "\<And>s q. P s \<Longrightarrow> P (s\<lparr>sb_rxq := q\<rparr>)"
  shows "scb_step n p n2 P"
  using assms by (auto simp: push_to_scb_rxq_def kres_simps scb_step_def set_scb_def set_heap_def split: prod.splits)

definition tcp_follows :: "sock_cb \<Rightarrow> sock_cb_state set \<Rightarrow> sock_cb \<Rightarrow> bool" where
  "tcp_follows s S s' \<longleftrightarrow> (tcp_ok s \<longrightarrow> tcp_ok s') \<and> sb_state s' \<in> S"

lemma tcp_follows_rxq: "tcp_follows s S s' \<Longrightarrow> tcp_follows s S (s'\<lparr>sb_rxq := q\<rparr>)"
  by (simp add: tcp_follows_def tcp_ok_def)

lemma recv_text_fin_step:
  assumes r: "recv_text_fin n1 p m sg datalen scb = Ret (c, n2)" and st: "scb_step n p n1 Q"
    and scb: "tcp_ok s \<longrightarrow> tcp_ok scb"
  shows "scb_step n p n2 (tcp_follows s (insert (sb_state scb)
     (if sb_state scb \<in> {SOCK_CB_SYN_RCVD, SOCK_CB_ESTAB} then {SOCK_CB_CLOSE_WAIT} else {})))"
    (is "scb_step n p n2 (tcp_follows s ?S)")
proof -
  obtain r1 scb1 where t: "check_text scb (ts_seq sg) datalen = (r1, scb1)" by fastforce
  obtain r2 scb2 where f: "check_fin scb1 (ts_flg sg) = (r2, scb2)" by fastforce
  have f1: "tcp_follows s ?S scb1"
    using check_text_ok [OF t] check_text_state [OF t] scb by (simp add: tcp_follows_def)
  have f2: "tcp_follows s ?S scb2"
    using check_fin_ok [OF f] check_fin_state [OF f] f1 check_text_state [OF t] by (auto simp: tcp_follows_def)
  have s1: "scb_step n p (set_scb n1 p scb1) (tcp_follows s ?S)" using st f1 by (rule scb_step_set2)
  have s2: "scb_step n p (set_scb (set_scb n1 p scb1) p scb2) (tcp_follows s ?S)" using s1 f2 by (rule scb_step_set2)
  consider "r1 = TCP_OP_ERR" | "r1 = TCP_OP_TXT_OK" | "r1 \<noteq> TCP_OP_ERR" "r1 \<noteq> TCP_OP_TXT_OK" by blast
  then show ?thesis
  proof cases
    case 1
    then show ?thesis using r t s1 by (simp add: recv_text_fin_def Let_def)
  next
    case 2
    then obtain mb n3 scb3 where n3: "push_to_scb_rxq (put_mbuf (set_scb n1 p scb1) m
        (mb\<lparr>mb_len := ucast datalen, mb_params := (mb_params mb)\<lparr>prm_flg := ts_flg sg\<rparr>\<rparr>)) p m = Ret n3"
      and n2: "scb_reply n3 scb3 TCP_FLG_ACK = Ret n2"
      using r t by (auto simp: recv_text_fin_def Let_def kres_simps tcp_ops)
    have "scb_step n p n3 (tcp_follows s ?S)"
      by (rule push_to_scb_rxq_step [OF n3]) (simp only: scb_step_put s1, rule tcp_follows_rxq)
    then show ?thesis by (rule scb_step_socks [OF scb_reply_socks [OF n2]])
  next
    case 3
    then show ?thesis using r t f s2
      by (auto simp: recv_text_fin_def Let_def kres_simps split: if_splits dest!: scb_reply_socks intro: scb_step_socks)
  qed
qed

lemma tcp_recv_core_step:
  assumes r: "tcp_recv_core n p m len = Ret (c, n')" and s: "nt_scbs n p = Some s"
  shows "scb_step n p n' (tcp_follows s (tcp_next (sb_state s)))" (is "scb_step n p n' ?F")
proof -
  have self: "?F s" by (cases "sb_state s") (auto simp: tcp_follows_def)
  obtain sg where sg: "read_seg n m = Ret sg" using r by (auto simp: tcp_recv_core_def kres_simps)
  let ?dl = "TCP_DATA_LEN (ts_off sg) len"
  obtain r1 s1 where rst: "check_rst s (ts_flg sg) = (r1, s1)" by fastforce
  obtain r2 s2 where ack: "check_ack s1 (ts_flg sg) (ts_ack sg) (ts_seq sg) (ntohl (ucast (ts_wnd sg))) = (r2, s2)" by fastforce
  have F1: "?F s1" using check_rst_ok [OF rst] check_rst_next [OF rst] by (simp add: tcp_follows_def)
  have n1: "scb_step n p (set_scb n p s1) ?F" using F1 by (rule scb_step_set)
  show ?thesis
  proof (cases "is_seq_valid (rcv_wnd s) (rcv_nxt_seq s) (ts_seq sg) ?dl")
    case False
    then show ?thesis using r sg s scb_step_refl [of n p s ?F, OF s self]
      by (auto simp: tcp_recv_core_def Let_def kres_simps split: if_splits dest!: scb_reply_socks intro: scb_step_socks)
  next
    case valid: True
    show ?thesis
    proof (cases "r1 = TCP_OP_CLOSE_SCB")
      case True
      then show ?thesis using r sg s rst valid n1 by (auto simp: tcp_recv_core_def Let_def)
    next
      case False
      then have s1: "s1 = s" using check_rst_next [OF rst] by simp
      have st: "sb_state s2 \<in> tcp_next (sb_state s)"
        using check_ack_state [OF ack] s1 by (cases "sb_state s") auto
      then have F2: "?F s2" using check_ack_ok [OF ack] s1 by (simp add: tcp_follows_def)
      have n2: "scb_step n p (set_scb (set_scb n p s1) p s2) ?F" using n1 F2 by (rule scb_step_set2)
      have tf: "scb_step n p n' ?F" if "recv_text_fin (set_scb (set_scb n p s1) p s2) p m sg ?dl s2 = Ret (c, n')"
      proof -
        have "scb_step n p n' (tcp_follows s (insert (sb_state s2)
            (if sb_state s2 \<in> {SOCK_CB_SYN_RCVD, SOCK_CB_ESTAB} then {SOCK_CB_CLOSE_WAIT} else {})))"
          by (rule recv_text_fin_step [OF that n2]) (use check_ack_ok [OF ack] s1 in simp)
        moreover have "insert (sb_state s2) (if sb_state s2 \<in> {SOCK_CB_SYN_RCVD, SOCK_CB_ESTAB} then {SOCK_CB_CLOSE_WAIT} else {})
            \<subseteq> tcp_next (sb_state s)"
          using check_ack_state [OF ack] s1 by (cases "sb_state s") auto
        ultimately show ?thesis by (auto simp: scb_step_def tcp_follows_def)
      qed
      show ?thesis using r sg s rst ack valid False n1 n2 tf
        by (auto simp: tcp_recv_core_def Let_def kres_simps split: if_splits
            dest!: scb_reply_socks tcp_reply_socks intro: scb_step_socks)
    qed
  qed
qed

subsection \<open>Opening a connection and receiving data\<close>

lemma tcp_reply_frame:
  assumes A: "arp_models (nt_arp n) A" "A raddr = Some mac" "length mac = 6"
  shows "\<exists>at iphdr seg mb'. tcp_reply n raddr sport dport sndnxt rcvnxt rcvwnd flg =
       handed (n\<lparr>nt_ms := snd (mbufalloc (nt_ms n) ETH_MAX_SIZE), nt_arp := at\<rparr>) (ms_brk (nt_ms n)) mb' \<and>
     mbuf_data mb' = mac @ local_mac @ be16 ETH_TYPE_IP @ iphdr @ seg \<and>
     ip_hdr_of 40 IPPROTO_TCP local_ip raddr iphdr \<and>
     tcp_segment_of local_ip raddr sport dport sndnxt (if TCP_FLG_ISSET flg TCP_FLG_ACK then rcvnxt else 0) flg (ucast rcvwnd)
       [] seg"
proof -
  let ?n1 = "n\<lparr>nt_ms := snd (mbufalloc (nt_ms n) ETH_MAX_SIZE)\<rparr>" and ?m = "ms_brk (nt_ms n)"
  let ?mb = "mbuf_zero ETH_MAX_SIZE"
  have al: "net_mbufalloc n ETH_MAX_SIZE = (Some ?m, ?n1)" "nt_heap ?n1 ?m = Some ?mb"
    by (simp_all add: net_mbufalloc_def mbufalloc_def ETH_MAX_SIZE_def MBUF_SIZE_def nt_heap_def)
  have ok: "54 \<le> mb_head ?mb" "mbuf_ok ?mb" "unat (0 :: u16) = unat (mb_len ?mb)" "mbuf_data ?mb = []" "mb_len ?mb = 0"
    by (simp_all add: mbuf_zero_def ETH_MAX_SIZE_def mbuf_ok_def MBUF_SIZE_def mbuf_data_def)
  have "arp_models (nt_arp ?n1) A" using A(1) by simp
  from tcp_send_core_frame [OF this A(2,3) al(2) ok(1-3), of sport dport sndnxt rcvnxt rcvwnd flg] show ?thesis
    unfolding tcp_reply_def al(1) ok(4,5) by (auto split del: if_split)
qed

lemma handed_deref:
  "nt_scbs n p = Some s \<Longrightarrow>
   kbind (handed n m mb) (\<lambda>n1. kbind (deref (nt_scbs n1) (Some p)) (\<lambda>s1. F n1 s1)) = kbind (handed n m mb) (\<lambda>n1. F n1 s)"
  by (auto simp: handed_def Let_def put_mbuf_def set_heap_def kbind_assoc intro!: kbind_cong split: prod.splits)

subsection \<open>Properties\<close>

text \<open>C4: every segment is sent in wire format: when the peer's hardware address is known, \<^verbatim>\<open>tcp_send_core\<close>
  hands the device an Ethernet frame with an IP header addressed to the peer and a TCP segment with the
  given ports, sequence number, acknowledgement, flags and window around the unchanged payload, whose TCP
  checksum over the pseudo header verifies.\<close>

theorem tcp_segment_wire:
  assumes "arp_models (nt_arp n) A" "A raddr = Some mac" "length mac = 6"
    "nt_heap n m = Some mb" "54 \<le> mb_head mb" "mbuf_ok mb" "unat payload_len = unat (mb_len mb)"
  shows "\<exists>at iphdr seg mb'. tcp_send_core n m raddr sport dport sndnxt rcvnxt rcvwnd flg payload_len
       = handed (n\<lparr>nt_arp := at\<rparr>) m mb' \<and>
     mbuf_data mb' = mac @ local_mac @ be16 ETH_TYPE_IP @ iphdr @ seg \<and>
     ip_hdr_of (ucast (mb_len mb + 40)) IPPROTO_TCP local_ip raddr iphdr \<and>
     tcp_segment_of local_ip raddr sport dport sndnxt (if TCP_FLG_ISSET flg TCP_FLG_ACK then rcvnxt else 0) flg (ucast rcvwnd)
       (mbuf_data mb) seg"
  using tcp_send_core_frame [OF assms] by blast

theorem tcp_segment_wire_witness:
  "\<exists>at iphdr seg mb'. tcp_send_core (host_net 9 [1, 2, 3, 4, 5, 6] (packet_of [104, 105])) 0 9 80 7 1000 2000 20000 TCP_FLG_ACK 2
       = handed ((host_net 9 [1, 2, 3, 4, 5, 6] (packet_of [104, 105]))\<lparr>nt_arp := at\<rparr>) 0 mb' \<and>
     mbuf_data mb' = [1, 2, 3, 4, 5, 6] @ local_mac @ be16 ETH_TYPE_IP @ iphdr @ seg \<and>
     ip_hdr_of (ucast (mb_len (packet_of [104, 105]) + 40)) IPPROTO_TCP local_ip 9 iphdr \<and>
     tcp_segment_of local_ip 9 80 7 1000 (if TCP_FLG_ISSET TCP_FLG_ACK TCP_FLG_ACK then 2000 else 0) TCP_FLG_ACK (ucast (20000 :: u32))
       (mbuf_data (packet_of [104, 105])) seg"
  by (rule tcp_segment_wire [where A = "[9 \<mapsto> [1, 2, 3, 4, 5, 6]]"])
    (simp_all add: arptab_one_models packet_of_ok, simp_all add: packet_of_def mbuf_zero_def)


definition segment_of :: "u32 \<Rightarrow> u32 \<Rightarrow> u8 \<Rightarrow> u8 list \<Rightarrow> u8 list" where
  "segment_of seq ack flg payload = [0, 0, 0, 0] @ be32 seq @ be32 ack @ [0x50, flg, 0, 0, 0, 0, 0, 0] @ payload"

definition arrived :: "u8 list \<Rightarrow> mbuf" where
  "arrived seg = (packet_of seg)\<lparr>mb_head := 148, mb_len := of_nat (length seg - 20), mb_tcphdr := Some (0, 128)\<rparr>"

lemma read_seg_arrived:
  assumes "nt_heap n 0 = Some (arrived (segment_of seq ack flg payload))"
  shows "read_seg n 0 = Ret \<lparr>ts_ack = ack, ts_seq = seq, ts_off = 0x50, ts_flg = flg, ts_wnd = 0\<rparr>"
proof -
  let ?seg = "segment_of seq ack flg payload" and ?b = "mb_buf (arrived (segment_of seq ack flg payload))"
  have bs: "bytes_at ?b 128 (length ?seg) = ?seg" by (simp add: arrived_def packet_of_def)
  have l20: "20 \<le> length ?seg" by (simp add: segment_of_def be32_def)
  have sub: "bytes_at ?b (128 + k) j = take j (drop k ?seg)" if "k + j \<le> 20" for k j
    using bytes_at_sub [of k j "length ?seg" ?b 128] that l20 unfolding bs by simp
  have nth: "?b (128 + i) = ?seg ! i" if "i < 20" for i
    using nth_bytes_at [of i "length ?seg" ?b 128] that l20 unfolding bs by simp
  have "ntohl (load32 ?b (128 + 8)) = ack" "ntohl (load32 ?b (128 + 4)) = seq"
    by (rule ntohl_load32, simp only: sub, simp add: segment_of_def be32_def)+
  moreover have "load8 ?b (128 + 12) = 0x50" "load8 ?b (128 + 13) = flg" "load16 ?b (128 + 14) = 0"
    using nth [of 12] nth [of 13] nth [of 14] nth [of 15]
    by (simp_all add: load8_def load16_def segment_of_def be32_def)
  ultimately show ?thesis using assms by (simp add: read_seg_def get_mbuf_def arrived_def)
qed

definition listening :: sock_cb where
  "listening = (new_sock_cb None 0 80 0 SOCK_TCP)\<lparr>sb_state := SOCK_CB_LISTEN\<rparr>"

definition tcp_net :: "u8 list \<Rightarrow> sock_cb \<Rightarrow> mbufq net" where
  "tcp_net seg s = (host_net 9 [1, 2, 3, 4, 5, 6] (arrived seg))\<lparr>nt_scbs := [0 \<mapsto> s], nt_sbrk := 1\<rparr>"

lemma tcp_net_simps [simp]:
  "nt_heap (tcp_net seg s) = [0 \<mapsto> arrived seg]" "nt_scbs (tcp_net seg s) = [0 \<mapsto> s]"
  "nt_arp (tcp_net seg s) = arptab_one 9 [1, 2, 3, 4, 5, 6]" "ms_brk (nt_ms (tcp_net seg s)) = 1"
  by (simp_all add: tcp_net_def nt_heap_def)


lemma set_scb_twice [simp]: "set_scb (set_scb n p s) p s' = set_scb n p s'"
  by (simp add: set_scb_def)

text \<open>The sequence number checks of an expected segment that acknowledges what was sent.\<close>

lemma expected_segment:
  assumes "seq = rcv_nxt_seq s" "rcv_nxt_seq s < rcv_nxt_seq s + rcv_wnd s"
  shows "is_seq_valid (rcv_wnd s) (rcv_nxt_seq s) seq len"
  using assms by (auto simp: is_seq_valid_def)

lemma handshake_ack:
  assumes "read_seg n m = Ret sg" "nt_scbs n p = Some s" "sb_state s = SOCK_CB_SYN_RCVD"
    "ts_flg sg = TCP_FLG_ACK" "ts_seq sg = rcv_nxt_seq s" "rcv_nxt_seq s < rcv_nxt_seq s + rcv_wnd s"
    "snd_unack s < ts_ack sg" "ts_ack sg \<le> snd_nxt_seq s" "TCP_DATA_LEN (ts_off sg) len = 0"
  shows "tcp_recv_core n p m len =
     Ret (TCP_OP_FREE_MBUF, set_scb n p (s\<lparr>sb_state := SOCK_CB_ESTAB, sb_slock := False\<rparr>))"
  using assms expected_segment [OF assms(5,6)]
  by (simp add: tcp_recv_core_def Let_def check_rst_def check_syn_def check_ack_def TCP_FLG_ISSET_def tcp_flags tcp_ops
      recv_text_fin_def check_text_def check_fin_def)



lemma data_segment_step:
  assumes sg: "read_seg n m = Ret sg" and s: "nt_scbs n p = Some s" "sb_state s = SOCK_CB_ESTAB"
    and flg: "TCP_FLG_ISSET (ts_flg sg) TCP_FLG_ACK" "\<not> TCP_FLG_ISSET (ts_flg sg) TCP_FLG_SYN" "\<not> TCP_FLG_ISSET (ts_flg sg) TCP_FLG_RST"
    and seq: "ts_seq sg = rcv_nxt_seq s" "rcv_nxt_seq s < rcv_nxt_seq s + rcv_wnd s" "ts_ack sg = snd_unack s" "snd_unack s \<le> snd_nxt_seq s"
    and len: "datalen = TCP_DATA_LEN (ts_off sg) len" "0 < datalen" "ucast datalen < rcv_wnd s"
  shows "tcp_recv_core n p m len = recv_text_fin (set_scb n p s) p m sg datalen s"
    and "check_text s (ts_seq sg) datalen =
      (TCP_OP_TXT_OK, s\<lparr>rcv_nxt_seq := rcv_nxt_seq s + ucast datalen, rcv_wnd := rcv_wnd s - ucast datalen\<rparr>)"
  using assms expected_segment [OF seq(1,2)]
  by (simp_all add: tcp_recv_core_def Let_def check_rst_def check_syn_def check_ack_def check_ack_sync_def tcp_ops leD
      check_text_def)

lemma data_segment_received:
  assumes A: "arp_models (nt_arp n) A" "A (sb_raddr s) = Some mac" "length mac = 6"
    and sg: "read_seg n m = Ret sg" and s: "nt_scbs n p = Some s" "sb_state s = SOCK_CB_ESTAB"
    and flg: "TCP_FLG_ISSET (ts_flg sg) TCP_FLG_ACK" "\<not> TCP_FLG_ISSET (ts_flg sg) TCP_FLG_SYN" "\<not> TCP_FLG_ISSET (ts_flg sg) TCP_FLG_RST"
    and seq: "ts_seq sg = rcv_nxt_seq s" "rcv_nxt_seq s < rcv_nxt_seq s + rcv_wnd s" "ts_ack sg = snd_unack s" "snd_unack s \<le> snd_nxt_seq s"
    and len: "datalen = TCP_DATA_LEN (ts_off sg) len" "0 < datalen" "ucast datalen < rcv_wnd s"
    and mb: "nt_heap n m = Some mb" and q: "mbufq_rep (nt_heap n) (sb_rxq s) xs" "m \<notin> set xs"
    and fresh: "ms_brk (nt_ms n) \<notin> insert m (set xs)"
  shows "\<exists>n1 mb' iphdr seg s' dm. tcp_recv_core n p m len =
       kbind (handed n1 (ms_brk (nt_ms n)) mb') (\<lambda>n2. Ret (TCP_OP_OK, n2)) \<and>
     nt_scbs n1 = (nt_scbs n)(p \<mapsto> s') \<and> sb_state s' = SOCK_CB_ESTAB \<and>
     rcv_nxt_seq s' = rcv_nxt_seq s + ucast datalen \<and> rcv_wnd s' = rcv_wnd s - ucast datalen \<and>
     mbufq_rep (nt_heap n1) (sb_rxq s') (xs @ [m]) \<and> nt_heap n1 m = Some dm \<and>
     mbuf_data dm = bytes_at (mb_buf mb) (mb_head mb) (unat datalen) \<and>
     mbuf_data mb' = mac @ local_mac @ be16 ETH_TYPE_IP @ iphdr @ seg \<and>
     ip_hdr_of 40 IPPROTO_TCP local_ip (sb_raddr s) iphdr \<and>
     tcp_segment_of local_ip (sb_raddr s) (sb_sport s) (sb_dport s) (snd_nxt_seq s) (rcv_nxt_seq s + ucast datalen)
       TCP_FLG_ACK (ucast (rcv_wnd s - ucast datalen)) [] seg"
proof -
  note st = data_segment_step [OF sg s flg seq len]
  define s1 where "s1 = s\<lparr>rcv_nxt_seq := rcv_nxt_seq s + ucast datalen, rcv_wnd := rcv_wnd s - ucast datalen\<rparr>"
  define mb1 where "mb1 = mb\<lparr>mb_len := ucast datalen, mb_params := (mb_params mb)\<lparr>prm_flg := ts_flg sg\<rparr>\<rparr>"
  define n2 where "n2 = put_mbuf (set_scb n p s1) m mb1"
  have h2: "nt_heap n2 = (nt_heap n)(m \<mapsto> mb1)" "nt_scbs n2 = (nt_scbs n)(p \<mapsto> s1)" "nt_arp n2 = nt_arp n" "ms_brk (nt_ms n2) = ms_brk (nt_ms n)"
    by (simp_all add: n2_def put_mbuf_def set_heap_def set_scb_def nt_heap_def)
  have "mbufq_rep (nt_heap n2) (sb_rxq s1) xs" using q by (auto simp: h2 s1_def mbufq_rep_def)
  then obtain h q' where hq: "mbufq_pushtail (nt_heap n2) (sb_rxq s1) m = Ret (h, q')" "mbufq_rep h q' (xs @ [m])"
    using mbufq_pushtail_rep [of "nt_heap n2" "sb_rxq s1" xs m mb1] q(2) by (auto simp: h2)
  obtain nx where nx: "h m = Some (mb1\<lparr>mb_next := nx\<rparr>)" using mbufq_pushtail_data [OF hq(1), of m] by (auto simp: h2)
  define s3 where "s3 = s1\<lparr>sb_rxq := q'\<rparr>"
  define n3 where "n3 = set_scb (set_heap n2 h) p s3"
  have push: "push_to_scb_rxq n2 p m = Ret n3" using hq(1) by (simp add: push_to_scb_rxq_def h2 n3_def s3_def)
  have g: "get_mbuf (set_scb n p s1) m = Ret mb" using mb by (simp add: get_mbuf_def set_scb_def nt_heap_def)
  have h3: "nt_heap n3 = h" "nt_scbs n3 = (nt_scbs n)(p \<mapsto> s3)" "nt_arp n3 = nt_arp n" "ms_brk (nt_ms n3) = ms_brk (nt_ms n)"
    by (simp_all add: n3_def set_scb_def set_heap_def nt_heap_def h2)
  have r: "tcp_recv_core n p m len = kbind (scb_reply n3 s3 TCP_FLG_ACK) (\<lambda>n4. Ret (TCP_OP_OK, n4))"
    unfolding st(1) by (simp add: recv_text_fin_def st(2) Let_def tcp_ops g s1_def [symmetric] mb1_def [symmetric] n2_def [symmetric] push h3)
  have A3: "arp_models (nt_arp n3) A" "A (sb_raddr s3) = Some mac" using A(1,2) by (simp_all add: h3 s3_def s1_def)
  have flg: "TCP_FLG_ISSET TCP_FLG_ACK TCP_FLG_ACK" by (simp add: TCP_FLG_ISSET_def tcp_flags)
  obtain at iphdr seg mb' where f: "scb_reply n3 s3 TCP_FLG_ACK =
       handed (n3\<lparr>nt_ms := snd (mbufalloc (nt_ms n3) ETH_MAX_SIZE), nt_arp := at\<rparr>) (ms_brk (nt_ms n3)) mb'"
     "mbuf_data mb' = mac @ local_mac @ be16 ETH_TYPE_IP @ iphdr @ seg" "ip_hdr_of 40 IPPROTO_TCP local_ip (sb_raddr s3) iphdr"
     "tcp_segment_of local_ip (sb_raddr s3) (sb_sport s3) (sb_dport s3) (snd_nxt_seq s3) (rcv_nxt_seq s3) TCP_FLG_ACK
        (ucast (rcv_wnd s3)) [] seg"
    using tcp_reply_frame [OF A3 A(3), of "sb_sport s3" "sb_dport s3" "snd_nxt_seq s3" "rcv_nxt_seq s3" "rcv_wnd s3" TCP_FLG_ACK]
    unfolding if_P [OF flg] scb_reply_def by blast
  let ?n4 = "n3\<lparr>nt_ms := snd (mbufalloc (nt_ms n3) ETH_MAX_SIZE), nt_arp := at\<rparr>"
  have h4: "nt_heap ?n4 = h(ms_brk (nt_ms n) \<mapsto> mbuf_zero ETH_MAX_SIZE)" "nt_scbs ?n4 = (nt_scbs n)(p \<mapsto> s3)"
    using h3 by (simp_all add: mbufalloc_def ETH_MAX_SIZE_def MBUF_SIZE_def nt_heap_def)
  have "mbufq_rep (nt_heap ?n4) q' (xs @ [m])" unfolding h4(1) using hq(2) fresh by (simp add: mbufq_rep_def)
  moreover have "nt_heap ?n4 m = Some (mb1\<lparr>mb_next := nx\<rparr>)" unfolding h4(1) using nx fresh by simp
  moreover have "mbuf_data (mb1\<lparr>mb_next := nx\<rparr>) = bytes_at (mb_buf mb) (mb_head mb) (unat datalen)"
    by (simp add: mb1_def mbuf_data_def unat_ucast_widen)
  moreover have "s3 = s\<lparr>rcv_nxt_seq := rcv_nxt_seq s + ucast datalen, rcv_wnd := rcv_wnd s - ucast datalen, sb_rxq := q'\<rparr>"
    by (simp add: s3_def s1_def)
  ultimately show ?thesis using r f s(2) h3(4) h4(2)
    by (intro exI [of _ ?n4] exI [of _ mb'] exI [of _ iphdr] exI [of _ seg] exI [of _ s3] exI [of _ "mb1\<lparr>mb_next := nx\<rparr>"]) simp
qed


definition established :: sock_cb where
  "established = (new_sock_cb None 9 80 7 SOCK_TCP)\<lparr>sb_state := SOCK_CB_ESTAB, rcv_nxt_seq := 501, rcv_wnd := 20000,
     snd_nxt_seq := 1, snd_unack := 1\<rparr>"


text \<open>C6: \<^verbatim>\<open>tcp_recv_core\<close> follows the state diagram: an arriving segment changes only the control block of its
  connection, moves it along an edge of \<^const>\<open>tcp_next\<close>, and keeps the acknowledged number at or below
  the next number to send and the receive window open.\<close>

theorem tcp_recv_core_states:
  assumes "tcp_recv_core n p m len = Ret (c, n')" "nt_scbs n p = Some s"
  shows "\<exists>s'. nt_scbs n' p = Some s' \<and> sb_state s' \<in> tcp_next (sb_state s) \<and>
     (snd_unack s \<le> snd_nxt_seq s \<and> 0 < rcv_wnd s \<longrightarrow> snd_unack s' \<le> snd_nxt_seq s' \<and> 0 < rcv_wnd s') \<and>
     (\<forall>q. q \<noteq> p \<longrightarrow> nt_scbs n' q = nt_scbs n q)"
  using tcp_recv_core_step [OF assms] by (auto simp: scb_step_def tcp_follows_def tcp_ok_def)

definition syn_rcvd :: sock_cb where
  "syn_rcvd = listening\<lparr>sb_state := SOCK_CB_SYN_RCVD, rcv_nxt_seq := 501, rcv_wnd := 20000, snd_nxt_seq := 1\<rparr>"

theorem tcp_recv_core_states_witness:
  "\<exists>s'. nt_scbs (set_scb (tcp_net (segment_of 501 1 TCP_FLG_ACK []) syn_rcvd) 0 (syn_rcvd\<lparr>sb_state := SOCK_CB_ESTAB, sb_slock := False\<rparr>)) 0 = Some s' \<and>
     sb_state s' \<in> tcp_next (sb_state syn_rcvd) \<and>
     (snd_unack syn_rcvd \<le> snd_nxt_seq syn_rcvd \<and> 0 < rcv_wnd syn_rcvd \<longrightarrow> snd_unack s' \<le> snd_nxt_seq s' \<and> 0 < rcv_wnd s') \<and>
     (\<forall>q. q \<noteq> 0 \<longrightarrow> nt_scbs (set_scb (tcp_net (segment_of 501 1 TCP_FLG_ACK []) syn_rcvd) 0 (syn_rcvd\<lparr>sb_state := SOCK_CB_ESTAB, sb_slock := False\<rparr>)) q =
        nt_scbs (tcp_net (segment_of 501 1 TCP_FLG_ACK []) syn_rcvd) q)"
  by (rule tcp_recv_core_states [OF handshake_ack [OF read_seg_arrived [of _ 501 1 TCP_FLG_ACK "[]"], where len = 20]])
    (simp_all add: TCP_DATA_LEN_def TCP_HDR_LEN_def syn_rcvd_def listening_def new_sock_cb_def)

text \<open>The acceptance test of RFC 793 in arithmetic modulo \<open>2 ^ 32\<close>.\<close>

definition in_window :: "u32 \<Rightarrow> u32 \<Rightarrow> u32 \<Rightarrow> bool" where
  "in_window nxt wnd x \<longleftrightarrow> x - nxt < wnd"

definition rfc_acceptable :: "u32 \<Rightarrow> u32 \<Rightarrow> u32 \<Rightarrow> u16 \<Rightarrow> bool" where
  "rfc_acceptable wnd nxt seq len =
     (if len = 0 then (if wnd = 0 then seq = nxt else in_window nxt wnd seq)
      else wnd \<noteq> 0 \<and> (in_window nxt wnd seq \<or> in_window nxt wnd (seq + ucast len - 1)))"

lemma in_window_no_wrap:
  assumes "unat nxt + unat wnd < 2 ^ 32"
  shows "in_window nxt wnd x \<longleftrightarrow> nxt \<le> x \<and> x < nxt + wnd"
proof -
  have sum: "unat (nxt + wnd) = unat nxt + unat wnd" using assms by (simp add: unat_add_small)
  show ?thesis
  proof (cases "nxt \<le> x")
    case True
    then show ?thesis by (simp add: in_window_def word_less_nat_alt sum unat_sub word_le_nat_alt less_diff_conv2 add.commute)
  next
    case False
    have "unat (x - nxt) + unat nxt = 2 ^ 32 + unat x"
      using False unat_less_u32 [of nxt] by (simp add: unat_sub_if_size word_le_nat_alt size_word_def)
    then have "\<not> x - nxt < wnd" using assms by (simp add: word_less_nat_alt)
    then show ?thesis using False by (simp add: in_window_def)
  qed
qed

text \<open>C35: as long as the receive window does not reach past the end of the sequence space, \<^verbatim>\<open>is_seq_valid\<close> is the
  acceptance test of RFC 793.\<close>

theorem is_seq_valid_rfc793:
  assumes "unat rcvnxt + unat rcvwnd < 2 ^ 32"
  shows "is_seq_valid rcvwnd rcvnxt segseq seglen = rfc_acceptable rcvwnd rcvnxt segseq seglen"
  by (auto simp: is_seq_valid_def rfc_acceptable_def in_window_no_wrap [OF assms])

theorem is_seq_valid_rfc793_witness:
  "unat (1000 :: u32) + unat (20000 :: u32) < 2 ^ 32 \<and> is_seq_valid 20000 1000 20999 5 = rfc_acceptable 20000 1000 20999 5"
  using is_seq_valid_rfc793 [of 1000 20000 20999 5] by simp

text \<open>when the window crosses the end of the sequence space, \<^verbatim>\<open>is_seq_valid\<close> refuses even the segment
  that is expected next: comparisons of sequence numbers are not modulo \<open>2 ^ 32\<close>.\<close>

theorem is_seq_valid_wraps:
  assumes "2 ^ 32 \<le> unat rcvnxt + unat rcvwnd" "0 < seglen" "unat rcvnxt + unat seglen \<le> 2 ^ 32"
  shows "\<not> is_seq_valid rcvwnd rcvnxt rcvnxt seglen \<and> rfc_acceptable rcvwnd rcvnxt rcvnxt seglen"
proof -
  have w: "rcvwnd \<noteq> 0" using assms(1) unat_less_u32 [of rcvnxt] by auto
  have sum: "unat (rcvnxt + rcvwnd) = unat rcvnxt + unat rcvwnd - 2 ^ 32"
    using assms(1) unat_less_u32 [of rcvnxt] unat_less_u32 [of rcvwnd] by (simp add: unat_word_ariths mod_if)
  then have le: "rcvnxt + rcvwnd \<le> rcvnxt" using unat_less_u32 [of rcvwnd] by (simp add: word_le_nat_alt)
  have last: "unat (rcvnxt + (ucast seglen - 1)) = unat rcvnxt + (unat seglen - 1)"
  proof -
    have "unat (ucast seglen - 1 :: u32) = unat seglen - 1"
      using assms(2) by (simp add: unat_sub word_le_nat_alt unat_ucast_widen word_less_nat_alt)
    then show ?thesis using assms(2,3) by (subst unat_add_small) (auto simp: word_less_nat_alt)
  qed
  have "\<not> rcvnxt + ucast seglen - 1 < rcvnxt + rcvwnd"
    using last sum unat_less_u32 [of rcvwnd] by (simp add: word_less_nat_alt add_diff_eq)
  then show ?thesis using le w assms(2) by (auto simp: is_seq_valid_def rfc_acceptable_def in_window_def word_gt_0)
qed

theorem is_seq_valid_wraps_witness:
  "\<not> is_seq_valid 20000 0xFFFFFF00 0xFFFFFF00 100 \<and> rfc_acceptable 20000 0xFFFFFF00 0xFFFFFF00 100"
  by (rule is_seq_valid_wraps) simp_all

end
