(* ===== verification/Kstring.thy ===== *)
theory Kstring
  imports Prelude
begin

text \<open>
  The string and memory routines of the kernel (kernel/lib/string.c), on one byte memory and with
  addresses as numbers: every loop of the source is a recursion that does one access per turn, in the
  order of the source, so that overlapping buffers behave as they do there.
\<close>

subsection \<open>Memory blocks\<close>

text \<open>\<^verbatim>\<open>for(i = 0; i < n; i++) cdst[i] = c\<close>\<close>

function memset_from :: "nat \<Rightarrow> nat \<Rightarrow> u8 \<Rightarrow> nat \<Rightarrow> bytes \<Rightarrow> bytes" where
  "memset_from i n c d m = (if i < n then memset_from (Suc i) n c d (m(d + i := c)) else m)"
  by pat_completeness auto
termination by (relation "measure (\<lambda>(i, n, c, d, m). n - i)") auto

declare memset_from.simps [simp del]

definition memset :: "bytes \<Rightarrow> nat \<Rightarrow> u32 \<Rightarrow> u32 \<Rightarrow> bytes" where
  "memset m dst c n = memset_from 0 (unat n) (ucast c) dst m"

text \<open>\<^verbatim>\<open>while(n-- > 0)\<close>: compare until the first difference.\<close>

fun memcmp_loop :: "nat \<Rightarrow> bytes \<Rightarrow> nat \<Rightarrow> nat \<Rightarrow> int" where
  "memcmp_loop 0 m s1 s2 = 0"
| "memcmp_loop (Suc n) m s1 s2 =
     (if m s1 \<noteq> m s2 then uint (m s1) - uint (m s2) else memcmp_loop n m (s1 + 1) (s2 + 1))"

definition memcmp :: "bytes \<Rightarrow> nat \<Rightarrow> nat \<Rightarrow> u32 \<Rightarrow> int" where
  "memcmp m v1 v2 n = memcmp_loop (unat n) m v1 v2"

text \<open>The two copy loops of \<^verbatim>\<open>memmove\<close>: \<^verbatim>\<open>*--d = *--s\<close> and \<^verbatim>\<open>*d++ = *s++\<close>.\<close>

fun move_down :: "nat \<Rightarrow> bytes \<Rightarrow> nat \<Rightarrow> nat \<Rightarrow> bytes" where
  "move_down 0 m d s = m"
| "move_down (Suc n) m d s = (let d' = d - 1; s' = s - 1 in move_down n (m(d' := m s')) d' s')"

fun move_up :: "nat \<Rightarrow> bytes \<Rightarrow> nat \<Rightarrow> nat \<Rightarrow> bytes" where
  "move_up 0 m d s = m"
| "move_up (Suc n) m d s = move_up n (m(d := m s)) (d + 1) (s + 1)"

definition memmove :: "bytes \<Rightarrow> nat \<Rightarrow> nat \<Rightarrow> u32 \<Rightarrow> bytes" where
  "memmove m dst src n =
     (if src < dst \<and> src + unat n > dst
      then move_down (unat n) m (dst + unat n) (src + unat n)
      else move_up (unat n) m dst src)"

definition memcpy :: "bytes \<Rightarrow> nat \<Rightarrow> nat \<Rightarrow> u32 \<Rightarrow> bytes" where
  "memcpy m dst src n = memmove m dst src n"

subsection \<open>Strings\<close>

fun strncmp_loop :: "nat \<Rightarrow> bytes \<Rightarrow> nat \<Rightarrow> nat \<Rightarrow> int" where
  "strncmp_loop 0 m p q = 0"
| "strncmp_loop (Suc n) m p q =
     (if m p \<noteq> 0 \<and> m p = m q then strncmp_loop n m (p + 1) (q + 1) else uint (m p) - uint (m q))"

definition strncmp :: "bytes \<Rightarrow> nat \<Rightarrow> nat \<Rightarrow> u32 \<Rightarrow> int" where
  "strncmp m p q n = strncmp_loop (unat n) m p q"

text \<open>\<^verbatim>\<open>while(n-- > 0) *s++ = 0\<close>\<close>

fun zero_rest :: "nat \<Rightarrow> bytes \<Rightarrow> nat \<Rightarrow> bytes" where
  "zero_rest 0 m s = m"
| "zero_rest (Suc n) m s = zero_rest n (m(s := 0)) (s + 1)"

text \<open>
  Both loops of \<^verbatim>\<open>strncpy\<close>. The count is an \<^verbatim>\<open>int\<close>: when the first loop ends because it is used up
  it is -1 afterwards and the second loop does not run; when it ends at a NUL, the second
  loop fills what is left.
\<close>

fun strncpy_loop :: "nat \<Rightarrow> bytes \<Rightarrow> nat \<Rightarrow> nat \<Rightarrow> bytes" where
  "strncpy_loop 0 m s t = m"
| "strncpy_loop (Suc n) m s t =
     (let m' = m(s := m t) in if m t \<noteq> 0 then strncpy_loop n m' (s + 1) (t + 1) else zero_rest n m' (s + 1))"

definition strncpy :: "bytes \<Rightarrow> nat \<Rightarrow> nat \<Rightarrow> int \<Rightarrow> bytes" where
  "strncpy m s t n = strncpy_loop (nat n) m s t"

text \<open>\<^verbatim>\<open>while(--n > 0 && (*s++ = *t++) != 0)\<close>, then \<^verbatim>\<open>*s = 0\<close>; the argument is the decremented count.\<close>

fun safestrcpy_loop :: "nat \<Rightarrow> bytes \<Rightarrow> nat \<Rightarrow> nat \<Rightarrow> bytes" where
  "safestrcpy_loop 0 m s t = m(s := 0)"
| "safestrcpy_loop (Suc n) m s t =
     (let m' = m(s := m t) in if m t \<noteq> 0 then safestrcpy_loop n m' (s + 1) (t + 1) else m'(s + 1 := 0))"

definition safestrcpy :: "bytes \<Rightarrow> nat \<Rightarrow> nat \<Rightarrow> int \<Rightarrow> bytes" where
  "safestrcpy m s t n = (if n \<le> 0 then m else safestrcpy_loop (nat (n - 1)) m s t)"

text \<open>\<^verbatim>\<open>for(n = 0; s[n]; n++)\<close> ends only when there is a NUL.\<close>

partial_function (option) strlen_from :: "bytes \<Rightarrow> nat \<Rightarrow> nat \<Rightarrow> nat option" where
  "strlen_from m s n = (if m (s + n) = 0 then Some n else strlen_from m s (n + 1))"

definition strlen :: "bytes \<Rightarrow> nat \<Rightarrow> nat option" where
  "strlen m s = strlen_from m s 0"

subsection \<open>Blocks behave as blocks\<close>

lemma fill_bytes_0 [simp]: "fill_bytes 0 c m d = m"
  by (rule ext) (auto simp: fill_bytes_def)

lemma memset_from_fill: "i \<le> n \<Longrightarrow> memset_from i n c d m = fill_bytes (n - i) c m (d + i)"
proof (induction i n c d m rule: memset_from.induct)
  case (1 i n c d m)
  have "fill_bytes (n - Suc i) c (m(d + i := c)) (d + Suc i) = fill_bytes (n - i) c m (d + i)" if "i < n"
    using that by (auto simp: fill_bytes_def intro!: ext)
  then show ?case using 1 by (subst memset_from.simps) (simp del: fun_upd_apply)
qed

lemma memset_fill: "memset m dst c n = fill_bytes (unat n) (ucast c) m dst"
  by (simp add: memset_def memset_from_fill)

lemma uint_diff_zero [simp]: "uint a = uint b \<longleftrightarrow> a = b" "uint a = 0 \<longleftrightarrow> a = 0" for a b :: u8
  by (auto simp: word_eq_iff_unsigned [where ?'a = int])

lemma memcmp_loop_eq: "memcmp_loop n m s1 s2 = 0 \<longleftrightarrow> bytes_at m s1 n = bytes_at m s2 n"
  by (induction n arbitrary: s1 s2) (auto simp: bytes_at_Suc)

lemma move_up_copy: "d \<le> s \<or> s + n \<le> d \<Longrightarrow> move_up n m d s = copy_bytes n m s m d"
proof (induction n arbitrary: m d s)
  case (Suc n)
  then have "move_up n (m(d := m s)) (d + 1) (s + 1) = copy_bytes n (m(d := m s)) (s + 1) (m(d := m s)) (d + 1)"
    by (intro Suc.IH) auto
  moreover have "copy_bytes n (m(d := m s)) (s + 1) (m(d := m s)) (d + 1) = copy_bytes (Suc n) m s m d"
  proof
    fix x
    have "Suc (s + (x - Suc d)) = s + (x - d)" if "d < x" using that by simp
    then show "copy_bytes n (m(d := m s)) (s + 1) (m(d := m s)) (d + 1) x = copy_bytes (Suc n) m s m d x"
      using Suc.prems by (cases "d < x") (auto simp: copy_bytes_def)
  qed
  ultimately show ?case by simp
qed simp

lemma move_down_copy: "s \<le> d \<Longrightarrow> move_down n m (d + n) (s + n) = copy_bytes n m s m d"
proof (induction n arbitrary: m)
  case (Suc n)
  have "move_down (Suc n) m (d + Suc n) (s + Suc n) = move_down n (m(d + n := m (s + n))) (d + n) (s + n)"
    by (simp add: Let_def)
  also have "\<dots> = copy_bytes n (m(d + n := m (s + n))) s (m(d + n := m (s + n))) d" by (rule Suc.IH [OF Suc.prems])
  also have "\<dots> = copy_bytes (Suc n) m s m d"
    using Suc.prems by (auto simp: copy_bytes_def fun_eq_iff less_Suc_eq)
  finally show ?case .
qed simp

lemma memmove_copy: "memmove m dst src n = copy_bytes (unat n) m src m dst"
  by (auto simp: memmove_def move_down_copy intro!: move_up_copy)

lemma zero_rest_fill: "zero_rest n m s = fill_bytes n 0 m s"
  by (induction n arbitrary: m s) (auto simp: fill_bytes_def fun_eq_iff)

subsection \<open>Strings end at the first NUL\<close>

text \<open>\<open>cstring m s bs\<close>: a NUL-terminated string with the characters \<open>bs\<close> is at \<open>s\<close>.\<close>

definition cstring :: "bytes \<Rightarrow> nat \<Rightarrow> u8 list \<Rightarrow> bool" where
  "cstring m s bs \<longleftrightarrow> bytes_at m s (length bs) = bs \<and> 0 \<notin> set bs \<and> m (s + length bs) = 0"

lemma cstring_Nil: "cstring m s [] \<longleftrightarrow> m s = 0"
  by (simp add: cstring_def)

lemma cstring_Cons: "cstring m s (b # bs) \<longleftrightarrow> m s = b \<and> b \<noteq> 0 \<and> cstring m (Suc s) bs"
  by (auto simp: cstring_def bytes_at_Suc)

lemmas cstring_simps = cstring_Nil cstring_Cons

lemma strlen_from_cstring: "cstring m (s + k) bs \<Longrightarrow> strlen_from m s k = Some (k + length bs)"
proof (induction bs arbitrary: k)
  case (Cons b bs)
  then show ?case using Cons.IH [of "Suc k"] by (subst strlen_from.simps) (simp add: cstring_simps)
qed (simp add: strlen_from.simps cstring_simps)

lemma strncmp_loop_zero:
  "cstring m p as \<Longrightarrow> cstring m q bs \<Longrightarrow> strncmp_loop n m p q = 0 \<longleftrightarrow> take n as = take n bs"
proof (induction n arbitrary: p q as bs)
  case (Suc n)
  then show ?case using Suc.IH [of "Suc p" "tl as" "Suc q" "tl bs"]
    by (cases as; cases bs) (auto simp: cstring_simps)
qed simp

subsection \<open>Copying strings\<close>

lemma safestrcpy_loop_out: "a < s \<or> s + n < a \<Longrightarrow> safestrcpy_loop n m s t a = m a"
  by (induction n arbitrary: m s t) (auto simp: Let_def)

lemma safestrcpy_loop_cstring:
  "cstring m t bs \<Longrightarrow> s + n < t \<or> t + length bs < s \<Longrightarrow> cstring (safestrcpy_loop n m s t) s (take n bs)"
proof (induction n arbitrary: m s t bs)
  case (Suc n)
  show ?case
  proof (cases bs)
    case Nil
    then show ?thesis using Suc.prems by (simp add: cstring_simps)
  next
    case (Cons b bs')
    let ?m = "m(s := b)"
    have t: "m t = b" "b \<noteq> 0" "cstring m (Suc t) bs'" using Suc.prems(1) Cons by (simp_all add: cstring_simps)
    have ct: "cstring ?m (Suc t) bs'"
    proof -
      have "bytes_at ?m (Suc t) (length bs') = bytes_at m (Suc t) (length bs')"
        using Suc.prems(2) Cons by (intro bytes_at_cong) auto
      moreover have "?m (Suc t + length bs') = m (Suc t + length bs')" using Suc.prems(2) Cons by auto
      ultimately show ?thesis using t(3) by (simp add: cstring_def)
    qed
    have "cstring (safestrcpy_loop n ?m (s + 1) (t + 1)) (s + 1) (take n bs')"
      by (rule Suc.IH) (use ct Suc.prems(2) Cons in \<open>auto simp del: fun_upd_apply\<close>)
    moreover have "safestrcpy_loop n ?m (s + 1) (t + 1) s = b" by (subst safestrcpy_loop_out) auto
    ultimately show ?thesis using t Cons by (simp add: cstring_simps)
  qed
qed (simp add: cstring_simps)

subsection \<open>Properties\<close>

text \<open>\<^verbatim>\<open>memmove\<close> copies correctly for all buffers, overlapping or not: afterwards the destination holds what the
  source held before the call, and no byte outside the destination has changed.\<close>

theorem memmove_correct:
  "bytes_at (memmove m dst src n) dst (unat n) = bytes_at m src (unat n) \<and>
   (\<forall>a. dst \<le> a \<and> a < dst + unat n \<or> memmove m dst src n a = m a)"
  by (auto simp: memmove_copy copy_bytes_def bytes_at_def)

text \<open>\<^verbatim>\<open>safestrcpy\<close> always leaves a NUL-terminated string that fits the \<open>n\<close> bytes of the destination: the
  first \<open>n - 1\<close> characters of the source when it is longer, all of it otherwise; nothing outside those \<open>n\<close>
  bytes is written.\<close>

theorem safestrcpy_terminated:
  assumes "cstring m t bs" "0 < n" "s + nat n \<le> t \<or> t + length bs < s"
  shows "cstring (safestrcpy m s t n) s (take (nat n - 1) bs) \<and>
     (\<forall>a. s \<le> a \<and> a < s + nat n \<or> safestrcpy m s t n a = m a)"
proof -
  have k: "nat (n - 1) = nat n - 1" using assms(2) by simp
  have "cstring (safestrcpy_loop (nat n - 1) m s t) s (take (nat n - 1) bs)"
    using assms by (intro safestrcpy_loop_cstring) auto
  moreover have "safestrcpy_loop (nat n - 1) m s t a = m a" if "\<not> (s \<le> a \<and> a < s + nat n)" for a
    using that assms(2) by (intro safestrcpy_loop_out) auto
  ultimately show ?thesis using assms(2) k by (auto simp: safestrcpy_def)
qed

theorem safestrcpy_terminated_witness:
  "cstring (safestrcpy (store_list (\<lambda>_. 0) 100 [104, 101, 108]) 0 100 3) 0 (take (nat 3 - 1) [104, 101, 108]) \<and>
     (\<forall>a. 0 \<le> a \<and> a < 0 + nat 3 \<or>
        safestrcpy (store_list (\<lambda>_. 0) 100 [104, 101, 108]) 0 100 3 a = store_list (\<lambda>_. 0) 100 [104, 101, 108] a)"
  by (rule safestrcpy_terminated) (simp_all add: cstring_def mem_simps)

lemma strlen_cstring: "cstring m s bs \<Longrightarrow> strlen m s = Some (length bs)"
  using strlen_from_cstring [of m s 0 bs] by (simp add: strlen_def)

lemma memcmp_zero: "memcmp m v1 v2 n = 0 \<longleftrightarrow> bytes_at m v1 (unat n) = bytes_at m v2 (unat n)"
  by (simp add: memcmp_def memcmp_loop_eq)

lemma strncmp_zero:
  "cstring m p as \<Longrightarrow> cstring m q bs \<Longrightarrow> strncmp m p q n = 0 \<longleftrightarrow> take (unat n) as = take (unat n) bs"
  by (simp add: strncmp_def strncmp_loop_zero)

end
