(* ===== verification/Vm.thy ===== *)
theory Vm
  imports Prelude
begin

text \<open>
  Virtual memory (kernel/mem/vm.c, with the page-table macros of include/arch/riscv.h). Physical memory is
  split by use: page-table pages are arrays of 512 entries, all other pages are bytes, and the page
  allocator is the list of free pages (its contract is that of \<^verbatim>\<open>ufkalloc(PGSIZE)\<close>: a page that is not in
  use, or a panic). A pointer to an entry is the page it is in and its index.
\<close>

subsection \<open>Entries and addresses\<close>

definition PGSIZE :: nat where "PGSIZE = 4096"
definition MAXVA :: u64 where "MAXVA = push_bit 38 1"
definition PTE_V :: u64 where "PTE_V = 1"
definition PTE_R :: u64 where "PTE_R = 2"
definition PTE_W :: u64 where "PTE_W = 4"
definition PTE_X :: u64 where "PTE_X = 8"
definition PTE_U :: u64 where "PTE_U = 16"

lemmas pte_bits = PTE_V_def PTE_R_def PTE_W_def PTE_X_def PTE_U_def

definition PGROUNDUP :: "u64 \<Rightarrow> u64" where
  "PGROUNDUP sz = (sz + 4096 - 1) AND NOT (4096 - 1)"

definition PGROUNDDOWN :: "u64 \<Rightarrow> u64" where
  "PGROUNDDOWN a = a AND NOT (4096 - 1)"

definition PA2PTE :: "u64 \<Rightarrow> u64" where
  "PA2PTE pa = push_bit 10 (drop_bit 12 pa)"

definition PTE2PA :: "u64 \<Rightarrow> u64" where
  "PTE2PA pte = push_bit 12 (drop_bit 10 pte)"

definition PTE_FLAGS :: "u64 \<Rightarrow> u64" where
  "PTE_FLAGS pte = pte AND 0x3FF"

definition PX :: "nat \<Rightarrow> u64 \<Rightarrow> nat" where
  "PX level va = unat (drop_bit (12 + 9 * level) va AND 0x1FF)"

subsection \<open>Physical memory\<close>

type_synonym ptab = "nat \<Rightarrow> u64"

record pmem =
  pm_tabs :: "u64 \<rightharpoonup> ptab"
  pm_data :: bytes
  pm_free :: "u64 list"

text \<open>\<^verbatim>\<open>ufkalloc(PGSIZE)\<close> and \<^verbatim>\<open>ufkfree\<close> of a page; \<^verbatim>\<open>ufkalloc\<close> panics instead of returning 0.\<close>

definition page_alloc :: "pmem \<Rightarrow> (u64 \<times> pmem) kres" where
  "page_alloc pm =
     (case pm_free pm of
        [] \<Rightarrow> Panic ''[ufkalloc] could not allocate''
      | p # ps \<Rightarrow> Ret (p, pm\<lparr>pm_free := ps\<rparr>))"

definition page_free :: "pmem \<Rightarrow> u64 \<Rightarrow> pmem" where
  "page_free pm p = pm\<lparr>pm_tabs := (pm_tabs pm)(p := None), pm_free := p # pm_free pm\<rparr>"

definition get_pte :: "pmem \<Rightarrow> u64 \<times> nat \<Rightarrow> u64 kres" where
  "get_pte pm = (\<lambda>(t, i). case pm_tabs pm t of None \<Rightarrow> Fault | Some tab \<Rightarrow> Ret (tab i))"

definition set_pte :: "pmem \<Rightarrow> u64 \<times> nat \<Rightarrow> u64 \<Rightarrow> pmem" where
  "set_pte pm = (\<lambda>(t, i) v. pm\<lparr>pm_tabs := (pm_tabs pm)(t := map_option (\<lambda>tab. tab(i := v)) (pm_tabs pm t))\<rparr>)"

text \<open>A fresh page cleared for use as a page table, and as data.\<close>

definition clear_table :: "pmem \<Rightarrow> u64 \<Rightarrow> pmem" where
  "clear_table pm p = pm\<lparr>pm_tabs := (pm_tabs pm)(p \<mapsto> (\<lambda>_. 0))\<rparr>"

definition clear_page :: "pmem \<Rightarrow> u64 \<Rightarrow> pmem" where
  "clear_page pm p = pm\<lparr>pm_data := fill_bytes PGSIZE 0 (pm_data pm) (unat p)\<rparr>"

subsection \<open>Walking the page table\<close>

text \<open>The loop of \<^verbatim>\<open>walk\<close> from the given level down to 1, and the entry of level 0.\<close>

fun walk_from :: "nat \<Rightarrow> pmem \<Rightarrow> u64 \<Rightarrow> u64 \<Rightarrow> bool \<Rightarrow> ((u64 \<times> nat) option \<times> pmem) kres" where
  "walk_from 0 pm pagetable va alloc = Ret (Some (pagetable, PX 0 va), pm)"
| "walk_from (Suc l) pm pagetable va alloc =
     kbind (get_pte pm (pagetable, PX (Suc l) va)) (\<lambda>pte.
     if pte AND PTE_V \<noteq> 0 then walk_from l pm (PTE2PA pte) va alloc
     else if \<not> alloc then Ret (None, pm)
     else
       kbind (page_alloc pm) (\<lambda>(p, pm1).
       walk_from l (set_pte (clear_table pm1 p) (pagetable, PX (Suc l) va) (PA2PTE p OR PTE_V)) p va alloc))"

definition walk :: "pmem \<Rightarrow> u64 \<Rightarrow> u64 \<Rightarrow> bool \<Rightarrow> ((u64 \<times> nat) option \<times> pmem) kres" where
  "walk pm pagetable va alloc =
     (if MAXVA \<le> va then Panic ''walk'' else walk_from 2 pm pagetable va alloc)"

text \<open>The result 0 of the source is \<open>None\<close>; a page at physical address 0 does not exist.\<close>

definition walkaddr :: "pmem \<Rightarrow> u64 \<Rightarrow> u64 \<Rightarrow> u64 option kres" where
  "walkaddr pm pagetable va =
     (if MAXVA \<le> va then Ret None
      else
        kbind (walk pm pagetable va False) (\<lambda>(r, pm1).
        case r of
          None \<Rightarrow> Ret None
        | Some p \<Rightarrow>
            kbind (get_pte pm1 p) (\<lambda>pte.
            if pte AND PTE_V = 0 then Ret None
            else if pte AND PTE_U = 0 then Ret None
            else let pa = PTE2PA pte in Ret (if pa = 0 then None else Some pa))))"

text \<open>\<^verbatim>\<open>kvmpa\<close> on the kernel page table.\<close>

definition kvmpa :: "pmem \<Rightarrow> u64 \<Rightarrow> u64 \<Rightarrow> u64 kres" where
  "kvmpa pm kernel_pagetable va =
     (let off = va mod 4096 in
      kbind (walk pm kernel_pagetable va False) (\<lambda>(r, pm1).
      case r of
        None \<Rightarrow> Panic ''kvmpa''
      | Some p \<Rightarrow>
          kbind (get_pte pm1 p) (\<lambda>pte.
          if pte AND PTE_V = 0 then Panic ''kvmpa'' else Ret (PTE2PA pte + off))))"

subsection \<open>Mapping and unmapping\<close>

text \<open>
  The loops run from \<open>a\<close> to \<open>lst\<close> in steps of a page; the fuel is the number of pages of the address
  space below \<^const>\<open>MAXVA\<close> and one more, where \<^verbatim>\<open>walk\<close> panics.
\<close>

definition VA_PAGES :: nat where "VA_PAGES = 2 ^ 26"

fun mappages_loop :: "nat \<Rightarrow> pmem \<Rightarrow> u64 \<Rightarrow> u64 \<Rightarrow> u64 \<Rightarrow> u64 \<Rightarrow> u64 \<Rightarrow> (int \<times> pmem) kres" where
  "mappages_loop 0 pm pagetable a lst pa perm = Diverge"
| "mappages_loop (Suc fuel) pm pagetable a lst pa perm =
     kbind (walk pm pagetable a True) (\<lambda>(r, pm1).
     case r of
       None \<Rightarrow> Ret (- 1, pm1)
     | Some p \<Rightarrow>
         kbind (get_pte pm1 p) (\<lambda>pte.
         if pte AND PTE_V \<noteq> 0 then Panic ''remap''
         else
           let pm2 = set_pte pm1 p (PA2PTE pa OR perm OR PTE_V) in
           if a = lst then Ret (0, pm2)
           else mappages_loop fuel pm2 pagetable (a + 4096) lst (pa + 4096) perm))"

definition mappages :: "pmem \<Rightarrow> u64 \<Rightarrow> u64 \<Rightarrow> u64 \<Rightarrow> u64 \<Rightarrow> u64 \<Rightarrow> (int \<times> pmem) kres" where
  "mappages pm pagetable va sz pa perm =
     mappages_loop (Suc VA_PAGES) pm pagetable (PGROUNDDOWN va) (PGROUNDDOWN (va + sz - 1)) pa perm"

definition kvmmap :: "pmem \<Rightarrow> u64 \<Rightarrow> u64 \<Rightarrow> u64 \<Rightarrow> u64 \<Rightarrow> u64 \<Rightarrow> pmem kres" where
  "kvmmap pm kernel_pagetable va pa sz perm =
     kbind (mappages pm kernel_pagetable va sz pa perm) (\<lambda>(r, pm1).
     if r \<noteq> 0 then Panic ''kvmmap'' else Ret pm1)"

fun uvmunmap_loop :: "nat \<Rightarrow> pmem \<Rightarrow> u64 \<Rightarrow> u64 \<Rightarrow> u64 \<Rightarrow> bool \<Rightarrow> pmem kres" where
  "uvmunmap_loop 0 pm pagetable a lst do_free = Diverge"
| "uvmunmap_loop (Suc fuel) pm pagetable a lst do_free =
     kbind (walk pm pagetable a False) (\<lambda>(r, pm1).
     case r of
       None \<Rightarrow> Panic ''uvmunmap: walk''
     | Some p \<Rightarrow>
         kbind (get_pte pm1 p) (\<lambda>pte.
         if pte AND PTE_V = 0 then Panic ''uvmunmap: not mapped''
         else if PTE_FLAGS pte = PTE_V then Panic ''uvmunmap: not a leaf''
         else
           let pm2 = (if do_free then page_free pm1 (PTE2PA pte) else pm1);
               pm3 = set_pte pm2 p 0 in
           if a = lst then Ret pm3 else uvmunmap_loop fuel pm3 pagetable (a + 4096) lst do_free))"

definition uvmunmap :: "pmem \<Rightarrow> u64 \<Rightarrow> u64 \<Rightarrow> u64 \<Rightarrow> bool \<Rightarrow> pmem kres" where
  "uvmunmap pm pagetable va sz do_free =
     uvmunmap_loop (Suc VA_PAGES) pm pagetable (PGROUNDDOWN va) (PGROUNDDOWN (va + sz - 1)) do_free"

subsection \<open>Address spaces\<close>

definition uvmcreate :: "pmem \<Rightarrow> (u64 \<times> pmem) kres" where
  "uvmcreate pm = kbind (page_alloc pm) (\<lambda>(p, pm1). Ret (p, clear_table pm1 p))"

definition uvminit :: "pmem \<Rightarrow> u64 \<Rightarrow> u8 list \<Rightarrow> pmem kres" where
  "uvminit pm pagetable src =
     (if PGSIZE \<le> length src then Panic ''inituvm: more than a page''
      else
        kbind (page_alloc pm) (\<lambda>(mem, pm1).
        kbind (mappages (clear_page pm1 mem) pagetable 0 4096 mem (PTE_W OR PTE_R OR PTE_X OR PTE_U)) (\<lambda>(r, pm2).
        Ret (pm2\<lparr>pm_data := store_list (pm_data pm2) (unat mem) src\<rparr>))))"

definition uvmdealloc :: "pmem \<Rightarrow> u64 \<Rightarrow> u64 \<Rightarrow> u64 \<Rightarrow> (u64 \<times> pmem) kres" where
  "uvmdealloc pm pagetable oldsz newsz =
     (if oldsz \<le> newsz then Ret (oldsz, pm)
      else
        let newup = PGROUNDUP newsz in
        if newup < PGROUNDUP oldsz
        then kbind (uvmunmap pm pagetable newup (oldsz - newup) True) (\<lambda>pm1. Ret (newsz, pm1))
        else Ret (newsz, pm))"

fun uvmalloc_loop :: "nat \<Rightarrow> pmem \<Rightarrow> u64 \<Rightarrow> u64 \<Rightarrow> u64 \<Rightarrow> u64 \<Rightarrow> (u64 \<times> pmem) kres" where
  "uvmalloc_loop 0 pm pagetable a oldsz newsz = Diverge"
| "uvmalloc_loop (Suc fuel) pm pagetable a oldsz newsz =
     (if \<not> a < newsz then Ret (newsz, pm)
      else
        kbind (page_alloc pm) (\<lambda>(mem, pm1).
        kbind (mappages (clear_page pm1 mem) pagetable a 4096 mem (PTE_W OR PTE_X OR PTE_R OR PTE_U)) (\<lambda>(r, pm2).
        if r \<noteq> 0 then
          kbind (uvmdealloc (page_free pm2 mem) pagetable a oldsz) (\<lambda>(x, pm3). Ret (0, pm3))
        else uvmalloc_loop fuel pm2 pagetable (a + 4096) oldsz newsz)))"

definition uvmalloc :: "pmem \<Rightarrow> u64 \<Rightarrow> u64 \<Rightarrow> u64 \<Rightarrow> (u64 \<times> pmem) kres" where
  "uvmalloc pm pagetable oldsz newsz =
     (if newsz < oldsz then Ret (oldsz, pm)
      else let oldsz1 = PGROUNDUP oldsz in uvmalloc_loop (Suc VA_PAGES) pm pagetable oldsz1 oldsz1 newsz)"

text \<open>
  \<^verbatim>\<open>freewalk\<close>: \<open>depth\<close> bounds the nesting of the page tables (three levels in a well-formed table), \<open>n\<close> is the number of
  entries still to visit.
\<close>

fun freewalk_from :: "nat \<Rightarrow> nat \<Rightarrow> pmem \<Rightarrow> u64 \<Rightarrow> pmem kres" where
  "freewalk_from depth 0 pm pagetable = Ret (page_free pm pagetable)"
| "freewalk_from 0 (Suc n) pm pagetable = Diverge"
| "freewalk_from (Suc depth) (Suc n) pm pagetable =
     kbind (get_pte pm (pagetable, 511 - n)) (\<lambda>pte.
     if pte AND PTE_V \<noteq> 0 \<and> pte AND (PTE_R OR PTE_W OR PTE_X) = 0 then
       kbind (freewalk_from depth 512 pm (PTE2PA pte)) (\<lambda>pm1.
       freewalk_from (Suc depth) n (set_pte pm1 (pagetable, 511 - n) 0) pagetable)
     else if pte AND PTE_V \<noteq> 0 then Panic ''freewalk: leaf''
     else freewalk_from (Suc depth) n pm pagetable)"

definition freewalk :: "pmem \<Rightarrow> u64 \<Rightarrow> pmem kres" where
  "freewalk pm pagetable = freewalk_from 3 512 pm pagetable"

definition uvmfree :: "pmem \<Rightarrow> u64 \<Rightarrow> u64 \<Rightarrow> pmem kres" where
  "uvmfree pm pagetable sz = kbind (uvmunmap pm pagetable 0 sz True) (\<lambda>pm1. freewalk pm1 pagetable)"

fun uvmcopy_loop :: "nat \<Rightarrow> pmem \<Rightarrow> u64 \<Rightarrow> u64 \<Rightarrow> u64 \<Rightarrow> u64 \<Rightarrow> (int \<times> pmem) kres" where
  "uvmcopy_loop 0 pm old new i sz = Diverge"
| "uvmcopy_loop (Suc fuel) pm old new i sz =
     (if \<not> i < sz then Ret (0, pm)
      else
        kbind (walk pm old i False) (\<lambda>(r, pm1).
        case r of
          None \<Rightarrow> Panic ''uvmcopy: pte should exist''
        | Some p \<Rightarrow>
            kbind (get_pte pm1 p) (\<lambda>pte.
            if pte AND PTE_V = 0 then Panic ''uvmcopy: page not present''
            else
              let pa = PTE2PA pte; flags = PTE_FLAGS pte in
              kbind (page_alloc pm1) (\<lambda>(mem, pm2).
              let pm3 = pm2\<lparr>pm_data := copy_bytes PGSIZE (pm_data pm2) (unat pa) (pm_data pm2) (unat mem)\<rparr> in
              kbind (mappages pm3 new i 4096 mem flags) (\<lambda>(r, pm4).
              if r \<noteq> 0 then kbind (uvmunmap (page_free pm4 mem) new 0 i True) (\<lambda>pm5. Ret (- 1, pm5))
              else uvmcopy_loop fuel pm4 old new (i + 4096) sz)))))"

definition uvmcopy :: "pmem \<Rightarrow> u64 \<Rightarrow> u64 \<Rightarrow> u64 \<Rightarrow> (int \<times> pmem) kres" where
  "uvmcopy pm old new sz = uvmcopy_loop (Suc VA_PAGES) pm old new 0 sz"

definition uvmclear :: "pmem \<Rightarrow> u64 \<Rightarrow> u64 \<Rightarrow> pmem kres" where
  "uvmclear pm pagetable va =
     kbind (walk pm pagetable va False) (\<lambda>(r, pm1).
     case r of
       None \<Rightarrow> Panic ''uvmclear''
     | Some p \<Rightarrow> kbind (get_pte pm1 p) (\<lambda>pte. Ret (set_pte pm1 p (pte AND NOT PTE_U))))"

subsection \<open>Copying between kernel and user memory\<close>

text \<open>
  The kernel buffer is the list of its bytes; the loop takes the part of the page at \<open>dstva\<close> that the
  rest of the buffer covers. Each turn but the first starts at a page boundary, so that the length of
  the buffer is fuel enough.
\<close>

fun copyout_loop :: "nat \<Rightarrow> pmem \<Rightarrow> u64 \<Rightarrow> u64 \<Rightarrow> u8 list \<Rightarrow> (int \<times> pmem) kres" where
  "copyout_loop 0 pm pagetable dstva src = (if src = [] then Ret (0, pm) else Diverge)"
| "copyout_loop (Suc fuel) pm pagetable dstva src =
     (if src = [] then Ret (0, pm)
      else
        let va0 = PGROUNDDOWN dstva in
        kbind (walkaddr pm pagetable va0) (\<lambda>r.
        case r of
          None \<Rightarrow> Ret (- 1, pm)
        | Some pa0 \<Rightarrow>
            let n = min (PGSIZE - unat (dstva - va0)) (length src);
                pm1 = pm\<lparr>pm_data := store_list (pm_data pm) (unat pa0 + unat (dstva - va0)) (take n src)\<rparr> in
            copyout_loop fuel pm1 pagetable (va0 + 4096) (drop n src)))"

definition copyout :: "pmem \<Rightarrow> u64 \<Rightarrow> u64 \<Rightarrow> u8 list \<Rightarrow> (int \<times> pmem) kres" where
  "copyout pm pagetable dstva src = copyout_loop (length src) pm pagetable dstva src"

text \<open>The bytes copied into the kernel buffer, also those before a failure.\<close>

fun copyin_loop :: "nat \<Rightarrow> pmem \<Rightarrow> u64 \<Rightarrow> u64 \<Rightarrow> nat \<Rightarrow> (int \<times> u8 list) kres" where
  "copyin_loop 0 pm pagetable srcva len = (if len = 0 then Ret (0, []) else Diverge)"
| "copyin_loop (Suc fuel) pm pagetable srcva len =
     (if len = 0 then Ret (0, [])
      else
        let va0 = PGROUNDDOWN srcva in
        kbind (walkaddr pm pagetable va0) (\<lambda>r.
        case r of
          None \<Rightarrow> Ret (- 1, [])
        | Some pa0 \<Rightarrow>
            let n = min (PGSIZE - unat (srcva - va0)) len;
                bs = bytes_at (pm_data pm) (unat pa0 + unat (srcva - va0)) n in
            kbind (copyin_loop fuel pm pagetable (va0 + 4096) (len - n)) (\<lambda>(res, rest). Ret (res, bs @ rest))))"

definition copyin :: "pmem \<Rightarrow> u64 \<Rightarrow> u64 \<Rightarrow> nat \<Rightarrow> (int \<times> u8 list) kres" where
  "copyin pm pagetable srcva len = copyin_loop len pm pagetable srcva len"

text \<open>The inner loop of \<^verbatim>\<open>copyinstr\<close>: bytes of one page up to a NUL; the flag is \<^verbatim>\<open>got_null\<close>.\<close>

fun take_until_null :: "u8 list \<Rightarrow> bool \<times> u8 list" where
  "take_until_null [] = (False, [])"
| "take_until_null (b # bs) =
     (if b = 0 then (True, [0]) else (case take_until_null bs of (g, r) \<Rightarrow> (g, b # r)))"

fun copyinstr_loop :: "nat \<Rightarrow> pmem \<Rightarrow> u64 \<Rightarrow> u64 \<Rightarrow> nat \<Rightarrow> (int \<times> u8 list) kres" where
  "copyinstr_loop 0 pm pagetable srcva mx = (if mx = 0 then Ret (- 1, []) else Diverge)"
| "copyinstr_loop (Suc fuel) pm pagetable srcva mx =
     (if mx = 0 then Ret (- 1, [])
      else
        let va0 = PGROUNDDOWN srcva in
        kbind (walkaddr pm pagetable va0) (\<lambda>r.
        case r of
          None \<Rightarrow> Ret (- 1, [])
        | Some pa0 \<Rightarrow>
            let n = min (PGSIZE - unat (srcva - va0)) mx in
            (case take_until_null (bytes_at (pm_data pm) (unat pa0 + unat (srcva - va0)) n) of
               (True, bs) \<Rightarrow> Ret (0, bs)
             | (False, bs) \<Rightarrow>
                 kbind (copyinstr_loop fuel pm pagetable (va0 + 4096) (mx - n)) (\<lambda>(res, rest). Ret (res, bs @ rest)))))"

definition copyinstr :: "pmem \<Rightarrow> u64 \<Rightarrow> u64 \<Rightarrow> nat \<Rightarrow> (int \<times> u8 list) kres" where
  "copyinstr pm pagetable srcva mx = copyinstr_loop mx pm pagetable srcva mx"

subsection \<open>Entries hold addresses\<close>

definition page_aligned :: "u64 \<Rightarrow> bool" where
  "page_aligned p \<longleftrightarrow> p AND mask 12 = 0"

lemma page_aligned_bit: "page_aligned p \<Longrightarrow> n < 12 \<Longrightarrow> \<not> bit p n"
  using bit_and_iff [of p "mask 12" n] by (simp add: page_aligned_def bit_simps)

lemma PTE2PA_PA2PTE: "page_aligned p \<Longrightarrow> f AND NOT 0x3FF = 0 \<Longrightarrow> PTE2PA (PA2PTE p OR f) = p"
proof (rule bit_word_eqI)
  fix n assume n: "n < LENGTH(64)" and p: "page_aligned p" and f: "f AND NOT 0x3FF = 0"
  have "\<not> bit f k" if "10 \<le> k" for k
  proof -
    have "bit (f AND NOT (mask 10)) k = False" using f by (simp add: mask_eq_exp_minus_1)
    then show ?thesis using that by (simp add: bit_simps) (use bit_imp_le_length in fastforce)
  qed
  then show "bit (PTE2PA (PA2PTE p OR f)) n = bit p n"
    using n page_aligned_bit [OF p, of n]
    by (cases "n < 12") (auto simp: PTE2PA_def PA2PTE_def bit_simps)
qed

lemma pte_valid: "(x OR PTE_V) AND PTE_V \<noteq> 0" "(x OR (y OR PTE_V)) AND PTE_V \<noteq> 0"
proof -
  have "bit ((z OR PTE_V) AND PTE_V) 0" for z :: u64 by (simp add: PTE_V_def bit_simps)
  then show "(x OR PTE_V) AND PTE_V \<noteq> 0" "(x OR (y OR PTE_V)) AND PTE_V \<noteq> 0"
    by (metis bit_0_eq bot_apply bot_bool_def or.assoc)+
qed

lemma PX_less: "PX l va < 512"
proof -
  have "unat (drop_bit (12 + 9 * l) va AND mask 9) < 2 ^ 9" by (simp only: unat_and_mask) simp
  then show ?thesis by (simp add: PX_def mask_eq_exp_minus_1)
qed

subsection \<open>Page tables as trees\<close>

text \<open>
  \<open>ptree l h pt T\<close>: the page at \<open>pt\<close> is a page table of level \<open>l\<close> whose table pages, \<open>T\<close>, are live and
  pairwise different. \<open>lookup l h pt va\<close> is the leaf entry for \<open>va\<close>; an absent subtree counts as a zero entry.
\<close>

primrec ptree :: "nat \<Rightarrow> (u64 \<rightharpoonup> ptab) \<Rightarrow> u64 \<Rightarrow> u64 set \<Rightarrow> bool" where
  "ptree 0 h pt T \<longleftrightarrow> h pt \<noteq> None \<and> T = {pt}"
| "ptree (Suc l) h pt T \<longleftrightarrow>
     (\<exists>t C. h pt = Some t \<and> T = insert pt (\<Union>i<512. C i) \<and>
        (\<forall>i<512. pt \<notin> C i \<and> (if t i AND PTE_V \<noteq> 0 then ptree l h (PTE2PA (t i)) (C i) else C i = {})) \<and>
        (\<forall>i<512. \<forall>j<512. i \<noteq> j \<longrightarrow> C i \<inter> C j = {}))"

primrec lookup :: "nat \<Rightarrow> (u64 \<rightharpoonup> ptab) \<Rightarrow> u64 \<Rightarrow> u64 \<Rightarrow> u64 option" where
  "lookup 0 h pt va = map_option (\<lambda>t. t (PX 0 va)) (h pt)"
| "lookup (Suc l) h pt va =
     (case h pt of
        None \<Rightarrow> None
      | Some t \<Rightarrow> let e = t (PX (Suc l) va) in
          if e AND PTE_V \<noteq> 0 then lookup l h (PTE2PA e) va else Some 0)"

primrec same_slot :: "nat \<Rightarrow> u64 \<Rightarrow> u64 \<Rightarrow> bool" where
  "same_slot 0 va va' \<longleftrightarrow> PX 0 va = PX 0 va'"
| "same_slot (Suc l) va va' \<longleftrightarrow> PX (Suc l) va = PX (Suc l) va' \<and> same_slot l va va'"

lemma ptree_root: "ptree l h pt T \<Longrightarrow> pt \<in> T \<and> h pt \<noteq> None"
  by (cases l) auto

lemma ptree_frame: "ptree l h pt T \<Longrightarrow> (\<And>x. x \<in> T \<Longrightarrow> h' x = h x) \<Longrightarrow> ptree l h' pt T"
proof (induction l arbitrary: pt T)
  case (Suc l)
  then obtain t C where t: "h pt = Some t" "T = insert pt (\<Union>i<512. C i)"
    "\<forall>i<512. pt \<notin> C i \<and> (if t i AND PTE_V \<noteq> 0 then ptree l h (PTE2PA (t i)) (C i) else C i = {})"
    "\<forall>i<512. \<forall>j<512. i \<noteq> j \<longrightarrow> C i \<inter> C j = {}" by auto
  have "ptree l h' (PTE2PA (t i)) (C i)" if "i < 512" "t i AND PTE_V \<noteq> 0" for i
    using that t by (intro Suc.IH [of _ "C i"] Suc.prems(2)) auto
  moreover have "h' pt = Some t" using Suc.prems(2) t(1,2) by simp
  ultimately have "\<forall>i<512. pt \<notin> C i \<and> (if t i AND PTE_V \<noteq> 0 then ptree l h' (PTE2PA (t i)) (C i) else C i = {})"
    using t(3) by presburger
  then show ?case unfolding ptree.simps using \<open>h' pt = Some t\<close> t(2,4) by blast
qed auto

lemma lookup_frame: "ptree l h pt T \<Longrightarrow> (\<And>x. x \<in> T \<Longrightarrow> h' x = h x) \<Longrightarrow> lookup l h' pt va = lookup l h pt va"
proof (induction l arbitrary: pt T)
  case (Suc l)
  then obtain t C where t: "h pt = Some t" "T = insert pt (\<Union>i<512. C i)"
    "\<forall>i<512. pt \<notin> C i \<and> (if t i AND PTE_V \<noteq> 0 then ptree l h (PTE2PA (t i)) (C i) else C i = {})" by auto
  let ?i = "PX (Suc l) va"
  have "lookup l h' (PTE2PA (t ?i)) va = lookup l h (PTE2PA (t ?i)) va" if "t ?i AND PTE_V \<noteq> 0"
    using that t PX_less [of "Suc l" va] by (intro Suc.IH [of _ "C ?i"] Suc.prems(2)) auto
  moreover have "h' pt = Some t" using Suc.prems(2) t(1,2) by simp
  ultimately show ?case using t(1) by (simp add: Let_def)
qed auto

lemma ptree_zero: "h p = Some (\<lambda>_. 0) \<Longrightarrow> ptree l h p {p}"
  by (cases l) (auto intro!: exI [of _ "\<lambda>_. 0"] exI [of _ "\<lambda>_. {}"])

lemma lookup_zero: "h p = Some (\<lambda>_. 0) \<Longrightarrow> lookup l h p va = Some 0"
  by (cases l) simp_all

text \<open>Replacing one subtree of a table by another one that uses no page of its siblings.\<close>

lemma ptree_graft:
  assumes t: "h pt = Some t" "\<forall>i<512. pt \<notin> C i \<and> (if t i AND PTE_V \<noteq> 0 then ptree l h (PTE2PA (t i)) (C i) else C i = {})"
      "\<forall>i<512. \<forall>j<512. i \<noteq> j \<longrightarrow> C i \<inter> C j = {}"
    and h': "h' pt = Some (t(i := e))" "e AND PTE_V \<noteq> 0" "ptree l h' (PTE2PA e) D" "i < 512"
      "pt \<notin> D" "\<And>j. j < 512 \<Longrightarrow> j \<noteq> i \<Longrightarrow> D \<inter> C j = {}" "\<And>x. x \<notin> D \<Longrightarrow> x \<noteq> pt \<Longrightarrow> h' x = h x"
  shows "ptree (Suc l) h' pt (insert pt (D \<union> (\<Union>j\<in>{..<512} - {i}. C j)))"
    and "lookup (Suc l) h' pt va = (if PX (Suc l) va = i then lookup l h' (PTE2PA e) va else lookup (Suc l) h pt va)"
proof -
  have sib: "h' x = h x" if "x \<in> C j" "j < 512" "j \<noteq> i" for x j
    using h'(6) [OF that(2,3)] that t(2) by (intro h'(7)) auto
  have fr: "ptree l h' (PTE2PA (t j)) (C j)" if "j < 512" "j \<noteq> i" "t j AND PTE_V \<noteq> 0" for j
  proof (rule ptree_frame)
    show "ptree l h (PTE2PA (t j)) (C j)" using t(2) that by presburger
    show "h' x = h x" if "x \<in> C j" for x by (rule sib) (use that \<open>j < 512\<close> \<open>j \<noteq> i\<close> in simp_all)
  qed
  show "ptree (Suc l) h' pt (insert pt (D \<union> (\<Union>j\<in>{..<512} - {i}. C j)))"
    unfolding ptree.simps
  proof (intro exI conjI allI impI)
    show "h' pt = Some (t(i := e))" by (rule h'(1))
    show "insert pt (D \<union> (\<Union>j\<in>{..<512} - {i}. C j)) = insert pt (\<Union>j<512. (C(i := D)) j)" using h'(4) by auto
  next
    fix j :: nat assume j: "j < 512"
    show "pt \<notin> (C(i := D)) j" using j t(2) h'(5) by simp
    show "if (t(i := e)) j AND PTE_V \<noteq> 0 then ptree l h' (PTE2PA ((t(i := e)) j)) ((C(i := D)) j) else (C(i := D)) j = {}"
      using j fr [of j] t(2) h'(2,3) by auto
  next
    fix j k :: nat assume "j < 512" "k < 512" "j \<noteq> k"
    then show "(C(i := D)) j \<inter> (C(i := D)) k = {}" using t(3) h'(6) by auto
  qed
  have "lookup l h' (PTE2PA (t (PX (Suc l) va))) va = lookup l h (PTE2PA (t (PX (Suc l) va))) va"
    if v: "PX (Suc l) va \<noteq> i" "t (PX (Suc l) va) AND PTE_V \<noteq> 0"
  proof (rule lookup_frame)
    show "ptree l h (PTE2PA (t (PX (Suc l) va))) (C (PX (Suc l) va))" using t(2) v PX_less by presburger
    show "h' x = h x" if "x \<in> C (PX (Suc l) va)" for x by (rule sib [OF that PX_less v(1)])
  qed
  then show "lookup (Suc l) h' pt va = (if PX (Suc l) va = i then lookup l h' (PTE2PA e) va else lookup (Suc l) h pt va)"
    using t(1) h'(1,2) by (auto simp: Let_def)
qed

subsection \<open>Walking with allocation\<close>

text \<open>The page-table store with entry \<open>i\<close> of table \<open>t\<close> replaced.\<close>

definition upd_tab :: "(u64 \<rightharpoonup> ptab) \<Rightarrow> u64 \<Rightarrow> nat \<Rightarrow> u64 \<Rightarrow> (u64 \<rightharpoonup> ptab)" where
  "upd_tab h t i v = h(t := map_option (\<lambda>tab. tab(i := v)) (h t))"

lemma set_pte_tabs: "set_pte pm (t, i) v = pm\<lparr>pm_tabs := upd_tab (pm_tabs pm) t i v\<rparr>"
  by (simp add: set_pte_def upd_tab_def)

lemma upd_tab_other: "x \<noteq> t \<Longrightarrow> upd_tab h t i v x = h x"
  by (simp add: upd_tab_def)

text \<open>
  \<open>walked l pm pt va T t pm' T'\<close>: the walk for \<open>va\<close> took page tables from the free list only, changed no
  translation, ended at table \<open>t\<close>, and writing entry \<open>PX 0 va\<close> of \<open>t\<close> changes the translation of
  the page of \<open>va\<close> and of no other.
\<close>

definition walked :: "nat \<Rightarrow> pmem \<Rightarrow> u64 \<Rightarrow> u64 \<Rightarrow> u64 set \<Rightarrow> u64 \<Rightarrow> pmem \<Rightarrow> u64 set \<Rightarrow> bool" where
  "walked l pm pt va T t pm' T' \<longleftrightarrow>
     t \<in> T' \<and> ptree l (pm_tabs pm') pt T' \<and> T \<subseteq> T' \<and> T' \<subseteq> T \<union> (set (pm_free pm) - set (pm_free pm')) \<and>
     (\<exists>k\<le>l. pm_free pm' = drop k (pm_free pm)) \<and> pm_data pm' = pm_data pm \<and>
     (\<forall>x. x \<notin> T' \<longrightarrow> pm_tabs pm' x = pm_tabs pm x) \<and>
     (\<forall>va'. lookup l (pm_tabs pm') pt va' = lookup l (pm_tabs pm) pt va') \<and>
     (\<forall>v. ptree l (upd_tab (pm_tabs pm') t (PX 0 va) v) pt T' \<and>
        (\<forall>va'. lookup l (upd_tab (pm_tabs pm') t (PX 0 va) v) pt va' =
           (if same_slot l va va' then Some v else lookup l (pm_tabs pm) pt va')))"

lemma walked_0:
  assumes "ptree 0 (pm_tabs pm) pt T"
  shows "walked 0 pm pt va T pt pm T"
  using assms by (auto simp: walked_def upd_tab_def)

lemma walked_graft:
  assumes t: "pm_tabs pm pt = Some t" "\<forall>i<512. pt \<notin> C i \<and> (if t i AND PTE_V \<noteq> 0 then ptree l (pm_tabs pm) (PTE2PA (t i)) (C i) else C i = {})"
      "\<forall>i<512. \<forall>j<512. i \<noteq> j \<longrightarrow> C i \<inter> C j = {}"
    and i: "i = PX (Suc l) va" and e: "e AND PTE_V \<noteq> 0"
    and pm1: "pm_tabs pma pt = Some (t(i := e))" "pt \<notin> Da" "\<And>j. j < 512 \<Longrightarrow> j \<noteq> i \<Longrightarrow> Da \<inter> C j = {}"
      "\<And>x. x \<notin> Da \<Longrightarrow> x \<noteq> pt \<Longrightarrow> pm_tabs pma x = pm_tabs pm x"
      "\<And>va'. PX (Suc l) va' = i \<Longrightarrow> lookup l (pm_tabs pma) (PTE2PA e) va' = lookup (Suc l) (pm_tabs pm) pt va'"
      "C i \<subseteq> Da" "Da \<subseteq> C i \<union> (set (pm_free pm) - set (pm_free pma))" "\<exists>k\<le>Suc 0. pm_free pma = drop k (pm_free pm)"
      "pm_data pma = pm_data pm"
    and free: "set (pm_free pm) \<inter> insert pt (\<Union>j<512. C j) = {}"
    and w: "walked l pma (PTE2PA e) va Da tt pm' D"
  shows "walked (Suc l) pm pt va (insert pt (\<Union>j<512. C j)) tt pm' (insert pt (D \<union> (\<Union>j\<in>{..<512} - {i}. C j)))"
proof -
  have i512: "i < 512" using i PX_less by simp
  have fr1: "set (pm_free pma) \<subseteq> set (pm_free pm)" using pm1(8) set_drop_subset by fastforce
  have D: "Da \<subseteq> D" "D \<subseteq> Da \<union> (set (pm_free pma) - set (pm_free pm'))" "tt \<in> D" "ptree l (pm_tabs pm') (PTE2PA e) D"
    using w by (auto simp: walked_def)
  have ptD: "pt \<notin> D" using D(2) pm1(2) fr1 free by auto
  have sib: "D \<inter> C j = {}" if "j < 512" "j \<noteq> i" for j
    using D(2) pm1(3) [OF that] fr1 free that by fastforce
  have out: "pm_tabs pm' x = pm_tabs pm x" if "x \<notin> D" "x \<noteq> pt" for x
    using w that pm1(4) D(1) by (auto simp: walked_def)
  have root: "pm_tabs pm' pt = Some (t(i := e))" using w ptD pm1(1) by (auto simp: walked_def)
  note g = ptree_graft [OF t root e D(4) i512 ptD sib out]
  have lk: "lookup l (pm_tabs pm') (PTE2PA e) va' = lookup (Suc l) (pm_tabs pm) pt va'" if "PX (Suc l) va' = i" for va'
    using w pm1(5) [OF that] by (simp add: walked_def)
  have upd: "ptree (Suc l) (upd_tab (pm_tabs pm') tt (PX 0 va) v) pt (insert pt (D \<union> (\<Union>j\<in>{..<512} - {i}. C j)))"
    "lookup (Suc l) (upd_tab (pm_tabs pm') tt (PX 0 va) v) pt va' =
       (if same_slot (Suc l) va va' then Some v else lookup (Suc l) (pm_tabs pm) pt va')" for v va'
  proof -
    let ?h = "upd_tab (pm_tabs pm') tt (PX 0 va) v"
    have r: "?h pt = Some (t(i := e))" using root ptD D(3) upd_tab_other by metis
    have o: "?h x = pm_tabs pm x" if "x \<notin> D" "x \<noteq> pt" for x using that out [OF that] D(3) upd_tab_other by metis
    have p: "ptree l ?h (PTE2PA e) D" using w by (simp add: walked_def)
    note g' = ptree_graft [OF t r e p i512 ptD sib o]
    show "ptree (Suc l) ?h pt (insert pt (D \<union> (\<Union>j\<in>{..<512} - {i}. C j)))" by (rule g'(1))
    have "lookup l ?h (PTE2PA e) va' = (if same_slot l va va' then Some v else lookup l (pm_tabs pma) (PTE2PA e) va')"
      using w by (simp add: walked_def)
    then show "lookup (Suc l) ?h pt va' = (if same_slot (Suc l) va va' then Some v else lookup (Suc l) (pm_tabs pm) pt va')"
      using g'(2) [of va'] i pm1(5) [of va'] by (auto simp del: lookup.simps)
  qed
  obtain k1 k2 where k: "k1 \<le> l" "pm_free pm' = drop k1 (pm_free pma)" "k2 \<le> Suc 0" "pm_free pma = drop k2 (pm_free pm)"
    using w pm1(8) by (auto simp: walked_def)
  then have fk: "\<exists>k\<le>Suc l. pm_free pm' = drop k (pm_free pm)" by (intro exI [of _ "k1 + k2"]) (auto simp: drop_drop)
  have Dsub: "D \<subseteq> C i \<union> (set (pm_free pm) - set (pm_free pm'))"
  proof -
    have "set (pm_free pm') \<subseteq> set (pm_free pma)" using k(2) set_drop_subset by fastforce
    then show ?thesis using D(2) pm1(7) fr1 by blast
  qed
  show ?thesis unfolding walked_def
  proof (intro conjI allI impI)
    show "tt \<in> insert pt (D \<union> (\<Union>j\<in>{..<512} - {i}. C j))" using D(3) by simp
    show "ptree (Suc l) (pm_tabs pm') pt (insert pt (D \<union> (\<Union>j\<in>{..<512} - {i}. C j)))" by (rule g(1))
    show "insert pt (\<Union>j<512. C j) \<subseteq> insert pt (D \<union> (\<Union>j\<in>{..<512} - {i}. C j))"
      using pm1(6) D(1) by auto
    show "insert pt (D \<union> (\<Union>j\<in>{..<512} - {i}. C j)) \<subseteq> insert pt (\<Union>j<512. C j) \<union> (set (pm_free pm) - set (pm_free pm'))"
      using Dsub i512 by auto
    show "\<exists>k\<le>Suc l. pm_free pm' = drop k (pm_free pm)" by (rule fk)
    show "pm_data pm' = pm_data pm" using w pm1(9) by (simp add: walked_def)
    show "pm_tabs pm' x = pm_tabs pm x" if "x \<notin> insert pt (D \<union> (\<Union>j\<in>{..<512} - {i}. C j))" for x
      using that out by auto
    show "lookup (Suc l) (pm_tabs pm') pt va' = lookup (Suc l) (pm_tabs pm) pt va'" for va'
      using g(2) [of va'] lk by (auto simp del: lookup.simps)
  qed (fact upd)+
qed

lemma walk_from_alloc:
  assumes "ptree l (pm_tabs pm) pt T" "\<forall>p\<in>set (pm_free pm). page_aligned p" "distinct (pm_free pm)"
    "set (pm_free pm) \<inter> T = {}" "l \<le> length (pm_free pm)"
  shows "\<exists>t pm' T'. walk_from l pm pt va True = Ret (Some (t, PX 0 va), pm') \<and> walked l pm pt va T t pm' T'"
  using assms
proof (induction l arbitrary: pm pt T)
  case 0
  then show ?case using walked_0 [OF 0(1)] unfolding walk_from.simps by blast
next
  case (Suc l)
  obtain t C where t: "pm_tabs pm pt = Some t" "T = insert pt (\<Union>i<512. C i)"
    "\<forall>i<512. pt \<notin> C i \<and> (if t i AND PTE_V \<noteq> 0 then ptree l (pm_tabs pm) (PTE2PA (t i)) (C i) else C i = {})"
    "\<forall>i<512. \<forall>j<512. i \<noteq> j \<longrightarrow> C i \<inter> C j = {}" using Suc.prems(1) by auto
  define i where "i = PX (Suc l) va"
  have i512: "i < 512" using i_def PX_less by simp
  have free: "set (pm_free pm) \<inter> insert pt (\<Union>j<512. C j) = {}" using Suc.prems(4) t(2) by simp
  show ?case
  proof (cases "t i AND PTE_V \<noteq> 0")
    case True
    have sub: "ptree l (pm_tabs pm) (PTE2PA (t i)) (C i)" using t(3) i512 True by auto
    have "set (pm_free pm) \<inter> C i = {}" using free i512 by auto
    then obtain tt pm' D where w: "walk_from l pm (PTE2PA (t i)) va True = Ret (Some (tt, PX 0 va), pm')"
      "walked l pm (PTE2PA (t i)) va (C i) tt pm' D"
      using Suc.IH [OF sub Suc.prems(2,3)] Suc.prems(5) by auto
    have "walked (Suc l) pm pt va T tt pm' (insert pt (D \<union> (\<Union>j\<in>{..<512} - {i}. C j)))"
      unfolding t(2)
      by (rule walked_graft [OF t(1,3,4) i_def True, where pma = pm and Da = "C i"])
        (use t i512 free w(2) True in \<open>auto simp: Let_def i_def intro: exI [of _ 0]\<close>)
    then show ?thesis using w(1) True t(1) i_def by (auto simp: get_pte_def)
  next
    case False
    then obtain p ps where f: "pm_free pm = p # ps" using Suc.prems(5) by (cases "pm_free pm") auto
    have ci: "C i = {}" using t(3) i512 False by auto
    have p: "page_aligned p" "p \<notin> insert pt (\<Union>j<512. C j)" "p \<notin> set ps" "p \<noteq> pt"
      using Suc.prems(2,3) free f by auto
    let ?e = "PA2PTE p OR PTE_V"
    have e: "?e AND PTE_V \<noteq> 0" "PTE2PA ?e = p" using pte_valid p(1) by (auto intro!: PTE2PA_PA2PTE simp: PTE_V_def)
    define pm1 where "pm1 = set_pte (clear_table (pm\<lparr>pm_free := ps\<rparr>) p) (pt, i) ?e"
    have h1: "pm_tabs pm1 pt = Some (t(i := ?e))" "pm_tabs pm1 p = Some (\<lambda>_. 0)" "pm_free pm1 = ps" "pm_data pm1 = pm_data pm"
      "\<And>x. x \<notin> {p} \<Longrightarrow> x \<noteq> pt \<Longrightarrow> pm_tabs pm1 x = pm_tabs pm x"
      using t(1) p(4) by (simp_all add: pm1_def set_pte_def clear_table_def)
    have "ptree l (pm_tabs pm1) p {p}" by (rule ptree_zero) (rule h1(2))
    moreover have "set ps \<inter> {p} = {}" using p(3) by simp
    ultimately obtain tt pm' D where w: "walk_from l pm1 p va True = Ret (Some (tt, PX 0 va), pm')"
      "walked l pm1 p va {p} tt pm' D"
      using Suc.IH [of pm1 p "{p}"] Suc.prems(2,3,5) f h1(3) by auto
    have "walked (Suc l) pm pt va T tt pm' (insert pt (D \<union> (\<Union>j\<in>{..<512} - {i}. C j)))"
      unfolding t(2)
    proof (rule walked_graft [OF t(1,3,4) i_def e(1) h1(1), where Da = "{p}"])
      show "pm_tabs pm1 x = pm_tabs pm x" if "x \<notin> {p}" "x \<noteq> pt" for x by (rule h1(5) [OF that])
      show "lookup l (pm_tabs pm1) (PTE2PA ?e) va' = lookup (Suc l) (pm_tabs pm) pt va'" if "PX (Suc l) va' = i" for va'
        using that False t(1) lookup_zero [of "pm_tabs pm1" p l va', OF h1(2)] by (simp add: e(2))
      show "\<exists>k\<le>Suc 0. pm_free pm1 = drop k (pm_free pm)" using f h1(3) by (intro exI [of _ 1]) simp
    qed (use p f h1(3,4) ci w(2) free in \<open>auto simp: e(2)\<close>)
    moreover have "walk_from (Suc l) pm pt va True = walk_from l pm1 p va True"
      using False t(1) f by (simp add: get_pte_def i_def page_alloc_def pm1_def)
    ultimately show ?thesis using w(1) by auto
  qed
qed

subsection \<open>Translation of addresses\<close>

lemma walk_from_look:
  assumes "ptree l (pm_tabs pm) pt T"
  shows "\<exists>r. walk_from l pm pt va False = Ret (r, pm) \<and>
     (case r of None \<Rightarrow> lookup l (pm_tabs pm) pt va = Some 0
      | Some p \<Rightarrow> \<exists>v. get_pte pm p = Ret v \<and> lookup l (pm_tabs pm) pt va = Some v)"
  using assms
proof (induction l arbitrary: pt T)
  case 0
  then show ?case by (auto simp: get_pte_def)
next
  case (Suc l)
  obtain t C where t: "pm_tabs pm pt = Some t"
    "\<forall>i<512. pt \<notin> C i \<and> (if t i AND PTE_V \<noteq> 0 then ptree l (pm_tabs pm) (PTE2PA (t i)) (C i) else C i = {})"
    using Suc.prems by auto
  show ?case
  proof (cases "t (PX (Suc l) va) AND PTE_V \<noteq> 0")
    case True
    then have "ptree l (pm_tabs pm) (PTE2PA (t (PX (Suc l) va))) (C (PX (Suc l) va))" using t(2) PX_less by presburger
    note IH = Suc.IH [OF this]
    have lk: "lookup (Suc l) (pm_tabs pm) pt va = lookup l (pm_tabs pm) (PTE2PA (t (PX (Suc l) va))) va"
      "walk_from (Suc l) pm pt va False = walk_from l pm (PTE2PA (t (PX (Suc l) va))) va False"
      using t(1) True by (simp_all add: get_pte_def)
    show ?thesis unfolding lk by (rule IH)
  next
    case False
    then show ?thesis using t(1) by (simp add: get_pte_def)
  qed
qed

text \<open>The state of the allocator and of the page table at \<open>pt\<close> with table pages \<open>T\<close>.\<close>

definition vm_wf :: "pmem \<Rightarrow> u64 \<Rightarrow> u64 set \<Rightarrow> bool" where
  "vm_wf pm pt T \<longleftrightarrow> ptree 2 (pm_tabs pm) pt T \<and> (\<forall>p\<in>set (pm_free pm). page_aligned p) \<and> distinct (pm_free pm) \<and>
     set (pm_free pm) \<inter> T = {}"

text \<open>The leaf entry for \<open>va\<close>, and the physical page a user access to \<open>va\<close> goes to.\<close>

definition translate :: "pmem \<Rightarrow> u64 \<Rightarrow> u64 \<Rightarrow> u64" where
  "translate pm pt va = (case lookup 2 (pm_tabs pm) pt va of None \<Rightarrow> 0 | Some e \<Rightarrow> e)"

definition uframe :: "pmem \<Rightarrow> u64 \<Rightarrow> u64 \<Rightarrow> u64 option" where
  "uframe pm pt va =
     (let e = translate pm pt va in
      if va < MAXVA \<and> e AND PTE_V \<noteq> 0 \<and> e AND PTE_U \<noteq> 0 \<and> PTE2PA e \<noteq> 0 then Some (PTE2PA e) else None)"

lemma walk_look:
  assumes "vm_wf pm pt T" "va < MAXVA"
  shows "\<exists>r. walk pm pt va False = Ret (r, pm) \<and>
     (case r of None \<Rightarrow> translate pm pt va = 0 | Some p \<Rightarrow> get_pte pm p = Ret (translate pm pt va))"
  using walk_from_look [of 2 pm pt T va] assms
  by (fastforce simp: walk_def vm_wf_def translate_def not_le [symmetric] split: option.splits)

lemma walkaddr_uframe: "vm_wf pm pt T \<Longrightarrow> walkaddr pm pt va = Ret (uframe pm pt va)"
proof (cases "va < MAXVA")
  case True
  assume wf: "vm_wf pm pt T"
  obtain r where r: "walk pm pt va False = Ret (r, pm)"
    "case r of None \<Rightarrow> translate pm pt va = 0 | Some p \<Rightarrow> get_pte pm p = Ret (translate pm pt va)"
    using walk_look [OF wf True] by blast
  then show ?thesis using True by (cases r) (auto simp: walkaddr_def uframe_def Let_def not_le)
qed (simp add: walkaddr_def uframe_def Let_def not_less)

text \<open>The index bits of an address are its page number.\<close>

definition page_no :: "u64 \<Rightarrow> nat" where
  "page_no va = unat va div 4096"

lemma PX_page_no: "PX l va = page_no va div 512 ^ l mod 512"
proof -
  have "PX l va = unat (drop_bit (12 + 9 * l) va AND mask 9)" by (simp add: PX_def mask_eq_exp_minus_1)
  also have "\<dots> = unat va div 2 ^ (12 + 9 * l) mod 512" by (simp only: unat_and_mask unat_drop) simp
  also have "(2 :: nat) ^ (12 + 9 * l) = 4096 * 512 ^ l" by (simp add: power_add power_mult)
  finally show ?thesis by (simp add: page_no_def div_mult2_eq)
qed

lemma PX_digits: "PX 0 va = page_no va mod 512" "PX 1 va = page_no va div 512 mod 512" "PX 2 va = page_no va div 512 div 512 mod 512"
  by (simp_all only: PX_page_no power_0 div_by_1 power_one_right power2_eq_square div_mult2_eq)

lemma digits3: "(P :: nat) < 512 * 512 * 512 \<Longrightarrow> Q < 512 * 512 * 512 \<Longrightarrow> P mod 512 = Q mod 512 \<Longrightarrow> P div 512 mod 512 = Q div 512 mod 512 \<Longrightarrow>
   P div 512 div 512 mod 512 = Q div 512 div 512 mod 512 \<Longrightarrow> P = Q"
proof -
  assume P: "P < 512 * 512 * 512" "Q < 512 * 512 * 512" and e: "P mod 512 = Q mod 512" "P div 512 mod 512 = Q div 512 mod 512"
    "P div 512 div 512 mod 512 = Q div 512 div 512 mod 512"
  have "P div 512 div 512 < 512" "Q div 512 div 512 < 512" using P by (simp_all add: less_mult_imp_div_less)
  then have "P div 512 div 512 = Q div 512 div 512" using e(3) by simp
  then have "P div 512 = Q div 512" using e(2) by (metis div_mult_mod_eq)
  then show "P = Q" using e(1) by (metis div_mult_mod_eq)
qed

lemma page_no_MAXVA: "va < MAXVA \<Longrightarrow> page_no va < 2 ^ 26"
  by (simp add: MAXVA_def page_no_def word_less_nat_alt less_mult_imp_div_less)

lemma same_slot_page: "va < MAXVA \<Longrightarrow> va' < MAXVA \<Longrightarrow> same_slot 2 va va' \<longleftrightarrow> page_no va = page_no va'"
proof
  assume m: "va < MAXVA" "va' < MAXVA" and s: "same_slot 2 va va'"
  have "PX 0 va = PX 0 va'" "PX 1 va = PX 1 va'" "PX 2 va = PX 2 va'" using s by (simp_all add: numeral_2_eq_2)
  moreover have "page_no va < 512 * 512 * 512" "page_no va' < 512 * 512 * 512"
    using page_no_MAXVA [OF m(1)] page_no_MAXVA [OF m(2)] by simp_all
  ultimately show "page_no va = page_no va'" unfolding PX_digits using digits3 by metis
qed (simp add: PX_page_no numeral_2_eq_2)

subsection \<open>Mapping pages\<close>

lemma walk_alloc:
  assumes wf: "vm_wf pm pt T" and va: "va < MAXVA" and free: "2 \<le> length (pm_free pm)"
  shows "\<exists>p pm' T'. walk pm pt va True = Ret (Some p, pm') \<and> get_pte pm' p = Ret (translate pm pt va) \<and>
     vm_wf pm' pt T' \<and> T \<subseteq> T' \<and> T' \<subseteq> T \<union> (set (pm_free pm) - set (pm_free pm')) \<and> (\<exists>k\<le>2. pm_free pm' = drop k (pm_free pm)) \<and> pm_data pm' = pm_data pm \<and>
     (\<forall>v. vm_wf (set_pte pm' p v) pt T' \<and>
        (\<forall>va'. va' < MAXVA \<longrightarrow> translate (set_pte pm' p v) pt va' = (if page_no va' = page_no va then v else translate pm pt va')))"
proof -
  obtain t pm' T' where w: "walk_from 2 pm pt va True = Ret (Some (t, PX 0 va), pm')" "walked 2 pm pt va T t pm' T'"
    using walk_from_alloc [of 2 pm pt T va] wf free by (auto simp: vm_wf_def)
  have tl: "same_slot 2 va va" by (simp add: numeral_2_eq_2)
  have ptr: "ptree 2 (pm_tabs pm') pt T'" "t \<in> T'" using w(2) by (simp_all add: walked_def)
  have up: "lookup 2 (upd_tab (pm_tabs pm') t (PX 0 va) v) pt va' = (if same_slot 2 va va' then Some v else lookup 2 (pm_tabs pm) pt va')" for v va'
    using w(2) by (simp add: walked_def)
  have live: "\<exists>tab. pm_tabs pm' t = Some tab"
  proof (rule ccontr)
    assume "\<nexists>tab. pm_tabs pm' t = Some tab"
    then have "upd_tab (pm_tabs pm') t (PX 0 va) v = pm_tabs pm'" for v by (auto simp: upd_tab_def)
    then show False using up [of 0 va] up [of 1 va] tl by simp
  qed
  then obtain tab where tab: "pm_tabs pm' t = Some tab" by blast
  have self: "upd_tab (pm_tabs pm') t (PX 0 va) (tab (PX 0 va)) = pm_tabs pm'" using tab by (auto simp: upd_tab_def)
  have "lookup 2 (pm_tabs pm) pt va = Some (tab (PX 0 va))"
    using up [of "tab (PX 0 va)" va] w(2) unfolding self using tl by (auto simp: walked_def)
  then have g: "get_pte pm' (t, PX 0 va) = Ret (translate pm pt va)" using tab by (simp add: get_pte_def translate_def)
  obtain k where k: "k \<le> 2" "pm_free pm' = drop k (pm_free pm)" using w(2) by (auto simp: walked_def)
  have sub: "T' \<subseteq> T \<union> (set (pm_free pm) - set (pm_free pm'))" "T \<subseteq> T'" using w(2) by (simp_all add: walked_def)
  have fs: "set (pm_free pm') \<subseteq> set (pm_free pm)" "distinct (pm_free pm')" "set (pm_free pm') \<inter> T' = {}"
    using k(2) set_drop_subset [of k "pm_free pm"] wf sub by (auto simp: vm_wf_def)
  then have wf': "vm_wf pm' pt T'" using ptr wf by (auto simp: vm_wf_def)
  moreover have "vm_wf (set_pte pm' (t, PX 0 va) v) pt T'" for v
    using w(2) wf' by (simp add: vm_wf_def walked_def set_pte_tabs)
  moreover have "translate (set_pte pm' (t, PX 0 va) v) pt va' = (if page_no va' = page_no va then v else translate pm pt va')"
    if "va' < MAXVA" for v va'
    using same_slot_page [OF va that] up [of v va'] by (simp add: set_pte_tabs translate_def)
  ultimately show ?thesis using w(1) va g sub k w(2)
    by (intro exI [of _ "(t, PX 0 va)"] exI [of _ pm'] exI [of _ T']) (auto simp: walk_def walked_def not_le)
qed

lemma unat_less_u64: "unat (x :: u64) < 2 ^ 64"
  using unsigned_less [where ?'a = nat and ?'b = 64, of x] by simp

lemma unat_PGROUNDDOWN: "unat (PGROUNDDOWN a) = 4096 * page_no a"
proof -
  have "PGROUNDDOWN a = a AND NOT (mask 12)" by (simp add: PGROUNDDOWN_def mask_eq_exp_minus_1)
  also have "\<dots> = push_bit 12 (drop_bit 12 a)" by (rule bit_word_eqI) (auto simp: bit_simps)
  finally have "unat (PGROUNDDOWN a) = (unat a div 4096 * 4096) mod 2 ^ 64"
    by (simp only: unsigned_push_bit_eq unat_drop) (simp add: take_bit_eq_mod push_bit_eq_mult)
  moreover have "unat a div 4096 * 4096 < 2 ^ 64"
    using div_times_less_eq_dividend [of "unat a" 4096] unat_less_u64 [of a] by linarith
  ultimately show ?thesis by (simp add: page_no_def mult.commute)
qed

lemma page_no_PGROUNDDOWN [simp]: "page_no (PGROUNDDOWN a) = page_no a"
  by (simp add: page_no_def [of "PGROUNDDOWN a"] unat_PGROUNDDOWN)

lemma page_no_le_unat: "4096 * page_no a \<le> unat a" "unat a < 4096 * page_no a + 4096"
  by (simp_all add: page_no_def)

lemma PGROUNDDOWN_add:
  assumes "page_no a \<le> page_no b"
  shows "PGROUNDDOWN a + of_nat (4096 * (page_no b - page_no a)) = PGROUNDDOWN b"
proof -
  have "unat (PGROUNDDOWN a) + 4096 * (page_no b - page_no a) = unat (PGROUNDDOWN b)"
    using assms by (simp add: unat_PGROUNDDOWN)
  moreover have "\<dots> < 2 ^ 64" by (rule unat_less_u64)
  ultimately show ?thesis by (metis unat_add_of_nat word_unat_eq_iff)
qed

lemma mappages_loop_maps:
  assumes "vm_wf pm pt T" "page_no a + k < 2 ^ 26" "unat a = 4096 * page_no a" "2 * (k + 1) \<le> length (pm_free pm)" "k < fuel"
    "\<And>va'. va' < MAXVA \<Longrightarrow> page_no a \<le> page_no va' \<Longrightarrow> page_no va' \<le> page_no a + k \<Longrightarrow> translate pm pt va' AND PTE_V = 0"
  shows "\<exists>pm' T'. mappages_loop fuel pm pt a (a + of_nat (4096 * k)) pa perm = Ret (0, pm') \<and> vm_wf pm' pt T' \<and> T \<subseteq> T' \<and>
     T' \<subseteq> T \<union> (set (pm_free pm) - set (pm_free pm')) \<and> (\<exists>j\<le>2 * (k + 1). pm_free pm' = drop j (pm_free pm)) \<and> pm_data pm' = pm_data pm \<and>
     (\<forall>va'. va' < MAXVA \<longrightarrow> translate pm' pt va' =
        (if page_no a \<le> page_no va' \<and> page_no va' \<le> page_no a + k
         then PA2PTE (pa + of_nat (4096 * (page_no va' - page_no a))) OR perm OR PTE_V else translate pm pt va'))"
  using assms
proof (induction k arbitrary: pm a pa T fuel)
  case (0 pm a pa T fuel)
  have a: "a < MAXVA" and l2: "2 \<le> length (pm_free pm)" using 0(2,3,4) by (simp_all add: MAXVA_def word_less_nat_alt)
  obtain p pm1 T1 where w: "walk pm pt a True = Ret (Some p, pm1)" "get_pte pm1 p = Ret (translate pm pt a)" "T \<subseteq> T1"
     "T1 \<subseteq> T \<union> (set (pm_free pm) - set (pm_free pm1))" "\<exists>k\<le>2. pm_free pm1 = drop k (pm_free pm)" "pm_data pm1 = pm_data pm"
     "\<forall>v. vm_wf (set_pte pm1 p v) pt T1 \<and> (\<forall>va'. va' < MAXVA \<longrightarrow> translate (set_pte pm1 p v) pt va' =
        (if page_no va' = page_no a then v else translate pm pt va'))"
    using walk_alloc [OF 0(1) a l2] by blast
  obtain f where f: "fuel = Suc f" using 0(5) by (cases fuel) auto
  have "translate pm pt a AND PTE_V = 0" by (rule 0(6)) (simp_all add: a)
  then have m: "mappages_loop fuel pm pt a (a + of_nat (4096 * 0)) pa perm = Ret (0, set_pte pm1 p (PA2PTE pa OR perm OR PTE_V))"
    using w(1,2) by (simp add: f)
  have fr: "pm_free (set_pte pm1 p v) = pm_free pm1" "pm_data (set_pte pm1 p v) = pm_data pm1" for v
    by (simp_all add: set_pte_def split: prod.splits)
  show ?case using m w(3-7) fr
    by (intro exI [of _ "set_pte pm1 p (PA2PTE pa OR perm OR PTE_V)"] exI [of _ T1]) auto
next
  case (Suc k pm a pa T fuel)
  have a: "a < MAXVA" and l2: "2 \<le> length (pm_free pm)" using Suc.prems(2,3,4) by (simp_all add: MAXVA_def word_less_nat_alt)
  obtain p pm1 T1 where w: "walk pm pt a True = Ret (Some p, pm1)" "get_pte pm1 p = Ret (translate pm pt a)" "T \<subseteq> T1"
     "T1 \<subseteq> T \<union> (set (pm_free pm) - set (pm_free pm1))" "\<exists>k\<le>2. pm_free pm1 = drop k (pm_free pm)" "pm_data pm1 = pm_data pm"
     "\<forall>v. vm_wf (set_pte pm1 p v) pt T1 \<and> (\<forall>va'. va' < MAXVA \<longrightarrow> translate (set_pte pm1 p v) pt va' =
        (if page_no va' = page_no a then v else translate pm pt va'))"
    using walk_alloc [OF Suc.prems(1) a l2] by blast
  obtain j1 where j1: "j1 \<le> 2" "pm_free pm1 = drop j1 (pm_free pm)" using w(5) by blast
  obtain f where f: "fuel = Suc f" using Suc.prems(5) by (cases fuel) auto
  define pm2 where "pm2 = set_pte pm1 p (PA2PTE pa OR perm OR PTE_V)"
  have fr: "pm_free pm2 = pm_free pm1" "pm_data pm2 = pm_data pm1" by (simp_all add: pm2_def set_pte_def split: prod.splits)
  have ua: "unat (a + 4096) = unat a + 4096" using unat_add_of_nat [of a 4096] Suc.prems(2,3) by simp
  then have pa1: "page_no (a + 4096) = page_no a + 1" by (simp add: page_no_def)
  have t2: "translate pm2 pt va' = (if page_no va' = page_no a then PA2PTE pa OR perm OR PTE_V else translate pm pt va')" if "va' < MAXVA" for va'
    using w(7) that by (simp add: pm2_def)
  have "\<exists>pm' T'. mappages_loop f pm2 pt (a + 4096) (a + 4096 + of_nat (4096 * k)) (pa + 4096) perm = Ret (0, pm') \<and> vm_wf pm' pt T' \<and> T1 \<subseteq> T' \<and>
     T' \<subseteq> T1 \<union> (set (pm_free pm2) - set (pm_free pm')) \<and> (\<exists>j\<le>2 * (k + 1). pm_free pm' = drop j (pm_free pm2)) \<and> pm_data pm' = pm_data pm2 \<and>
     (\<forall>va'. va' < MAXVA \<longrightarrow> translate pm' pt va' =
        (if page_no (a + 4096) \<le> page_no va' \<and> page_no va' \<le> page_no (a + 4096) + k
         then PA2PTE (pa + 4096 + of_nat (4096 * (page_no va' - page_no (a + 4096)))) OR perm OR PTE_V else translate pm2 pt va'))"
    by (rule Suc.IH) (use Suc.prems w(7) t2 ua pa1 j1 fr f in \<open>auto simp: pm2_def\<close>)
  then obtain pm' T' where r: "mappages_loop f pm2 pt (a + 4096) (a + 4096 + of_nat (4096 * k)) (pa + 4096) perm = Ret (0, pm')" "vm_wf pm' pt T'" "T1 \<subseteq> T'"
     "T' \<subseteq> T1 \<union> (set (pm_free pm2) - set (pm_free pm'))" "\<exists>j\<le>2 * (k + 1). pm_free pm' = drop j (pm_free pm2)" "pm_data pm' = pm_data pm2"
     "\<And>va'. va' < MAXVA \<Longrightarrow> translate pm' pt va' =
        (if page_no (a + 4096) \<le> page_no va' \<and> page_no va' \<le> page_no (a + 4096) + k
         then PA2PTE (pa + 4096 + of_nat (4096 * (page_no va' - page_no (a + 4096)))) OR perm OR PTE_V else translate pm2 pt va')"
    by blast
  have ne: "a \<noteq> a + of_nat (4096 * Suc k)"
  proof
    assume "a = a + of_nat (4096 * Suc k)"
    moreover have "unat (a + of_nat (4096 * Suc k)) = unat a + 4096 * Suc k" using Suc.prems(2,3) by (intro unat_add_of_nat) simp
    ultimately show False by simp
  qed
  have "translate pm pt a AND PTE_V = 0" by (rule Suc.prems(6)) (simp_all add: a)
  then have m: "mappages_loop fuel pm pt a (a + of_nat (4096 * Suc k)) pa perm = Ret (0, pm')"
    using w(1,2) r(1) ne by (simp add: f pm2_def [symmetric] algebra_simps)
  obtain j2 where j2: "j2 \<le> 2 * (k + 1)" "pm_free pm' = drop j2 (pm_free pm2)" using r(5) by blast
  have fj: "\<exists>j\<le>2 * (Suc k + 1). pm_free pm' = drop j (pm_free pm)"
    using j1 j2 fr by (intro exI [of _ "j2 + j1"]) (simp add: drop_drop)
  have fs: "set (pm_free pm') \<subseteq> set (pm_free pm1)" "set (pm_free pm1) \<subseteq> set (pm_free pm)"
    using j1(2) j2(2) fr(1) set_drop_subset by fastforce+
  have tr: "translate pm' pt va' = (if page_no a \<le> page_no va' \<and> page_no va' \<le> page_no a + Suc k
         then PA2PTE (pa + of_nat (4096 * (page_no va' - page_no a))) OR perm OR PTE_V else translate pm pt va')"
    if v: "va' < MAXVA" for va'
  proof (cases "page_no (a + 4096) \<le> page_no va' \<and> page_no va' \<le> page_no (a + 4096) + k")
    case True
    then have "page_no va' - page_no a = Suc (page_no va' - page_no (a + 4096))" using pa1 by arith
    then have "pa + of_nat (4096 * (page_no va' - page_no a)) = pa + 4096 + of_nat (4096 * (page_no va' - page_no (a + 4096)))"
      by (simp add: algebra_simps)
    then show ?thesis using r(7) [OF v] True pa1 by simp
  next
    case False
    then show ?thesis using r(7) [OF v] t2 [OF v] pa1 by auto
  qed
  show ?case
  proof (intro exI [of _ pm'] exI [of _ T'] conjI)
    show "T \<subseteq> T'" using w(3) r(3) by blast
    show "T' \<subseteq> T \<union> (set (pm_free pm) - set (pm_free pm'))" using w(4) r(4) [unfolded fr(1)] fs by blast
    show "pm_data pm' = pm_data pm" using r(6) fr(2) w(6) by simp
  qed (use m r(2) fj tr in blast)+
qed

end
