(* ===== verification/Uservm.thy ===== *)
theory Uservm
  imports Vm
begin

text \<open>
  What the copy routines of kernel/mem/vm.c mean for user memory: \<open>vread pm pt va\<close> is the byte a user
  process with page table \<open>pt\<close> reads at \<open>va\<close>, and \<^verbatim>\<open>copyin\<close>, \<^verbatim>\<open>copyout\<close> and \<^verbatim>\<open>copyinstr\<close> read and write
  user memory through it.
\<close>

subsection \<open>User memory\<close>

definition vread :: "pmem \<Rightarrow> u64 \<Rightarrow> u64 \<Rightarrow> u8 option" where
  "vread pm pt va = map_option (\<lambda>pa. pm_data pm (unat pa + unat va mod 4096)) (uframe pm pt (PGROUNDDOWN va))"

definition accessible :: "pmem \<Rightarrow> u64 \<Rightarrow> u64 \<Rightarrow> nat \<Rightarrow> bool" where
  "accessible pm pt va n \<longleftrightarrow> (\<forall>i<n. vread pm pt (va + of_nat i) \<noteq> None)"

text \<open>No two user pages share a physical page.\<close>

definition uinj :: "pmem \<Rightarrow> u64 \<Rightarrow> bool" where
  "uinj pm pt \<longleftrightarrow> (\<forall>va va' pa. uframe pm pt va = Some pa \<and> uframe pm pt va' = Some pa \<longrightarrow> page_no va = page_no va')"

lemma PGROUNDDOWN_eq: "PGROUNDDOWN a = PGROUNDDOWN b \<longleftrightarrow> page_no a = page_no b"
  by (metis page_no_PGROUNDDOWN unat_PGROUNDDOWN word_unat_eq_iff)

lemma page_offset: "unat (va - PGROUNDDOWN va) = unat va mod 4096"
proof -
  have "PGROUNDDOWN va \<le> va" using page_no_le_unat(1) [of va] by (simp add: word_le_nat_alt unat_PGROUNDDOWN)
  then have "unat (va - PGROUNDDOWN va) = unat va - 4096 * (unat va div 4096)"
    by (simp add: unat_sub unat_PGROUNDDOWN page_no_def)
  then show ?thesis by (simp add: minus_mult_div_eq_mod)
qed

lemma in_page:
  assumes "unat va mod 4096 + i < 4096"
  shows "PGROUNDDOWN (va + of_nat i) = PGROUNDDOWN va" "unat (va + of_nat i) mod 4096 = unat va mod 4096 + i"
proof -
  have d: "unat va = 4096 * (unat va div 4096) + unat va mod 4096" by simp
  have "unat va div 4096 < 2 ^ 52" using unat_less_u64 [of va] by (simp add: less_mult_imp_div_less)
  then have "4096 * (unat va div 4096) + 4096 \<le> 2 ^ 64" by simp
  then have "unat va + i < 2 ^ 64" using d assms by linarith
  then have u: "unat (va + of_nat i) = 4096 * (unat va div 4096) + (unat va mod 4096 + i)" using d unat_add_of_nat by simp
  have gen: "(4096 * q + r) div 4096 = q" "(4096 * q + r) mod 4096 = r" if "r < 4096" for q r :: nat using that by simp_all
  have "unat (va + of_nat i) div 4096 = unat va div 4096" unfolding u by (rule gen(1) [OF assms])
  then show "PGROUNDDOWN (va + of_nat i) = PGROUNDDOWN va" by (simp add: PGROUNDDOWN_eq page_no_def)
  show "unat (va + of_nat i) mod 4096 = unat va mod 4096 + i" unfolding u by (rule gen(2) [OF assms])
qed

lemma next_page: "PGROUNDDOWN va + 4096 = va + of_nat (4096 - unat va mod 4096)"
proof -
  have a: "va - PGROUNDDOWN va = of_nat (unat va mod 4096)" by (simp flip: page_offset)
  have b: "of_nat (unat va mod 4096) + of_nat (4096 - unat va mod 4096) = (4096 :: u64)" by (simp flip: of_nat_add)
  have "va + of_nat (4096 - unat va mod 4096) = PGROUNDDOWN va + (va - PGROUNDDOWN va) + of_nat (4096 - unat va mod 4096)" by simp
  also have "\<dots> = PGROUNDDOWN va + 4096" unfolding a by (simp only: add.assoc b)
  finally show ?thesis by simp
qed

lemma vread_in_page:
  assumes "unat va mod 4096 + i < 4096"
  shows "vread pm pt (va + of_nat i) = map_option (\<lambda>pa. pm_data pm (unat pa + unat va mod 4096 + i)) (uframe pm pt (PGROUNDDOWN va))"
  using in_page [OF assms] by (simp add: vread_def add.assoc)

text \<open>The bytes of user memory from \<open>va\<close> on.\<close>

definition ubytes :: "pmem \<Rightarrow> u64 \<Rightarrow> u64 \<Rightarrow> nat \<Rightarrow> u8 list" where
  "ubytes pm pt va n = map (\<lambda>i. the (vread pm pt (va + of_nat i))) [0..<n]"

lemma ubytes_split: "n \<le> len \<Longrightarrow> ubytes pm pt va len = ubytes pm pt va n @ ubytes pm pt (va + of_nat n) (len - n)"
  by (auto simp: ubytes_def nth_append intro!: nth_equalityI)

lemma accessible_split:
  "n \<le> len \<Longrightarrow> accessible pm pt va len \<longleftrightarrow> accessible pm pt va n \<and> accessible pm pt (va + of_nat n) (len - n)"
proof -
  assume n: "n \<le> len"
  have "(\<forall>i<len. P i) \<longleftrightarrow> (\<forall>i<n. P i) \<and> (\<forall>i<len - n. P (n + i))" for P
  proof (intro iffI conjI allI impI)
    fix i assume *: "(\<forall>i<n. P i) \<and> (\<forall>i<len - n. P (n + i))" and i: "i < len"
    show "P i"
    proof (cases "i < n")
      case False
      then have "i - n < len - n" using i by simp
      then have "P (n + (i - n))" using * by blast
      then show ?thesis using False by simp
    qed (use * in blast)
  qed (use n in auto)
  then show ?thesis by (simp add: accessible_def add.assoc)
qed

lemma chunk:
  assumes "n = min (4096 - unat va mod 4096) len" "0 < len" "uframe pm pt (PGROUNDDOWN va) = Some pa"
  shows "0 < n" "n \<le> len" "accessible pm pt va n"
    "bytes_at (pm_data pm) (unat pa + unat va mod 4096) n = ubytes pm pt va n"
    "n < len \<Longrightarrow> PGROUNDDOWN va + 4096 = va + of_nat n"
proof -
  have m: "unat va mod 4096 < 4096" by simp
  show "0 < n" "n \<le> len" using assms(1,2) m by auto
  have lt: "unat va mod 4096 + i < 4096" if "i < n" for i
  proof -
    have "n \<le> 4096 - unat va mod 4096" using assms(1) by simp
    then show ?thesis using that by linarith
  qed
  show "accessible pm pt va n" using assms(3) vread_in_page [OF lt] by (simp add: accessible_def)
  show "bytes_at (pm_data pm) (unat pa + unat va mod 4096) n = ubytes pm pt va n"
    using assms(3) vread_in_page [OF lt] by (auto simp: ubytes_def intro!: nth_equalityI)
  show "PGROUNDDOWN va + 4096 = va + of_nat n" if "n < len" using that assms(1) next_page [of va] by simp
qed

lemma copyin_loop_spec:
  assumes "vm_wf pm pt T" "len \<le> fuel"
  shows "\<exists>bs. copyin_loop fuel pm pt va len = Ret (if accessible pm pt va len then 0 else - 1, bs) \<and>
     (accessible pm pt va len \<longrightarrow> bs = ubytes pm pt va len)"
  using assms(2)
proof (induction fuel arbitrary: va len)
  case 0
  then show ?case by (simp add: accessible_def ubytes_def)
next
  case (Suc fuel)
  show ?case
  proof (cases "len = 0")
    case False
    have w: "walkaddr pm pt (PGROUNDDOWN va) = Ret (uframe pm pt (PGROUNDDOWN va))" by (rule walkaddr_uframe [OF assms(1)])
    show ?thesis
    proof (cases "uframe pm pt (PGROUNDDOWN va)")
      case None
      then have "\<not> accessible pm pt va len" using False by (auto simp: accessible_def vread_def intro!: exI [of _ 0])
      then show ?thesis using None w False by simp
    next
      case (Some pa)
      define n where "n = min (4096 - unat va mod 4096) len"
      note c = chunk [OF n_def _ Some]
      have n: "0 < n" "n \<le> len" using c(1,2) False by simp_all
      have le: "len - n \<le> fuel" using Suc.prems n by simp
      obtain rest where r: "copyin_loop fuel pm pt (PGROUNDDOWN va + 4096) (len - n) =
          Ret (if accessible pm pt (PGROUNDDOWN va + 4096) (len - n) then 0 else - 1, rest)"
        "accessible pm pt (PGROUNDDOWN va + 4096) (len - n) \<longrightarrow> rest = ubytes pm pt (PGROUNDDOWN va + 4096) (len - n)"
        using Suc.IH [OF le] by blast
      have e: "accessible pm pt va len \<longleftrightarrow> accessible pm pt (PGROUNDDOWN va + 4096) (len - n)"
        "accessible pm pt va len \<longrightarrow> ubytes pm pt va len = ubytes pm pt va n @ rest"
        using accessible_split [OF n(2)] ubytes_split [OF n(2)] c(3) c(5) r(2) False
        by (cases "n < len"; auto simp: accessible_def ubytes_def)+
      show ?thesis using w Some r(1) False e c(4)
        by (simp add: Let_def page_offset PGSIZE_def n_def [symmetric])
    qed
  qed (simp add: accessible_def ubytes_def)
qed

subsection \<open>Writing user memory\<close>

lemma PTE2PA_aligned: "unat (PTE2PA e) mod 4096 = 0"
proof -
  have "unat (PTE2PA e) = unat (push_bit 12 (drop_bit 10 e))" by (simp add: PTE2PA_def)
  also have "\<dots> = (4096 * unat (drop_bit 10 e)) mod (4096 * 2 ^ 52)"
    by (simp only: unsigned_push_bit_eq) (simp add: take_bit_eq_mod push_bit_eq_mult mult.commute)
  also have "\<dots> = 4096 * (unat (drop_bit 10 e) mod 2 ^ 52)" by (rule mod_mult_mult1)
  finally show ?thesis by simp
qed

lemma uframe_aligned: "uframe pm pt va = Some pa \<Longrightarrow> unat pa mod 4096 = 0"
  by (auto simp: uframe_def Let_def PTE2PA_aligned split: if_splits)

lemma aligned_disjoint:
  assumes "(a :: nat) mod 4096 = 0" "b mod 4096 = 0" "i < 4096" "j < 4096" "a + i = b + j"
  shows "a = b \<and> i = j"
proof -
  obtain p q where "a = 4096 * p" "b = 4096 * q" using assms(1,2) unfolding mod_eq_0_iff_dvd dvd_def by blast
  moreover have "p = q"
  proof -
    have "(4096 * p + i) div 4096 = (4096 * q + j) div 4096" using assms(5) calculation by simp
    then show ?thesis using assms(3,4) by simp
  qed
  ultimately show ?thesis using assms(5) by simp
qed

text \<open>What a store to a part of one user page does to user memory.\<close>

lemma vread_store:
  assumes inj: "uinj pm pt" and pa: "uframe pm pt (PGROUNDDOWN va) = Some pa" and n: "unat va mod 4096 + length bs \<le> 4096"
    and pm': "pm' = pm\<lparr>pm_data := store_list (pm_data pm) (unat pa + unat va mod 4096) bs\<rparr>"
  shows "i < length bs \<Longrightarrow> vread pm' pt (va + of_nat i) = Some (bs ! i)"
    and "(\<And>i. i < length bs \<Longrightarrow> va' \<noteq> va + of_nat i) \<Longrightarrow> vread pm' pt va' = vread pm pt va'"
proof -
  have uf: "uframe pm' pt = uframe pm pt" by (simp add: fun_eq_iff uframe_def translate_def pm')
  have al: "unat pa mod 4096 = 0" by (rule uframe_aligned [OF pa])
  show "vread pm' pt (va + of_nat i) = Some (bs ! i)" if i: "i < length bs"
  proof -
    have "unat va mod 4096 + i < 4096" using i n by simp
    then show ?thesis using pa i by (simp add: vread_in_page uf) (simp add: pm' store_list_def)
  qed
  show "vread pm' pt va' = vread pm pt va'" if o: "\<And>i. i < length bs \<Longrightarrow> va' \<noteq> va + of_nat i"
  proof (cases "uframe pm pt (PGROUNDDOWN va')")
    case (Some pa')
    let ?a = "unat pa' + unat va' mod 4096" and ?d = "unat pa + unat va mod 4096"
    have "\<not> (?d \<le> ?a \<and> ?a < ?d + length bs)"
    proof
      assume r: "?d \<le> ?a \<and> ?a < ?d + length bs"
      define i where "i = ?a - ?d"
      have i: "i < length bs" "?a = unat pa + (unat va mod 4096 + i)" using r by (auto simp: i_def)
      have "unat pa' = unat pa \<and> unat va' mod 4096 = unat va mod 4096 + i"
        by (rule aligned_disjoint) (use al uframe_aligned [OF Some] i n in auto)
      then have p: "pa' = pa" "unat va' mod 4096 = unat va mod 4096 + i" by (simp_all add: word_unat_eq_iff)
      have "page_no va' = page_no va" using inj Some pa p(1) unfolding uinj_def by (metis page_no_PGROUNDDOWN)
      moreover have k: "unat va mod 4096 + i < 4096" using i(1) n by simp
      moreover have "page_no (va + of_nat i) = page_no va" using in_page(1) [OF k] by (simp add: PGROUNDDOWN_eq)
      ultimately have "page_no va' = page_no (va + of_nat i)" "unat va' mod 4096 = unat (va + of_nat i) mod 4096"
        using p(2) in_page(2) [OF k] by simp_all
      then have "unat va' = unat (va + of_nat i)" unfolding page_no_def by (metis div_mult_mod_eq)
      then show False using o [OF i(1)] by (simp add: word_unat_eq_iff)
    qed
    then show ?thesis using Some by (simp add: vread_def uf) (auto simp: pm' store_list_def)
  qed (simp add: vread_def uf)
qed

text \<open>
  \<open>user_only pm pt pm'\<close>: page tables and allocator are the same, and of the memory only user pages changed.
\<close>

definition user_only :: "pmem \<Rightarrow> u64 \<Rightarrow> pmem \<Rightarrow> bool" where
  "user_only pm pt pm' \<longleftrightarrow> pm_tabs pm' = pm_tabs pm \<and> pm_free pm' = pm_free pm \<and>
     (\<forall>a. pm_data pm' a \<noteq> pm_data pm a \<longrightarrow>
        (\<exists>va pa. uframe pm pt va = Some pa \<and> unat pa \<le> a \<and> a < unat pa + 4096))"

lemma user_only_frames: "user_only pm pt pm' \<Longrightarrow> uframe pm' pt = uframe pm pt"
  by (rule ext) (simp add: user_only_def uframe_def translate_def)

lemma user_only_trans: "user_only pm pt pm1 \<Longrightarrow> user_only pm1 pt pm2 \<Longrightarrow> user_only pm pt pm2"
  using user_only_frames [of pm pt pm1] unfolding user_only_def by metis

lemma user_only_accessible: "user_only pm pt pm' \<Longrightarrow> accessible pm' pt va n = accessible pm pt va n"
  using user_only_frames by (simp add: accessible_def vread_def)

lemma user_only_store:
  assumes "uframe pm pt va = Some pa" "off + length bs \<le> 4096"
  shows "user_only pm pt (pm\<lparr>pm_data := store_list (pm_data pm) (unat pa + off) bs\<rparr>)"
  unfolding user_only_def
proof (intro conjI allI impI)
  fix a assume "pm_data (pm\<lparr>pm_data := store_list (pm_data pm) (unat pa + off) bs\<rparr>) a \<noteq> pm_data pm a"
  then have "unat pa + off \<le> a \<and> a < unat pa + off + length bs" by (auto simp: store_list_def split: if_splits)
  then show "\<exists>va pa. uframe pm pt va = Some pa \<and> unat pa \<le> a \<and> a < unat pa + 4096" using assms by fastforce
qed simp_all

lemma of_nat_inj_u64: "(of_nat i :: u64) = of_nat j \<Longrightarrow> i < 2 ^ 64 \<Longrightarrow> j < 2 ^ 64 \<Longrightarrow> i = j"
  by (drule arg_cong [where f = unat]) (simp add: unat_of_nat)

lemma copyout_loop_spec:
  assumes "vm_wf pm pt T" "uinj pm pt" "length src \<le> fuel" "length src < 2 ^ 64"
  shows "\<exists>pm'. copyout_loop fuel pm pt va src = Ret (if accessible pm pt va (length src) then 0 else - 1, pm') \<and>
     user_only pm pt pm' \<and>
     (accessible pm pt va (length src) \<longrightarrow>
        (\<forall>i<length src. vread pm' pt (va + of_nat i) = Some (src ! i)) \<and>
        (\<forall>va'. (\<forall>i<length src. va' \<noteq> va + of_nat i) \<longrightarrow> vread pm' pt va' = vread pm pt va'))"
  using assms
proof (induction fuel arbitrary: pm va src)
  case 0
  then show ?case by (auto simp: accessible_def user_only_def)
next
  case (Suc fuel)
  show ?case
  proof (cases "src = []")
    case False
    have w: "walkaddr pm pt (PGROUNDDOWN va) = Ret (uframe pm pt (PGROUNDDOWN va))" by (rule walkaddr_uframe [OF Suc.prems(1)])
    show ?thesis
    proof (cases "uframe pm pt (PGROUNDDOWN va)")
      case None
      then have "\<not> accessible pm pt va (length src)" using False by (auto simp: accessible_def vread_def intro!: exI [of _ 0])
      then show ?thesis using None w False by (auto simp: user_only_def)
    next
      case (Some pa)
      define n where "n = min (4096 - unat va mod 4096) (length src)"
      define pm1 where "pm1 = pm\<lparr>pm_data := store_list (pm_data pm) (unat pa + unat va mod 4096) (take n src)\<rparr>"
      note c = chunk [OF n_def _ Some]
      have n: "0 < n" "n \<le> length src" using c(1,2) False by simp_all
      have room: "unat va mod 4096 + length (take n src) \<le> 4096" using n_def by simp
      have u1: "user_only pm pt pm1" unfolding pm1_def by (rule user_only_store [OF Some room])
      note st = vread_store [OF Suc.prems(2) Some room pm1_def]
      let ?va1 = "PGROUNDDOWN va + 4096" and ?rest = "drop n src"
      have wf1: "vm_wf pm1 pt T" "uinj pm1 pt"
        using Suc.prems(1,2) user_only_frames [OF u1] by (simp_all add: vm_wf_def uinj_def pm1_def)
      have le: "length ?rest \<le> fuel" "length ?rest < 2 ^ 64" using Suc.prems(3,4) n by auto
      obtain pm2 where r: "copyout_loop fuel pm1 pt ?va1 ?rest = Ret (if accessible pm1 pt ?va1 (length ?rest) then 0 else - 1, pm2)"
        "user_only pm1 pt pm2"
        "accessible pm1 pt ?va1 (length ?rest) \<longrightarrow>
          (\<forall>i<length ?rest. vread pm2 pt (?va1 + of_nat i) = Some (?rest ! i)) \<and>
          (\<forall>va'. (\<forall>i<length ?rest. va' \<noteq> ?va1 + of_nat i) \<longrightarrow> vread pm2 pt va' = vread pm1 pt va')"
        using Suc.IH [OF wf1 le] by blast
      have acc: "accessible pm pt va (length src) \<longleftrightarrow> accessible pm1 pt ?va1 (length ?rest)"
        using accessible_split [OF n(2)] c(3,5) False user_only_accessible [OF u1]
        by (cases "n < length src") (auto simp: accessible_def)
      have va1: "?va1 + of_nat i = va + of_nat (n + i)" if "i < length ?rest" for i
        using that c(5) False by (auto simp: add.assoc)
      have m: "copyout_loop (Suc fuel) pm pt va src = Ret (if accessible pm pt va (length src) then 0 else - 1, pm2)"
        using w Some False r(1) acc by (simp add: Let_def page_offset PGSIZE_def n_def [symmetric] pm1_def [symmetric])
      have "vread pm2 pt (va + of_nat i) = Some (src ! i)"
        if a: "accessible pm pt va (length src)" and i: "i < length src" for i
      proof (cases "i < n")
        case True
        have "va + of_nat i \<noteq> ?va1 + of_nat j" if "j < length ?rest" for j
        proof
          assume "va + of_nat i = ?va1 + of_nat j"
          then have "(of_nat i :: u64) = of_nat (n + j)" using va1 [OF that] by simp
          moreover have "i < 2 ^ 64" "n + j < 2 ^ 64" using Suc.prems(4) i that by auto
          ultimately have "i = n + j" by (rule of_nat_inj_u64)
          then show False using True by simp
        qed
        then show ?thesis using r(3) a acc st(1) [of i] True i by simp
      next
        case False
        then have j: "i - n < length ?rest" "i = n + (i - n)" using i by simp_all
        then show ?thesis using r(3) a acc va1 [OF j(1)] by (metis nth_drop n(2))
      qed
      moreover have "vread pm2 pt va' = vread pm pt va'"
        if a: "accessible pm pt va (length src)" and o: "\<forall>i<length src. va' \<noteq> va + of_nat i" for va'
      proof -
        have "va' \<noteq> ?va1 + of_nat j" if "j < length ?rest" for j
        proof -
          have "n + j < length src" using that by simp
          then show ?thesis using o va1 [OF that] by presburger
        qed
        then have "vread pm2 pt va' = vread pm1 pt va'" using r(3) a acc by blast
        also have "\<dots> = vread pm pt va'" by (rule st(2)) (use o n in auto)
        finally show ?thesis .
      qed
      ultimately show ?thesis using m user_only_trans [OF u1 r(2)] by (intro exI [of _ pm2]) auto
    qed
  qed (auto simp: accessible_def user_only_def)
qed

subsection \<open>Strings from user memory\<close>

lemma take_until_null_no: "0 \<notin> set bs \<Longrightarrow> take_until_null bs = (False, bs)"
  by (induction bs) auto

lemma take_until_null_yes: "0 \<notin> set bs \<Longrightarrow> take_until_null (bs @ 0 # r) = (True, bs @ [0])"
  by (induction bs) auto

lemma length_ubytes [simp]: "length (ubytes pm pt va n) = n"
  by (simp add: ubytes_def)

lemma nth_ubytes: "i < n \<Longrightarrow> ubytes pm pt va n ! i = the (vread pm pt (va + of_nat i))"
  by (simp add: ubytes_def)

text \<open>\<open>ustring pm pt va k\<close>: user memory holds a string of length \<open>k\<close> at \<open>va\<close>, with its NUL.\<close>

definition ustring :: "pmem \<Rightarrow> u64 \<Rightarrow> u64 \<Rightarrow> nat \<Rightarrow> bool" where
  "ustring pm pt va k \<longleftrightarrow> accessible pm pt va (Suc k) \<and> 0 \<notin> set (ubytes pm pt va k) \<and> vread pm pt (va + of_nat k) = Some 0"

lemma ustring_drop: "ustring pm pt va k \<Longrightarrow> n \<le> k \<Longrightarrow> ustring pm pt (va + of_nat n) (k - n)"
  using accessible_split [of n "Suc k" pm pt va] ubytes_split [of n k pm pt va]
  by (auto simp: ustring_def add.assoc Suc_diff_le simp flip: of_nat_add)

lemma copyinstr_loop_spec:
  assumes "vm_wf pm pt T" "ustring pm pt va k" "k < mx" "mx \<le> fuel"
  shows "copyinstr_loop fuel pm pt va mx = Ret (0, ubytes pm pt va k @ [0])"
  using assms(2-4)
proof (induction fuel arbitrary: va mx k)
  case (Suc fuel)
  have w: "walkaddr pm pt (PGROUNDDOWN va) = Ret (uframe pm pt (PGROUNDDOWN va))" by (rule walkaddr_uframe [OF assms(1)])
  have "vread pm pt (va + of_nat 0) \<noteq> None" using Suc.prems(1) unfolding ustring_def accessible_def by blast
  then obtain pa where pa: "uframe pm pt (PGROUNDDOWN va) = Some pa" by (auto simp: vread_def)
  define n where "n = min (4096 - unat va mod 4096) mx"
  have mx: "0 < mx" using Suc.prems(2) by simp
  note c = chunk [OF n_def mx pa]
  let ?bs = "bytes_at (pm_data pm) (unat pa + unat va mod 4096) n"
  have step: "copyinstr_loop (Suc fuel) pm pt va mx =
      (case take_until_null ?bs of
         (True, bs) \<Rightarrow> Ret (0, bs)
       | (False, bs) \<Rightarrow> kbind (copyinstr_loop fuel pm pt (PGROUNDDOWN va + 4096) (mx - n)) (\<lambda>(res, rest). Ret (res, bs @ rest)))"
    unfolding copyinstr_loop.simps Let_def page_offset PGSIZE_def n_def [symmetric] using w pa mx by simp
  show ?case
  proof (cases "k < n")
    case True
    have "ubytes pm pt va n = ubytes pm pt va k @ ubytes pm pt (va + of_nat k) (n - k)" by (rule ubytes_split) (use True in simp)
    also have "ubytes pm pt (va + of_nat k) (n - k) = 0 # ubytes pm pt (va + of_nat k + 1) (n - k - 1)"
      using ubytes_split [of 1 "n - k" pm pt "va + of_nat k"] True Suc.prems(1) by (simp add: ubytes_def ustring_def)
    finally show ?thesis using step c(4) take_until_null_yes Suc.prems(1) by (simp add: ustring_def)
  next
    case False
    then have n: "n \<le> k" "n < mx" using Suc.prems(2) by simp_all
    have "0 \<notin> set (ubytes pm pt va n)"
      using ubytes_split [OF n(1), of pm pt va] Suc.prems(1) by (auto simp: ustring_def)
    then have t: "take_until_null ?bs = (False, ubytes pm pt va n)" using c(4) take_until_null_no by simp
    have "copyinstr_loop fuel pm pt (va + of_nat n) (mx - n) = Ret (0, ubytes pm pt (va + of_nat n) (k - n) @ [0])"
      by (rule Suc.IH) (use ustring_drop [OF Suc.prems(1) n(1)] Suc.prems(2,3) n c(1) in auto)
    then show ?thesis using step t c(5) n(2) ubytes_split [OF n(1), of pm pt va] by simp
  qed
qed simp

subsection \<open>Properties\<close>

text \<open>C28: \<^verbatim>\<open>copyout\<close> is safe and complete: it returns 0 exactly when every byte of the target range is mapped for the user;
  whether it succeeds or fails, page tables and allocator are unchanged and no physical byte outside the
  user's pages is written; and on success the user reads the copied bytes in the range and what it
  read before everywhere else.\<close>

theorem copyout_writes:
  assumes "vm_wf pm pt T" "uinj pm pt" "length src < 2 ^ 64"
  shows "\<exists>pm'. copyout pm pt va src = Ret (if accessible pm pt va (length src) then 0 else - 1, pm') \<and>
     pm_tabs pm' = pm_tabs pm \<and> pm_free pm' = pm_free pm \<and>
     (\<forall>a. pm_data pm' a \<noteq> pm_data pm a \<longrightarrow> (\<exists>va pa. uframe pm pt va = Some pa \<and> unat pa \<le> a \<and> a < unat pa + 4096)) \<and>
     (accessible pm pt va (length src) \<longrightarrow>
        (\<forall>i<length src. vread pm' pt (va + of_nat i) = Some (src ! i)) \<and>
        (\<forall>va'. (\<forall>i<length src. va' \<noteq> va + of_nat i) \<longrightarrow> vread pm' pt va' = vread pm pt va'))"
  using copyout_loop_spec [OF assms(1,2) order_refl assms(3)] unfolding copyout_def user_only_def by blast

definition one_page :: pmem where
  "one_page = \<lparr>pm_tabs = [0x1000 \<mapsto> (\<lambda>i. if i = 0 then PA2PTE 0x2000 OR PTE_V else 0),
       0x2000 \<mapsto> (\<lambda>i. if i = 0 then PA2PTE 0x3000 OR PTE_V else 0),
       0x3000 \<mapsto> (\<lambda>i. if i = 0 then PA2PTE 0x4000 OR PTE_W OR PTE_U OR PTE_V else 0)],
     pm_data = store_list (\<lambda>_. 0) 0x4005 [104, 105], pm_free = [0x5000]\<rparr>"

lemma PTE2PA_4: "PTE2PA (PA2PTE 0x2000 OR PTE_V) = 0x2000" "PTE2PA (PA2PTE 0x3000 OR PTE_V) = 0x3000"
  "PTE2PA (PA2PTE 0x4000 OR PTE_W OR PTE_U OR PTE_V) = 0x4000"
  by (simp_all add: PTE2PA_def PA2PTE_def pte_bits)

lemma PTE_V_nz [simp]: "PTE_V \<noteq> 0"
  by (simp add: PTE_V_def)

lemma one_page_ptree: "ptree 2 (pm_tabs one_page) 0x1000 {0x1000, 0x2000, 0x3000}"
proof -
  let ?h = "pm_tabs one_page"
  have z: "PTE_V AND PTE_V \<noteq> 0" "(0 :: u64) AND PTE_V = 0" by (simp_all add: PTE_V_def)
  have "ptree 0 ?h 0x3000 {0x3000}" by (simp add: one_page_def)
  then have "ptree 1 ?h 0x2000 {0x2000, 0x3000}"
    unfolding One_nat_def ptree.simps(2) [of 0]
    by (intro exI [of _ "\<lambda>i. if i = 0 then PA2PTE 0x3000 OR PTE_V else 0"] exI [of _ "\<lambda>i. if i = 0 then {0x3000} else {}"])
      (auto simp: one_page_def pte_valid PTE2PA_4)
  then show ?thesis
    unfolding numeral_2_eq_2 ptree.simps(2) [of "Suc 0"]
    by (intro exI [of _ "\<lambda>i. if i = 0 then PA2PTE 0x2000 OR PTE_V else 0"] exI [of _ "\<lambda>i. if i = 0 then {0x2000, 0x3000} else {}"])
      (auto simp: one_page_def pte_valid PTE2PA_4 simp del: ptree.simps)
qed

lemma one_page_wf: "vm_wf one_page 0x1000 {0x1000, 0x2000, 0x3000}"
  using one_page_ptree by (simp add: vm_wf_def one_page_def page_aligned_def mask_eq_exp_minus_1)

lemma lookup_2:
  "lookup 2 h pt va = (case h pt of None \<Rightarrow> None | Some t \<Rightarrow>
     if t (PX 2 va) AND PTE_V \<noteq> 0 then lookup 1 h (PTE2PA (t (PX 2 va))) va else Some 0)"
  by (simp add: numeral_2_eq_2 Let_def split: option.splits)

lemma lookup_1:
  "lookup 1 h pt va = (case h pt of None \<Rightarrow> None | Some t \<Rightarrow>
     if t (PX 1 va) AND PTE_V \<noteq> 0 then lookup 0 h (PTE2PA (t (PX 1 va))) va else Some 0)"
  by (simp add: Let_def split: option.splits)

lemma same_slot_2: "same_slot 2 va va' \<longleftrightarrow> PX 2 va = PX 2 va' \<and> PX 1 va = PX 1 va' \<and> PX 0 va = PX 0 va'"
  by (simp add: numeral_2_eq_2)

lemma one_page_uframe: "uframe one_page 0x1000 va = (if va < MAXVA \<and> page_no va = 0 then Some 0x4000 else None)"
proof -
  let ?e = "PA2PTE 0x4000 OR PTE_W OR PTE_U OR PTE_V"
  have e: "?e AND PTE_V \<noteq> 0" "?e AND PTE_U \<noteq> 0" by (simp_all add: PA2PTE_def pte_bits)
  have tr: "translate one_page 0x1000 va = (if PX 0 va = 0 \<and> PX 1 va = 0 \<and> PX 2 va = 0 then ?e else 0)"
    unfolding translate_def lookup_2 lookup_1 using e(1) by (simp add: one_page_def PTE2PA_4 pte_valid)
  have "(PX 0 va = 0 \<and> PX 1 va = 0 \<and> PX 2 va = 0) \<longleftrightarrow> page_no va = 0" if "va < MAXVA"
  proof -
    have "PX 0 0 = 0" "PX 1 0 = 0" "PX 2 0 = 0" by (simp_all add: PX_def)
    then show ?thesis using same_slot_page [OF that, of 0] unfolding same_slot_2 by (auto simp: MAXVA_def page_no_def)
  qed
  then show ?thesis using e by (cases "va < MAXVA") (auto simp: uframe_def tr PTE2PA_4 Let_def)
qed

lemma one_page_uinj: "uinj one_page 0x1000"
  by (auto simp: uinj_def one_page_uframe split: if_splits)

lemma one_page_vread: "unat va < 4096 \<Longrightarrow> vread one_page 0x1000 va = Some (pm_data one_page (0x4000 + unat va))"
proof -
  assume va: "unat va < 4096"
  then have "page_no va = 0" by (simp add: page_no_def)
  moreover from this have "PGROUNDDOWN va = 0" using unat_PGROUNDDOWN [of va] by (simp add: word_unat_eq_iff)
  ultimately show ?thesis using va by (simp add: vread_def one_page_uframe MAXVA_def page_no_def)
qed

lemma one_page_accessible: "unat va + n \<le> 4096 \<Longrightarrow> accessible one_page 0x1000 va n"
  by (simp add: accessible_def one_page_vread unat_add_of_nat)

theorem copyout_writes_witness:
  "\<exists>pm'. copyout one_page 0x1000 100 [1, 2, 3] = Ret (if accessible one_page 0x1000 100 (length [1, 2, 3 :: u8]) then 0 else - 1, pm') \<and>
     pm_tabs pm' = pm_tabs one_page \<and> pm_free pm' = pm_free one_page \<and>
     (\<forall>a. pm_data pm' a \<noteq> pm_data one_page a \<longrightarrow>
        (\<exists>va pa. uframe one_page 0x1000 va = Some pa \<and> unat pa \<le> a \<and> a < unat pa + 4096)) \<and>
     (accessible one_page 0x1000 100 (length [1, 2, 3 :: u8]) \<longrightarrow>
        (\<forall>i<length [1, 2, 3 :: u8]. vread pm' 0x1000 (100 + of_nat i) = Some ([1, 2, 3] ! i)) \<and>
        (\<forall>va'. (\<forall>i<length [1, 2, 3 :: u8]. va' \<noteq> 100 + of_nat i) \<longrightarrow> vread pm' 0x1000 va' = vread one_page 0x1000 va'))"
  by (rule copyout_writes [OF one_page_wf one_page_uinj]) simp

text \<open>C29: what \<^verbatim>\<open>copyout\<close> has written to user memory, \<^verbatim>\<open>copyin\<close> reads back.\<close>

theorem copyout_copyin:
  assumes wf: "vm_wf pm pt T" "uinj pm pt" and l: "length src < 2 ^ 64" and acc: "accessible pm pt va (length src)"
  shows "\<exists>pm'. copyout pm pt va src = Ret (0, pm') \<and> copyin pm' pt va (length src) = Ret (0, src)"
proof -
  obtain pm' where o: "copyout pm pt va src = Ret (0, pm')" "user_only pm pt pm'"
    "\<forall>i<length src. vread pm' pt (va + of_nat i) = Some (src ! i)"
    using copyout_loop_spec [OF wf order_refl l, of va] acc unfolding copyout_def by auto
  have wf': "vm_wf pm' pt T" using wf(1) o(2) by (simp add: vm_wf_def user_only_def)
  have acc': "accessible pm' pt va (length src)" using user_only_accessible [OF o(2)] acc by simp
  have "ubytes pm' pt va (length src) = src" using o(3) by (simp add: list_eq_iff_nth_eq nth_ubytes)
  then show ?thesis using o(1) copyin_loop_spec [OF wf' order_refl [of "length src"], of va] acc' by (auto simp: copyin_def)
qed

theorem copyout_copyin_witness:
  "\<exists>pm'. copyout one_page 0x1000 100 [1, 2, 3] = Ret (0, pm') \<and> copyin pm' 0x1000 100 (length [1, 2, 3 :: u8]) = Ret (0, [1, 2, 3])"
  by (rule copyout_copyin [OF one_page_wf one_page_uinj]) (simp_all add: one_page_accessible)

text \<open>\<^verbatim>\<open>copyinstr\<close> returns exactly the string at the user address, with its NUL, whenever it is shorter than the
  limit, however many pages it crosses.\<close>

theorem copyinstr_string:
  assumes "vm_wf pm pt T" "ustring pm pt va k" "k < mx"
  shows "copyinstr pm pt va mx = Ret (0, ubytes pm pt va k @ [0])"
  unfolding copyinstr_def by (rule copyinstr_loop_spec [OF assms order_refl])

lemma one_page_string: "ustring one_page 0x1000 5 2"
proof -
  have d: "vread one_page 0x1000 5 = Some 104" "vread one_page 0x1000 6 = Some 105" "vread one_page 0x1000 7 = Some 0"
    by (simp_all add: one_page_vread, simp_all add: one_page_def store_list_def)
  have "[0..<2] = [0, 1 :: nat]" by (simp add: upt_rec)
  then have "ubytes one_page 0x1000 5 2 = [104, 105]" using d by (simp add: ubytes_def)
  then show ?thesis using d(3) by (simp add: ustring_def one_page_accessible)
qed

theorem copyinstr_string_witness:
  "copyinstr one_page 0x1000 5 10 = Ret (0, ubytes one_page 0x1000 5 2 @ [0])"
  by (rule copyinstr_string [OF one_page_wf one_page_string]) simp

text \<open>\<^verbatim>\<open>mappages\<close> maps exactly the pages of the range: given enough free pages for page tables and no page of the
  range mapped yet, it succeeds, the entry of each page of the range points to the corresponding physical
  page with the requested permissions, every other translation and all of memory are unchanged, and the
  page table stays a tree of live pages that the allocator will not hand out.\<close>

theorem mappages_maps:
  assumes wf: "vm_wf pm pt T" and sz: "0 < sz" "unat va + unat sz \<le> 2 ^ 38"
    and free: "2 * (page_no (va + sz - 1) - page_no va + 1) \<le> length (pm_free pm)"
    and unmapped: "\<And>va'. va' < MAXVA \<Longrightarrow> page_no va \<le> page_no va' \<Longrightarrow> page_no va' \<le> page_no (va + sz - 1) \<Longrightarrow> translate pm pt va' AND PTE_V = 0"
  shows "\<exists>pm' T'. mappages pm pt va sz pa perm = Ret (0, pm') \<and> vm_wf pm' pt T' \<and> pm_data pm' = pm_data pm \<and>
     (\<forall>va'. va' < MAXVA \<longrightarrow> translate pm' pt va' =
        (if page_no va \<le> page_no va' \<and> page_no va' \<le> page_no (va + sz - 1)
         then PA2PTE (pa + of_nat (4096 * (page_no va' - page_no va))) OR perm OR PTE_V else translate pm pt va'))"
proof -
  let ?l = "va + sz - 1"
  have s0: "0 < unat sz" using sz(1) by (simp add: word_less_nat_alt)
  have "unat (va + sz) = unat va + unat sz" using sz(2) by (simp add: unat_add_small)
  then have ul: "unat ?l = unat va + unat sz - 1" using s0 by (subst unat_sub) (auto simp: word_le_nat_alt)
  then have le: "page_no va \<le> page_no ?l" using s0 by (simp add: page_no_def div_le_mono)
  have lt: "page_no ?l < 2 ^ 26" using ul s0 sz(2) by (simp add: page_no_def less_mult_imp_div_less)
  define k where "k = page_no ?l - page_no va"
  have last: "PGROUNDDOWN ?l = PGROUNDDOWN va + of_nat (4096 * k)" unfolding k_def using PGROUNDDOWN_add [OF le] by simp
  have pk: "page_no va + k = page_no ?l" using le by (simp add: k_def)
  have "\<exists>pm' T'. mappages_loop (Suc VA_PAGES) pm pt (PGROUNDDOWN va) (PGROUNDDOWN va + of_nat (4096 * k)) pa perm = Ret (0, pm') \<and> vm_wf pm' pt T' \<and> T \<subseteq> T' \<and>
     T' \<subseteq> T \<union> (set (pm_free pm) - set (pm_free pm')) \<and> (\<exists>j\<le>2 * (k + 1). pm_free pm' = drop j (pm_free pm)) \<and> pm_data pm' = pm_data pm \<and>
     (\<forall>va'. va' < MAXVA \<longrightarrow> translate pm' pt va' =
        (if page_no (PGROUNDDOWN va) \<le> page_no va' \<and> page_no va' \<le> page_no (PGROUNDDOWN va) + k
         then PA2PTE (pa + of_nat (4096 * (page_no va' - page_no (PGROUNDDOWN va)))) OR perm OR PTE_V else translate pm pt va'))"
    by (rule mappages_loop_maps [OF wf])
      (use lt pk free unmapped in \<open>auto simp: unat_PGROUNDDOWN VA_PAGES_def k_def [symmetric]\<close>)
  then show ?thesis unfolding mappages_def last page_no_PGROUNDDOWN pk by blast
qed

lemma one_page_translate: "va < MAXVA \<Longrightarrow> page_no va \<noteq> 0 \<Longrightarrow> page_no va < 512 \<Longrightarrow> translate one_page 0x1000 va = 0"
proof -
  assume va: "va < MAXVA" "page_no va \<noteq> 0" "page_no va < 512"
  have px: "PX 2 va = 0" "PX 1 va = 0" "PX 0 va \<noteq> 0" using va(2,3) unfolding PX_digits by simp_all
  show ?thesis unfolding translate_def lookup_2 lookup_1 using px by (simp add: one_page_def PTE2PA_4 pte_valid)
qed

definition roomy_page :: pmem where
  "roomy_page = one_page\<lparr>pm_free := [0x5000, 0x6000, 0x7000, 0x8000]\<rparr>"

theorem mappages_maps_witness:
  "\<exists>pm' T'. mappages roomy_page 0x1000 0x2100 0x1000 0x9000 (PTE_R OR PTE_U) = Ret (0, pm') \<and> vm_wf pm' 0x1000 T' \<and>
     pm_data pm' = pm_data roomy_page \<and>
     (\<forall>va'. va' < MAXVA \<longrightarrow> translate pm' 0x1000 va' =
        (if page_no 0x2100 \<le> page_no va' \<and> page_no va' \<le> page_no (0x2100 + 0x1000 - 1)
         then PA2PTE (0x9000 + of_nat (4096 * (page_no va' - page_no 0x2100))) OR (PTE_R OR PTE_U) OR PTE_V
         else translate roomy_page 0x1000 va'))"
proof (rule mappages_maps)
  show "vm_wf roomy_page 0x1000 {0x1000, 0x2000, 0x3000}"
    using one_page_wf by (simp add: vm_wf_def roomy_page_def page_aligned_def mask_eq_exp_minus_1)
  show "translate roomy_page 0x1000 va' AND PTE_V = 0"
    if "va' < MAXVA" "page_no 0x2100 \<le> page_no va'" "page_no va' \<le> page_no (0x2100 + 0x1000 - 1)" for va'
  proof -
    have "page_no 0x2100 = 2" "page_no (0x2100 + 0x1000 - 1) = 3" by (simp_all add: page_no_def)
    then have "translate one_page 0x1000 va' = 0" using that by (intro one_page_translate) auto
    then show ?thesis by (simp add: translate_def roomy_page_def)
  qed
qed (simp_all add: page_no_def roomy_page_def)

end
