(* ===== verification/Ringbuf.thy ===== *)
theory Ringbuf
  imports Prelude
begin

text \<open>
  Ring buffers in an array of \<open>M\<close> bytes with free-running 32-bit cursors, as pipes and the console have them: the slot of
  a cursor is its value modulo \<open>M\<close>, and \<open>M\<close> divides \<open>2 ^ 32\<close>, so that slots follow the cursors through their
  wrap-around.
\<close>

definition ring_bytes :: "nat \<Rightarrow> bytes \<Rightarrow> u32 \<Rightarrow> nat \<Rightarrow> u8 list" where
  "ring_bytes M b i n = map (\<lambda>j. b (unat (i + of_nat j) mod M)) [0..<n]"

lemma length_ring_bytes [simp]: "length (ring_bytes M b i n) = n"
  by (simp add: ring_bytes_def)

lemma ring_bytes_0 [simp]: "ring_bytes M b i 0 = []"
  by (simp add: ring_bytes_def)

lemma slot_add:
  assumes "M dvd 2 ^ 32"
  shows "unat (x + of_nat j :: u32) mod M = (unat x + j) mod M"
proof -
  have "unat (x + of_nat j) = (unat x + j) mod 2 ^ 32" by (simp add: unat_word_ariths unat_of_nat mod_simps)
  then show ?thesis using assms by (simp only: mod_mod_cancel)
qed

lemma slots_differ: "i < j \<Longrightarrow> j < M \<Longrightarrow> ((x :: nat) + i) mod M \<noteq> (x + j) mod M"
proof
  assume ij: "i < j" "j < M" and "(x + i) mod M = (x + j) mod M"
  then have "(x + j) mod M = (x + i) mod M" by simp
  then have "M dvd (x + j) - (x + i)" using mod_eq_dvd_iff_nat [of "x + i" "x + j" M] ij(1) by simp
  then show False using ij by (auto dest: dvd_imp_le)
qed

lemma ring_bytes_Cons: "ring_bytes M b i (Suc n) = b (unat i mod M) # ring_bytes M b (i + 1) n"
  by (simp add: ring_bytes_def upt_conv_Cons map_Suc_upt [symmetric] comp_def algebra_simps del: upt_Suc)

lemma ring_bytes_snoc: "ring_bytes M b i (Suc n) = ring_bytes M b i n @ [b (unat (i + of_nat n) mod M)]"
  by (simp add: ring_bytes_def)

lemma ring_bytes_append: "ring_bytes M b i (m + n) = ring_bytes M b i m @ ring_bytes M b (i + of_nat m) n"
  by (induction m arbitrary: i) (simp_all add: ring_bytes_Cons algebra_simps)

text \<open>A store in the slot after \<open>n < M\<close> bytes does not touch them.\<close>

lemma ring_bytes_store:
  assumes "M dvd 2 ^ 32" "n < M" "m \<le> n"
  shows "ring_bytes M (b(unat (i + of_nat n) mod M := c)) i m = ring_bytes M b i m"
proof -
  have "unat (i + of_nat j) mod M \<noteq> unat (i + of_nat n) mod M" if "j < m" for j
    unfolding slot_add [OF assms(1)] using slots_differ [of j n M "unat i"] that assms(2,3) by simp
  then show ?thesis by (simp add: ring_bytes_def)
qed

lemma ring_bytes_push:
  assumes "M dvd 2 ^ 32" "n < M"
  shows "ring_bytes M (b(unat (i + of_nat n) mod M := c)) i (Suc n) = ring_bytes M b i n @ [c]"
  unfolding ring_bytes_snoc using ring_bytes_store [OF assms order_refl] by simp

end
