(* ===== verification/Pipe.thy ===== *)
theory Pipe
  imports Uservm Filetab Ringbuf
begin

text \<open>
  Pipes (kernel/proc/pipe.c). The critical section of the pipe's lock is one step; a call that has to wait
  ends in \<open>PSleep i\<close>, the point \<^verbatim>\<open>sleep\<close> is called at with the loop variable \<open>i\<close>, and is
  resumed from there. \<^verbatim>\<open>nread\<close> and \<^verbatim>\<open>nwrite\<close> are 32-bit counters that wrap around. \<open>woken\<close>
  collects the channels passed to \<^verbatim>\<open>wakeup\<close>.
\<close>

definition PIPESIZE :: nat where "PIPESIZE = 512"

datatype pchan = NREAD | NWRITE

record pipe =
  pi_data :: "nat \<Rightarrow> u8"
  pi_nread :: u32
  pi_nwrite :: u32
  pi_readopen :: bool
  pi_writeopen :: bool

datatype progress = PDone int | PSleep nat

subsection \<open>Allocation and release\<close>

text \<open>\<open>junk0\<close>, \<open>junk1\<close> and \<open>d\<close> are what the fresh blocks hold.\<close>

definition new_pipe :: "(nat \<Rightarrow> u8) \<Rightarrow> pipe" where
  "new_pipe d = \<lparr>pi_data = d, pi_nread = 0, pi_nwrite = 0, pi_readopen = True, pi_writeopen = True\<rparr>"

definition pipealloc ::
  "kfile \<Rightarrow> kfile \<Rightarrow> (nat \<Rightarrow> u8) \<Rightarrow> filetab \<Rightarrow> (nat \<rightharpoonup> pipe) \<Rightarrow> nat \<Rightarrow>
   (nat \<times> nat \<times> filetab \<times> (nat \<rightharpoonup> pipe)) kres" where
  "pipealloc junk0 junk1 d t ps p =
     kbind (filealloc junk0 t) (\<lambda>(f0, t1).
     kbind (filealloc junk1 t1) (\<lambda>(f1, t2).
     kbind (deref (ft_heap t2) (Some f0)) (\<lambda>k0.
     let h0 = (ft_heap t2)(f0 \<mapsto> k0\<lparr>f_type := FD_PIPE, f_readable := True, f_writable := False, f_pipe := Some p\<rparr>) in
     kbind (deref h0 (Some f1)) (\<lambda>k1.
     let h1 = h0(f1 \<mapsto> k1\<lparr>f_type := FD_PIPE, f_readable := False, f_writable := True, f_pipe := Some p\<rparr>) in
     Ret (f0, f1, t2\<lparr>ft_heap := h1\<rparr>, ps(p \<mapsto> new_pipe d))))))"

definition pipeclose :: "(nat \<rightharpoonup> pipe) \<Rightarrow> nat \<Rightarrow> bool \<Rightarrow> ((nat \<rightharpoonup> pipe) \<times> pchan list) kres" where
  "pipeclose ps p writable =
     kbind (deref ps (Some p)) (\<lambda>pi.
     let (pi1, woken) = (if writable then (pi\<lparr>pi_writeopen := False\<rparr>, [NREAD]) else (pi\<lparr>pi_readopen := False\<rparr>, [NWRITE])) in
     if \<not> pi_readopen pi1 \<and> \<not> pi_writeopen pi1 then Ret (ps(p := None), woken) else Ret (ps(p \<mapsto> pi1), woken))"

subsection \<open>Writing\<close>

text \<open>
  The loop of \<^verbatim>\<open>pipewrite\<close> with \<open>k = n - i\<close> turns left. A failing \<^verbatim>\<open>copyin\<close> breaks out of it; the result is \<open>n\<close>
  all the same.
\<close>

fun pipewrite_loop :: "nat \<Rightarrow> pipe \<Rightarrow> pmem \<Rightarrow> u64 \<Rightarrow> u64 \<Rightarrow> int \<Rightarrow> nat \<Rightarrow> bool \<Rightarrow> (progress \<times> pipe \<times> pchan list) kres" where
  "pipewrite_loop 0 pi pm pt addr n i killed = Ret (PDone n, pi, [NREAD])"
| "pipewrite_loop (Suc k) pi pm pt addr n i killed =
     (if pi_nwrite pi = pi_nread pi + of_nat PIPESIZE then
        (if \<not> pi_readopen pi \<or> killed then Ret (PDone (- 1), pi, []) else Ret (PSleep i, pi, [NREAD]))
      else
        kbind (copyin pm pt (addr + of_nat i) 1) (\<lambda>(r, bs).
        if r = - 1 then Ret (PDone n, pi, [NREAD])
        else
          pipewrite_loop k
            (pi\<lparr>pi_data := (pi_data pi)(unat (pi_nwrite pi) mod PIPESIZE := hd bs), pi_nwrite := pi_nwrite pi + 1\<rparr>)
            pm pt addr n (Suc i) killed))"

text \<open>\<^verbatim>\<open>pipewrite\<close> from loop variable \<open>i\<close>: a new call starts at 0, a sleeping one where it stopped.\<close>

definition pipewrite :: "pipe \<Rightarrow> pmem \<Rightarrow> u64 \<Rightarrow> u64 \<Rightarrow> int \<Rightarrow> nat \<Rightarrow> bool \<Rightarrow> (progress \<times> pipe \<times> pchan list) kres" where
  "pipewrite pi pm pt addr n i killed = pipewrite_loop (nat n - i) pi pm pt addr n i killed"

subsection \<open>Reading\<close>

fun piperead_loop :: "nat \<Rightarrow> pipe \<Rightarrow> pmem \<Rightarrow> u64 \<Rightarrow> u64 \<Rightarrow> nat \<Rightarrow> (nat \<times> pipe \<times> pmem) kres" where
  "piperead_loop 0 pi pm pt addr i = Ret (i, pi, pm)"
| "piperead_loop (Suc k) pi pm pt addr i =
     (if pi_nread pi = pi_nwrite pi then Ret (i, pi, pm)
      else
        let ch = pi_data pi (unat (pi_nread pi) mod PIPESIZE);
            pi1 = pi\<lparr>pi_nread := pi_nread pi + 1\<rparr> in
        kbind (copyout pm pt (addr + of_nat i) [ch]) (\<lambda>(r, pm1).
        if r = - 1 then Ret (i, pi1, pm1) else piperead_loop k pi1 pm1 pt addr (Suc i)))"

definition piperead :: "pipe \<Rightarrow> pmem \<Rightarrow> u64 \<Rightarrow> u64 \<Rightarrow> int \<Rightarrow> bool \<Rightarrow> bool \<Rightarrow> (progress \<times> pipe \<times> pmem \<times> pchan list) kres" where
  "piperead pi pm pt addr n nonblockable killed =
     (if nonblockable \<and> pi_nread pi = pi_nwrite pi \<and> pi_writeopen pi then Ret (PDone 0, pi, pm, [])
      else if pi_nread pi = pi_nwrite pi \<and> pi_writeopen pi then
        (if killed then Ret (PDone (- 1), pi, pm, []) else Ret (PSleep 0, pi, pm, []))
      else
        kbind (piperead_loop (nat n) pi pm pt addr 0) (\<lambda>(i, pi1, pm1).
        Ret (PDone (int i), pi1, pm1, [NWRITE])))"

subsection \<open>A pipe is a bounded queue\<close>

definition pipe_len :: "pipe \<Rightarrow> nat" where
  "pipe_len pi = unat (pi_nwrite pi - pi_nread pi)"

definition pipe_bytes :: "pipe \<Rightarrow> u8 list" where
  "pipe_bytes pi = ring_bytes PIPESIZE (pi_data pi) (pi_nread pi) (pipe_len pi)"

definition pipe_ok :: "pipe \<Rightarrow> bool" where
  "pipe_ok pi \<longleftrightarrow> pipe_len pi \<le> PIPESIZE"

lemma length_pipe_bytes [simp]: "length (pipe_bytes pi) = pipe_len pi"
  by (simp add: pipe_bytes_def)

lemma new_pipe_ok: "pipe_ok (new_pipe d)" "pipe_bytes (new_pipe d) = []"
  by (simp_all add: pipe_ok_def pipe_len_def pipe_bytes_def new_pipe_def)

lemma pipe_full_iff: "pipe_ok pi \<Longrightarrow> pi_nwrite pi = pi_nread pi + of_nat PIPESIZE \<longleftrightarrow> pipe_len pi = PIPESIZE"
proof -
  have "pi_nwrite pi = pi_nread pi + of_nat PIPESIZE \<longleftrightarrow> pi_nwrite pi - pi_nread pi = of_nat PIPESIZE"
    by (auto simp: algebra_simps)
  also have "\<dots> \<longleftrightarrow> unat (pi_nwrite pi - pi_nread pi) = PIPESIZE" by (simp add: word_unat_eq_iff PIPESIZE_def)
  finally show ?thesis by (simp add: pipe_len_def)
qed

lemma pipe_empty_iff: "pi_nread pi = pi_nwrite pi \<longleftrightarrow> pipe_len pi = 0"
proof -
  have "unat (pi_nwrite pi - pi_nread pi) = unat (0 :: u32) \<longleftrightarrow> pi_nwrite pi - pi_nread pi = 0" by (simp only: word_unat_eq_iff)
  then show ?thesis by (auto simp: pipe_len_def)
qed

lemma PIPESIZE_dvd: "PIPESIZE dvd 2 ^ 32"
  by (simp add: PIPESIZE_def)

definition pipe_push :: "pipe \<Rightarrow> u8 \<Rightarrow> pipe" where
  "pipe_push pi c = pi\<lparr>pi_data := (pi_data pi)(unat (pi_nwrite pi) mod PIPESIZE := c), pi_nwrite := pi_nwrite pi + 1\<rparr>"

lemma pipe_push_bytes:
  assumes "pipe_len pi < PIPESIZE"
  shows "pipe_bytes (pipe_push pi c) = pipe_bytes pi @ [c]" "pipe_len (pipe_push pi c) = pipe_len pi + 1"
proof -
  let ?d = "pi_nwrite pi - pi_nread pi"
  have "unat (?d + 1) = unat ?d + 1"
    using assms by (subst unat_add_small) (simp_all add: pipe_len_def PIPESIZE_def)
  then show len: "pipe_len (pipe_push pi c) = pipe_len pi + 1" by (simp add: pipe_len_def pipe_push_def algebra_simps)
  have nw: "pi_nwrite pi = pi_nread pi + of_nat (pipe_len pi)" by (simp add: pipe_len_def)
  show "pipe_bytes (pipe_push pi c) = pipe_bytes pi @ [c]"
    using ring_bytes_push [OF PIPESIZE_dvd assms, of "pi_data pi" "pi_nread pi" c]
    unfolding pipe_bytes_def len by (simp add: pipe_push_def nw [symmetric])
qed

lemma pipe_pop_bytes:
  assumes "0 < pipe_len pi"
  shows "pipe_bytes pi = pi_data pi (unat (pi_nread pi) mod PIPESIZE) # pipe_bytes (pi\<lparr>pi_nread := pi_nread pi + 1\<rparr>)"
    "pipe_len pi = Suc (pipe_len (pi\<lparr>pi_nread := pi_nread pi + 1\<rparr>))"
proof -
  let ?d = "pi_nwrite pi - pi_nread pi"
  have "1 \<le> ?d" using assms by (simp add: pipe_len_def word_le_nat_alt)
  then have "unat (?d - 1) = unat ?d - 1" by (simp add: unat_sub)
  then show len: "pipe_len pi = Suc (pipe_len (pi\<lparr>pi_nread := pi_nread pi + 1\<rparr>))"
    using assms by (simp add: pipe_len_def algebra_simps)
  show "pipe_bytes pi = pi_data pi (unat (pi_nread pi) mod PIPESIZE) # pipe_bytes (pi\<lparr>pi_nread := pi_nread pi + 1\<rparr>)"
    unfolding pipe_bytes_def len by (simp add: ring_bytes_Cons)
qed

subsection \<open>What the calls do to the queue\<close>

lemma copyin_byte:
  assumes "vm_wf pm pt T"
  shows "copyin pm pt va 1 = Ret (case vread pm pt va of None \<Rightarrow> (- 1, []) | Some b \<Rightarrow> (0, [b]))"
proof -
  have "accessible pm pt va 1 \<longleftrightarrow> vread pm pt va \<noteq> None" by (simp add: accessible_def)
  moreover have "walkaddr pm pt (PGROUNDDOWN va) = Ret (uframe pm pt (PGROUNDDOWN va))" by (rule walkaddr_uframe [OF assms])
  moreover have "0 < min (PGSIZE - unat va mod 4096) 1" "min (PGSIZE - unat va mod 4096) 1 = 1"
    using mod_less_divisor [of 4096 "unat va"] by (simp_all add: PGSIZE_def)
  ultimately show ?thesis
    by (auto simp: copyin_def vread_def Let_def page_offset bytes_at_Suc split: option.splits)
qed

lemma pipewrite_loop_appends:
  assumes "vm_wf pm pt T" "pipe_ok pi" "accessible pm pt addr (i + k)"
  shows "\<exists>j pi' w r. pipewrite_loop k pi pm pt addr n i killed = Ret (r, pi', w) \<and> j \<le> k \<and>
     j = min k (PIPESIZE - pipe_len pi) \<and>
     pipe_bytes pi' = pipe_bytes pi @ ubytes pm pt (addr + of_nat i) j \<and> pipe_ok pi' \<and>
     pi_readopen pi' = pi_readopen pi \<and> pi_writeopen pi' = pi_writeopen pi \<and>
     (if j = k then r = PDone n \<and> w = [NREAD] else if \<not> pi_readopen pi \<or> killed then r = PDone (- 1) \<and> w = [] else r = PSleep (i + j) \<and> w = [NREAD])"
  using assms(2,3)
proof (induction k arbitrary: pi i)
  case 0
  then show ?case by (simp add: ubytes_def)
next
  case (Suc k)
  show ?case
  proof (cases "pipe_len pi = PIPESIZE")
    case True
    then have "pipewrite_loop (Suc k) pi pm pt addr n i killed =
        (if \<not> pi_readopen pi \<or> killed then Ret (PDone (- 1), pi, []) else Ret (PSleep i, pi, [NREAD]))"
      using pipe_full_iff [OF Suc.prems(1)] by simp
    then show ?thesis using True Suc.prems(1) by (intro exI [of _ 0] exI [of _ pi]) (simp add: ubytes_def)
  next
    case False
    then have lt: "pipe_len pi < PIPESIZE" using Suc.prems(1) by (simp add: pipe_ok_def)
    have "vread pm pt (addr + of_nat i) \<noteq> None" using Suc.prems(2) unfolding accessible_def by simp
    then obtain b where b: "vread pm pt (addr + of_nat i) = Some b" by auto
    note pp = pipe_push_bytes [OF lt, of b]
    have st: "pipewrite_loop (Suc k) pi pm pt addr n i killed = pipewrite_loop k (pipe_push pi b) pm pt addr n (Suc i) killed"
      using pipe_full_iff [OF Suc.prems(1)] False copyin_byte [OF assms(1)] b by (simp add: pipe_push_def)
    have ok: "pipe_ok (pipe_push pi b)" using pp(2) lt by (simp add: pipe_ok_def)
    have acc: "accessible pm pt addr (Suc i + k)" using Suc.prems(2) by simp
    obtain j pi' w r where IH: "pipewrite_loop k (pipe_push pi b) pm pt addr n (Suc i) killed = Ret (r, pi', w)" "j \<le> k"
      "j = min k (PIPESIZE - pipe_len (pipe_push pi b))"
      "pipe_bytes pi' = pipe_bytes (pipe_push pi b) @ ubytes pm pt (addr + of_nat (Suc i)) j" "pipe_ok pi'"
      "pi_readopen pi' = pi_readopen (pipe_push pi b)" "pi_writeopen pi' = pi_writeopen (pipe_push pi b)"
      "if j = k then r = PDone n \<and> w = [NREAD] else if \<not> pi_readopen (pipe_push pi b) \<or> killed then r = PDone (- 1) \<and> w = [] else r = PSleep (Suc i + j) \<and> w = [NREAD]"
      using Suc.IH [OF ok acc] by (elim exE conjE) (rule that)
    have u: "ubytes pm pt (addr + of_nat i) (Suc j) = b # ubytes pm pt (addr + of_nat (Suc i)) j"
      using ubytes_split [of 1 "Suc j" pm pt "addr + of_nat i"] b by (simp add: ubytes_def algebra_simps)
    have jj: "Suc j = min (Suc k) (PIPESIZE - pipe_len pi)" using IH(3) pp(2) lt by simp
    have "pi_readopen (pipe_push pi b) = pi_readopen pi" "pi_writeopen (pipe_push pi b) = pi_writeopen pi" by (simp_all add: pipe_push_def)
    then show ?thesis using IH(1,2,4-8) u pp(1) st
      by (intro exI [of _ "Suc j"] exI [of _ pi'] exI [of _ w] exI [of _ r] conjI jj) simp_all
  qed
qed

lemma copyout_byte:
  assumes "vm_wf pm pt T" "uinj pm pt" "vread pm pt va \<noteq> None"
  shows "\<exists>pm'. copyout pm pt va [c] = Ret (0, pm') \<and> user_only pm pt pm' \<and> vread pm' pt va = Some c \<and>
     (\<forall>va'. va' \<noteq> va \<longrightarrow> vread pm' pt va' = vread pm pt va')"
  using copyout_loop_spec [OF assms(1,2), of "[c]" 1 va] assms(3) by (auto simp: copyout_def accessible_def)

lemma user_only_wf: "user_only pm pt pm' \<Longrightarrow> vm_wf pm pt T \<Longrightarrow> vm_wf pm' pt T"
  by (simp add: user_only_def vm_wf_def)

lemma user_only_uinj: "user_only pm pt pm' \<Longrightarrow> uinj pm pt \<Longrightarrow> uinj pm' pt"
  by (simp add: user_only_frames uinj_def)

lemma user_only_refl: "user_only pm pt pm"
  by (simp add: user_only_def)

lemma piperead_loop_takes:
  assumes "vm_wf pm pt T" "uinj pm pt" "pipe_ok pi" "accessible pm pt addr (i + k)" "i + k < 2 ^ 64"
  shows "\<exists>pi' pm'. piperead_loop k pi pm pt addr i = Ret (i + min k (pipe_len pi), pi', pm') \<and>
     pipe_bytes pi' = drop k (pipe_bytes pi) \<and> pipe_ok pi' \<and> user_only pm pt pm' \<and>
     pi_readopen pi' = pi_readopen pi \<and> pi_writeopen pi' = pi_writeopen pi \<and>
     (\<forall>j<min k (pipe_len pi). vread pm' pt (addr + of_nat (i + j)) = Some (pipe_bytes pi ! j)) \<and>
     (\<forall>va. (\<forall>j<min k (pipe_len pi). va \<noteq> addr + of_nat (i + j)) \<longrightarrow> vread pm' pt va = vread pm pt va)"
  using assms
proof (induction k arbitrary: pi pm i)
  case 0
  then show ?case by (simp add: user_only_refl)
next
  case (Suc k)
  show ?case
  proof (cases "pipe_len pi = 0")
    case True
    then show ?thesis using pipe_empty_iff [of pi] Suc.prems(3) by (simp add: user_only_refl pipe_bytes_def)
  next
    case False
    let ?pi = "pi\<lparr>pi_nread := pi_nread pi + 1\<rparr>" and ?c = "pi_data pi (unat (pi_nread pi) mod PIPESIZE)"
    note pp = pipe_pop_bytes [of pi]
    have b: "pipe_bytes pi = ?c # pipe_bytes ?pi" "pipe_len pi = Suc (pipe_len ?pi)" using pp False by simp_all
    have "vread pm pt (addr + of_nat i) \<noteq> None" using Suc.prems(4) unfolding accessible_def by simp
    then obtain pm1 where c: "copyout pm pt (addr + of_nat i) [?c] = Ret (0, pm1)" "user_only pm pt pm1"
      "vread pm1 pt (addr + of_nat i) = Some ?c" "\<forall>va'. va' \<noteq> addr + of_nat i \<longrightarrow> vread pm1 pt va' = vread pm pt va'"
      using copyout_byte [OF Suc.prems(1,2)] by blast
    have st: "piperead_loop (Suc k) pi pm pt addr i = piperead_loop k ?pi pm1 pt addr (Suc i)"
      using False pipe_empty_iff [of pi] c(1) by (simp add: Let_def)
    have "pipe_ok ?pi" using Suc.prems(3) b(2) by (simp add: pipe_ok_def)
    moreover have "accessible pm1 pt addr (Suc i + k)" using Suc.prems(4) user_only_accessible [OF c(2)] by simp
    moreover have "Suc i + k < 2 ^ 64" using Suc.prems(5) by simp
    ultimately obtain pi' pm' where IH: "piperead_loop k ?pi pm1 pt addr (Suc i) = Ret (Suc i + min k (pipe_len ?pi), pi', pm')"
      "pipe_bytes pi' = drop k (pipe_bytes ?pi)" "pipe_ok pi'" "user_only pm1 pt pm'"
      "pi_readopen pi' = pi_readopen ?pi" "pi_writeopen pi' = pi_writeopen ?pi"
      "\<forall>j<min k (pipe_len ?pi). vread pm' pt (addr + of_nat (Suc i + j)) = Some (pipe_bytes ?pi ! j)"
      "\<forall>va. (\<forall>j<min k (pipe_len ?pi). va \<noteq> addr + of_nat (Suc i + j)) \<longrightarrow> vread pm' pt va = vread pm1 pt va"
      using Suc.IH [OF user_only_wf [OF c(2) Suc.prems(1)] user_only_uinj [OF c(2) Suc.prems(2)]] by blast
    have m: "min (Suc k) (pipe_len pi) = Suc (min k (pipe_len ?pi))" using b(2) by simp
    have first: "vread pm' pt (addr + of_nat i) = Some ?c"
    proof -
      have "addr + of_nat i \<noteq> addr + of_nat (Suc i + j)" if "j < min k (pipe_len ?pi)" for j
        using of_nat_inj_u64 [of i "Suc i + j"] that Suc.prems(5) by auto
      then show ?thesis using IH(8) c(3) by simp
    qed
    have "vread pm' pt (addr + of_nat (i + j)) = Some (pipe_bytes pi ! j)" if "j < Suc (min k (pipe_len ?pi))" for j
      using first IH(7) that b(1) by (cases j) auto
    moreover have "vread pm' pt va = vread pm pt va"
      if o: "\<forall>j<Suc (min k (pipe_len ?pi)). va \<noteq> addr + of_nat (i + j)" for va
    proof -
      have "va \<noteq> addr + of_nat (Suc i + j)" if "j < min k (pipe_len ?pi)" for j using o [rule_format, of "Suc j"] that by simp
      moreover have "va \<noteq> addr + of_nat i" using o [rule_format, of 0] by simp
      ultimately show ?thesis using IH(8) c(4) by metis
    qed
    ultimately show ?thesis using st IH(1-6) b user_only_trans [OF c(2) IH(4)] unfolding m
      by (intro exI [of _ pi'] exI [of _ pm']) auto
  qed
qed

subsection \<open>Properties\<close>

text \<open>C30: a pipe is a bounded queue for its writer: \<^verbatim>\<open>pipewrite\<close> appends the bytes at the user address in order, never
  more than the free room of the 512-byte buffer and never over unread bytes (also when the
  32-bit counters wrap around); it returns the full count when all fitted, and otherwise wakes the readers and
  sleeps at the first byte that did not fit, or fails if the read end is closed or the process was killed.\<close>

theorem pipewrite_appends:
  assumes "vm_wf pm pt T" "pipe_ok pi" "accessible pm pt addr (nat n)"
  shows "\<exists>pi' w r. pipewrite pi pm pt addr n 0 killed = Ret (r, pi', w) \<and>
     (let j = min (nat n) (PIPESIZE - pipe_len pi) in
        pipe_bytes pi' = pipe_bytes pi @ ubytes pm pt addr j \<and> length (pipe_bytes pi') \<le> PIPESIZE \<and>
        (if j = nat n then r = PDone n \<and> w = [NREAD]
         else if \<not> pi_readopen pi \<or> killed then r = PDone (- 1) else r = PSleep j \<and> w = [NREAD]))"
proof -
  have "accessible pm pt addr (0 + nat n)" using assms(3) by simp
  from pipewrite_loop_appends [OF assms(1,2) this, of n killed]
  obtain j pi' w r where "pipewrite_loop (nat n) pi pm pt addr n 0 killed = Ret (r, pi', w)" "j = min (nat n) (PIPESIZE - pipe_len pi)"
    "pipe_bytes pi' = pipe_bytes pi @ ubytes pm pt (addr + of_nat 0) j" "pipe_ok pi'"
    "if j = nat n then r = PDone n \<and> w = [NREAD] else if \<not> pi_readopen pi \<or> killed then r = PDone (- 1) \<and> w = [] else r = PSleep (0 + j) \<and> w = [NREAD]"
    by (elim exE conjE) (rule that)
  then show ?thesis by (simp add: pipewrite_def pipe_ok_def Let_def split: if_splits)
qed

theorem pipewrite_appends_witness:
  "\<exists>pi' w r. pipewrite (new_pipe (\<lambda>_. 0)) one_page 0x1000 5 2 0 False = Ret (r, pi', w) \<and>
     (let j = min (nat 2) (PIPESIZE - pipe_len (new_pipe (\<lambda>_. 0))) in
        pipe_bytes pi' = pipe_bytes (new_pipe (\<lambda>_. 0)) @ ubytes one_page 0x1000 5 j \<and> length (pipe_bytes pi') \<le> PIPESIZE \<and>
        (if j = nat 2 then r = PDone 2 \<and> w = [NREAD]
         else if \<not> pi_readopen (new_pipe (\<lambda>_. 0)) \<or> False then r = PDone (- 1) else r = PSleep j \<and> w = [NREAD]))"
  by (rule pipewrite_appends [OF one_page_wf]) (simp_all add: new_pipe_ok one_page_accessible)

text \<open>C31: a pipe is a queue for its reader: \<^verbatim>\<open>piperead\<close> on a pipe with data removes the oldest bytes, at most the
  requested number, puts exactly them at the user address in order and nothing anywhere else, returns
  their number, and wakes the writers.\<close>

theorem piperead_takes:
  assumes "vm_wf pm pt T" "uinj pm pt" "pipe_ok pi" "accessible pm pt addr (nat n)" "nat n < 2 ^ 64" "pipe_bytes pi \<noteq> []"
  shows "\<exists>pi' pm'. piperead pi pm pt addr n nb killed = Ret (PDone (int (min (nat n) (pipe_len pi))), pi', pm', [NWRITE]) \<and>
     pipe_bytes pi' = drop (nat n) (pipe_bytes pi) \<and> user_only pm pt pm' \<and>
     (\<forall>j<min (nat n) (pipe_len pi). vread pm' pt (addr + of_nat j) = Some (pipe_bytes pi ! j)) \<and>
     (\<forall>va. (\<forall>j<min (nat n) (pipe_len pi). va \<noteq> addr + of_nat j) \<longrightarrow> vread pm' pt va = vread pm pt va)"
proof -
  have "pipe_len pi \<noteq> 0" using assms(6) by (metis length_0_conv length_pipe_bytes)
  then have "pi_nread pi \<noteq> pi_nwrite pi" using pipe_empty_iff by simp
  then show ?thesis
    using piperead_loop_takes [OF assms(1-3), of addr 0 "nat n"] assms(4,5) by (fastforce simp: piperead_def)
qed

definition hello_pipe :: pipe where
  "hello_pipe = pipe_push (pipe_push ((new_pipe (\<lambda>_. 0))\<lparr>pi_nread := - 1, pi_nwrite := - 1\<rparr>) 104) 105"

lemma hello_pipe_bytes: "pipe_bytes hello_pipe = [104, 105]" "pipe_len hello_pipe = 2"
proof -
  let ?e = "(new_pipe (\<lambda>_. 0))\<lparr>pi_nread := - 1, pi_nwrite := - 1\<rparr>"
  have e: "pipe_len ?e = 0" "pipe_bytes ?e = []" by (simp_all add: pipe_len_def pipe_bytes_def)
  show "pipe_bytes hello_pipe = [104, 105]" "pipe_len hello_pipe = 2"
    using pipe_push_bytes [of ?e 104] pipe_push_bytes [of "pipe_push ?e 104" 105] e
    by (simp_all add: hello_pipe_def PIPESIZE_def)
qed

theorem piperead_takes_witness:
  "\<exists>pi' pm'. piperead hello_pipe one_page 0x1000 100 10 False False = Ret (PDone (int (min (nat 10) (pipe_len hello_pipe))), pi', pm', [NWRITE]) \<and>
     pipe_bytes pi' = drop (nat 10) (pipe_bytes hello_pipe) \<and> user_only one_page 0x1000 pm' \<and>
     (\<forall>j<min (nat 10) (pipe_len hello_pipe). vread pm' 0x1000 (100 + of_nat j) = Some (pipe_bytes hello_pipe ! j)) \<and>
     (\<forall>va. (\<forall>j<min (nat 10) (pipe_len hello_pipe). va \<noteq> 100 + of_nat j) \<longrightarrow> vread pm' 0x1000 va = vread one_page 0x1000 va)"
  by (rule piperead_takes [OF one_page_wf one_page_uinj])
    (simp_all add: hello_pipe_bytes pipe_ok_def PIPESIZE_def one_page_accessible)

end
