(* ===== verification/Console.thy ===== *)
theory Console
  imports Pipe
begin

text \<open>
  The console (kernel/dev/console.c): the input ring with its three 32-bit cursors, the line discipline of the
  interrupt handler, and the reads and writes of user processes. The bytes sent to the UART are collected in
  \<open>cs_out\<close>. The text that \<^verbatim>\<open>procdump\<close> prints on control-P is left out. A read that has to wait ends in \<open>PSleep n\<close> with
  the number of bytes still wanted, and is resumed from there.
\<close>

definition INPUT_BUF :: nat where "INPUT_BUF = 128"
definition BACKSPACE :: int where "BACKSPACE = 0x100"

text \<open>\<^verbatim>\<open>C(x)\<close>: control characters.\<close>

definition ctrl :: "int \<Rightarrow> int" where
  "ctrl x = x - 64"

record cons =
  cs_buf :: "nat \<Rightarrow> u8"
  cs_r :: u32
  cs_w :: u32
  cs_e :: u32
  cs_out :: "u8 list"

definition uartputc :: "cons \<Rightarrow> int \<Rightarrow> cons" where
  "uartputc s c = s\<lparr>cs_out := cs_out s @ [word_of_int c]\<rparr>"

text \<open>After a panic \<^verbatim>\<open>consputc\<close> spins for ever.\<close>

definition consputc :: "bool \<Rightarrow> cons \<Rightarrow> int \<Rightarrow> cons kres" where
  "consputc panicked s c =
     (if panicked then Diverge
      else if c = BACKSPACE then Ret (uartputc (uartputc (uartputc s 8) 32) 8)
      else Ret (uartputc s c))"

subsection \<open>Copies from and to user or kernel addresses\<close>

definition either_copyout :: "pmem \<Rightarrow> u64 \<Rightarrow> bool \<Rightarrow> u64 \<Rightarrow> u8 list \<Rightarrow> (int \<times> pmem) kres" where
  "either_copyout pm pt user_dst dst src =
     (if user_dst then copyout pm pt dst src
      else Ret (0, pm\<lparr>pm_data := store_list (pm_data pm) (unat dst) src\<rparr>))"

definition either_copyin :: "pmem \<Rightarrow> u64 \<Rightarrow> bool \<Rightarrow> u64 \<Rightarrow> nat \<Rightarrow> (int \<times> u8 list) kres" where
  "either_copyin pm pt user_src src len =
     (if user_src then copyin pm pt src len
      else Ret (0, bytes_at (pm_data pm) (unat src) len))"

subsection \<open>Writing and reading\<close>

fun consolewrite_loop :: "nat \<Rightarrow> bool \<Rightarrow> cons \<Rightarrow> pmem \<Rightarrow> u64 \<Rightarrow> bool \<Rightarrow> u64 \<Rightarrow> nat \<Rightarrow> cons kres" where
  "consolewrite_loop 0 panicked s pm pt user_src src i = Ret s"
| "consolewrite_loop (Suc k) panicked s pm pt user_src src i =
     kbind (either_copyin pm pt user_src (src + of_nat i) 1) (\<lambda>(r, bs).
     if r = - 1 then Ret s
     else kbind (consputc panicked s (uint (hd bs))) (\<lambda>s1. consolewrite_loop k panicked s1 pm pt user_src src (Suc i)))"

definition consolewrite :: "bool \<Rightarrow> cons \<Rightarrow> pmem \<Rightarrow> u64 \<Rightarrow> bool \<Rightarrow> u64 \<Rightarrow> int \<Rightarrow> (int \<times> cons) kres" where
  "consolewrite panicked s pm pt user_src src n =
     kbind (consolewrite_loop (nat n) panicked s pm pt user_src src 0) (\<lambda>s1. Ret (n, s1))"

text \<open>The loop of \<^verbatim>\<open>consoleread\<close> with \<open>n\<close> bytes still wanted out of \<open>target\<close>.\<close>

fun consoleread_loop :: "nat \<Rightarrow> nat \<Rightarrow> cons \<Rightarrow> pmem \<Rightarrow> u64 \<Rightarrow> bool \<Rightarrow> u64 \<Rightarrow> bool \<Rightarrow> (progress \<times> cons \<times> pmem) kres" where
  "consoleread_loop 0 target s pm pt user_dst dst killed = Ret (PDone (int target), s, pm)"
| "consoleread_loop (Suc n) target s pm pt user_dst dst killed =
     (if cs_r s = cs_w s then
        (if killed then Ret (PDone (- 1), s, pm) else Ret (PSleep (Suc n), s, pm))
      else
        let c = cs_buf s (unat (cs_r s) mod INPUT_BUF);
            s1 = s\<lparr>cs_r := cs_r s + 1\<rparr> in
        if uint c = ctrl 68 then
          (if Suc n < target then Ret (PDone (int target - int (Suc n)), s1\<lparr>cs_r := cs_r s1 - 1\<rparr>, pm)
           else Ret (PDone (int target - int (Suc n)), s1, pm))
        else
          kbind (either_copyout pm pt user_dst dst [c]) (\<lambda>(r, pm1).
          if r = - 1 then Ret (PDone (int target - int (Suc n)), s1, pm1)
          else if uint c = 10 then Ret (PDone (int target - int n), s1, pm1)
          else consoleread_loop n target s1 pm1 pt user_dst (dst + 1) killed))"

definition consoleread :: "cons \<Rightarrow> pmem \<Rightarrow> u64 \<Rightarrow> bool \<Rightarrow> u64 \<Rightarrow> int \<Rightarrow> bool \<Rightarrow> (progress \<times> cons \<times> pmem) kres" where
  "consoleread s pm pt user_dst dst n killed = consoleread_loop (nat n) (nat n) s pm pt user_dst dst killed"

subsection \<open>Input\<close>

text \<open>The kill-line loop: \<open>e - w\<close> gets smaller in every turn.\<close>

fun kill_line :: "nat \<Rightarrow> bool \<Rightarrow> cons \<Rightarrow> cons kres" where
  "kill_line 0 panicked s = Diverge"
| "kill_line (Suc k) panicked s =
     (if cs_e s \<noteq> cs_w s \<and> cs_buf s (unat (cs_e s - 1) mod INPUT_BUF) \<noteq> 10 then
        kbind (consputc panicked (s\<lparr>cs_e := cs_e s - 1\<rparr>) BACKSPACE) (kill_line k panicked)
      else Ret s)"

text \<open>The result says whether sleeping readers were woken.\<close>

definition consoleintr :: "bool \<Rightarrow> cons \<Rightarrow> int \<Rightarrow> (cons \<times> bool) kres" where
  "consoleintr panicked s c =
     (if c = ctrl 80 then Ret (s, False)
      else if c = ctrl 85 then kbind (kill_line (unat (cs_e s - cs_w s) + 1) panicked s) (\<lambda>s1. Ret (s1, False))
      else if c = ctrl 72 \<or> c = 127 then
        (if cs_e s \<noteq> cs_w s then
           kbind (consputc panicked (s\<lparr>cs_e := cs_e s - 1\<rparr>) BACKSPACE) (\<lambda>s1. Ret (s1, False))
         else Ret (s, False))
      else if c \<noteq> 0 \<and> unat (cs_e s - cs_r s) < INPUT_BUF then
        let c1 = (if c = 13 then 10 else c) in
        kbind (consputc panicked s c1) (\<lambda>s1.
        let s2 = s1\<lparr>cs_buf := (cs_buf s1)(unat (cs_e s1) mod INPUT_BUF := word_of_int c1), cs_e := cs_e s1 + 1\<rparr> in
        if c1 = 10 \<or> c1 = ctrl 68 \<or> cs_e s2 = cs_r s2 + of_nat INPUT_BUF then Ret (s2\<lparr>cs_w := cs_e s2\<rparr>, True)
        else Ret (s2, False))
      else Ret (s, False))"

text \<open>\<^verbatim>\<open>uartintr\<close>: the characters waiting in the UART, one after the other.\<close>

fun uartintr :: "bool \<Rightarrow> cons \<Rightarrow> u8 list \<Rightarrow> cons kres" where
  "uartintr panicked s [] = Ret s"
| "uartintr panicked s (c # cs) = kbind (consoleintr panicked s (uint c)) (\<lambda>(s1, w). uartintr panicked s1 cs)"

subsection \<open>The abstract console\<close>

text \<open>The committed input not read yet, and the line being edited.\<close>

definition cs_input :: "cons \<Rightarrow> u8 list" where
  "cs_input s = ring_bytes INPUT_BUF (cs_buf s) (cs_r s) (unat (cs_w s - cs_r s))"

definition cs_edit :: "cons \<Rightarrow> u8 list" where
  "cs_edit s = ring_bytes INPUT_BUF (cs_buf s) (cs_w s) (unat (cs_e s - cs_w s))"

definition cons_ok :: "cons \<Rightarrow> bool" where
  "cons_ok s \<longleftrightarrow> unat (cs_w s - cs_r s) + unat (cs_e s - cs_w s) \<le> INPUT_BUF \<and> 10 \<notin> set (cs_edit s) \<and> 4 \<notin> set (cs_edit s)"

lemma INPUT_BUF_dvd: "INPUT_BUF dvd 2 ^ 32"
  by (simp add: INPUT_BUF_def)

lemma cursors:
  "cs_w s = cs_r s + of_nat (unat (cs_w s - cs_r s))" "cs_e s = cs_w s + of_nat (unat (cs_e s - cs_w s))"
  by simp_all

lemma length_cs [simp]: "length (cs_input s) = unat (cs_w s - cs_r s)" "length (cs_edit s) = unat (cs_e s - cs_w s)"
  by (simp_all add: cs_input_def cs_edit_def)

lemma cons_ok_total: "cons_ok s \<Longrightarrow> unat (cs_e s - cs_r s) = unat (cs_w s - cs_r s) + unat (cs_e s - cs_w s)"
  using unat_add_small [of "cs_w s - cs_r s" "cs_e s - cs_w s"] by (simp add: cons_ok_def INPUT_BUF_def)

lemma unat_diff_Suc:
  assumes "(a :: u32) \<noteq> b"
  shows "unat (a - b) = Suc (unat (a - 1 - b))"
proof -
  have "a - b \<noteq> 0" using assms by simp
  then have "1 \<le> a - b" by (simp add: word_le_nat_alt unat_gt_0 Suc_le_eq)
  then have "unat (a - b - 1) = unat (a - b) - 1" by (simp add: unat_sub)
  moreover have "0 < unat (a - b)" using \<open>a - b \<noteq> 0\<close> by (simp add: unat_gt_0)
  ultimately show ?thesis by (simp add: algebra_simps)
qed

text \<open>Taking back the last character of the line.\<close>

lemma edit_back:
  assumes "cs_e s \<noteq> cs_w s"
  shows "cs_edit s = cs_edit (s\<lparr>cs_e := cs_e s - 1, cs_out := o'\<rparr>) @ [cs_buf s (unat (cs_e s - 1) mod INPUT_BUF)]"
proof -
  let ?n = "unat (cs_e s - 1 - cs_w s)"
  have e: "unat (cs_e s - cs_w s) = Suc ?n" by (rule unat_diff_Suc [OF assms])
  have "cs_w s + of_nat ?n = cs_e s - 1" by simp
  then show ?thesis unfolding cs_edit_def e ring_bytes_snoc by simp
qed

lemma kill_line_clears:
  assumes "10 \<notin> set (cs_edit s)" "unat (cs_e s - cs_w s) < k"
  shows "\<exists>o'. kill_line k False s = Ret (s\<lparr>cs_e := cs_w s, cs_out := o'\<rparr>)"
  using assms
proof (induction k arbitrary: s)
  case (Suc k)
  show ?case
  proof (cases "cs_e s = cs_w s")
    case True
    then show ?thesis by (intro exI [of _ "cs_out s"]) simp
  next
    case False
    let ?s = "uartputc (uartputc (uartputc (s\<lparr>cs_e := cs_e s - 1\<rparr>) 8) 32) 8"
    have s: "?s = s\<lparr>cs_e := cs_e s - 1, cs_out := cs_out ?s\<rparr>" by (simp add: uartputc_def)
    have b: "cs_edit s = cs_edit ?s @ [cs_buf s (unat (cs_e s - 1) mod INPUT_BUF)]"
      using edit_back [OF False] by (subst s)
    have "unat (cs_e ?s - cs_w ?s) < k" using Suc.prems(2) unat_diff_Suc [OF False] by (simp add: uartputc_def)
    then obtain o' where "kill_line k False ?s = Ret (?s\<lparr>cs_e := cs_w ?s, cs_out := o'\<rparr>)"
      using Suc.IH [of ?s] Suc.prems(1) b by auto
    moreover have "kill_line (Suc k) False s = kill_line k False ?s"
      using False Suc.prems(1) b by (auto simp: consputc_def)
    ultimately show ?thesis by (intro exI [of _ o']) (simp add: uartputc_def del: kill_line.simps)
  qed
qed simp

subsection \<open>The line discipline\<close>

text \<open>What a character does to the committed input and the line being edited.\<close>

fun line_step :: "u8 \<Rightarrow> u8 list \<times> u8 list \<Rightarrow> u8 list \<times> u8 list" where
  "line_step c (inp, ed) =
     (if c = 16 then (inp, ed)
      else if c = 21 then (inp, [])
      else if c = 8 \<or> c = 127 then (inp, butlast ed)
      else if c \<noteq> 0 \<and> length inp + length ed < INPUT_BUF then
        let c1 = (if c = 13 then 10 else c); ed1 = ed @ [c1] in
        if c1 = 10 \<or> c1 = 4 \<or> length inp + length ed1 = INPUT_BUF then (inp @ ed1, []) else (inp, ed1)
      else (inp, ed))"

lemma uint_eq_u8: "uint (c :: u8) = k \<longleftrightarrow> c = word_of_int k \<and> 0 \<le> k \<and> k < 256"
  using uint_lt2p [of c] by (auto simp: unsigned_of_int take_bit_int_eq_self)

lemma store_char:
  fixes s :: cons and c :: u8 and o' :: "u8 list"
  assumes ok: "cons_ok s" and room: "unat (cs_e s - cs_r s) < INPUT_BUF"
  defines "s2 \<equiv> s\<lparr>cs_buf := (cs_buf s)(unat (cs_e s) mod INPUT_BUF := c), cs_e := cs_e s + 1, cs_out := o'\<rparr>"
  shows "cs_input s2 = cs_input s" "cs_edit s2 = cs_edit s @ [c]" "unat (cs_e s2 - cs_w s2) = Suc (unat (cs_e s - cs_w s))"
    "cs_input (s2\<lparr>cs_w := cs_e s2\<rparr>) = cs_input s @ cs_edit s @ [c]" "cs_edit (s2\<lparr>cs_w := cs_e s2\<rparr>) = []"
    "unat (cs_e s2 - cs_r s2) = Suc (unat (cs_e s - cs_r s))"
proof -
  let ?m = "unat (cs_w s - cs_r s)" and ?k = "unat (cs_e s - cs_w s)"
  have t: "unat (cs_e s - cs_r s) = ?m + ?k" by (rule cons_ok_total [OF ok])
  have e: "cs_e s = cs_r s + of_nat (?m + ?k)" using t [symmetric] by simp
  have ew: "cs_e s = cs_w s + of_nat ?k" by simp
  have k: "?k < INPUT_BUF" "?m + ?k < INPUT_BUF" using room t by simp_all
  have su: "unat (x + 1 :: u32) = Suc (unat x)" if "unat x < INPUT_BUF" for x
    using unat_add_small [of x 1] that by (simp add: INPUT_BUF_def)
  show lk: "unat (cs_e s2 - cs_w s2) = Suc ?k" using su [of "cs_e s - cs_w s"] k by (simp add: s2_def algebra_simps)
  show tk: "unat (cs_e s2 - cs_r s2) = Suc (unat (cs_e s - cs_r s))"
    using su [of "cs_e s - cs_r s"] room by (simp add: s2_def algebra_simps)
  show i2: "cs_input s2 = cs_input s"
    using ring_bytes_store [OF INPUT_BUF_dvd k(2), of ?m "cs_buf s" "cs_r s" c] unfolding e [symmetric] by (simp add: cs_input_def s2_def)
  show e2: "cs_edit s2 = cs_edit s @ [c]"
    using ring_bytes_push [OF INPUT_BUF_dvd k(1), of "cs_buf s" "cs_w s" c] lk unfolding ew [symmetric] by (simp add: cs_edit_def s2_def)
  show "cs_edit (s2\<lparr>cs_w := cs_e s2\<rparr>) = []" by (simp add: cs_edit_def)
  have "cs_input (s2\<lparr>cs_w := cs_e s2\<rparr>) = ring_bytes INPUT_BUF (cs_buf s2) (cs_r s) (?m + Suc ?k)"
    using tk t by (simp add: cs_input_def s2_def)
  also have "\<dots> = cs_input s2 @ cs_edit s2"
    unfolding ring_bytes_append using lk by (simp add: cs_input_def cs_edit_def s2_def)
  finally show "cs_input (s2\<lparr>cs_w := cs_e s2\<rparr>) = cs_input s @ cs_edit s @ [c]" using i2 e2 by simp
qed

lemma consoleintr_default:
  assumes ok: "cons_ok s" and c: "c \<notin> {16, 21, 8, 127}"
  shows "\<exists>s' w. consoleintr False s (uint c) = Ret (s', w) \<and> cons_ok s' \<and> (cs_input s', cs_edit s') = line_step c (cs_input s, cs_edit s) \<and>
     w = (cs_input s' \<noteq> cs_input s)"
proof (cases "c \<noteq> 0 \<and> unat (cs_e s - cs_r s) < INPUT_BUF")
  case False
  have t: "unat (cs_e s - cs_r s) = length (cs_input s) + length (cs_edit s)" using cons_ok_total [OF ok] by simp
  have "consoleintr False s (uint c) = Ret (s, False)"
    using False c by (auto simp: consoleintr_def ctrl_def uint_eq_u8)
  moreover have "line_step c (cs_input s, cs_edit s) = (cs_input s, cs_edit s)" using False c t by auto
  ultimately show ?thesis using ok by simp
next
  case True
  have t: "unat (cs_e s - cs_r s) = length (cs_input s) + length (cs_edit s)" using cons_ok_total [OF ok] by simp
  define c1 :: u8 where "c1 = (if c = 13 then 10 else c)"
  let ?o = "cs_out s @ [c1]"
  let ?s2 = "s\<lparr>cs_buf := (cs_buf s)(unat (cs_e s) mod INPUT_BUF := c1), cs_e := cs_e s + 1, cs_out := ?o\<rparr>"
  note st = store_char [OF ok conjunct2 [OF True], where c = c1 and o' = ?o]
  have ci: "(if uint c = 13 then 10 else uint c) = uint c1" by (simp add: c1_def uint_eq_u8)
  have nb: "uint c1 \<noteq> BACKSPACE" using uint_lt2p [of c1] by (simp add: BACKSPACE_def)
  have full: "cs_e ?s2 = cs_r ?s2 + of_nat INPUT_BUF \<longleftrightarrow> length (cs_input s) + length (cs_edit s) + 1 = INPUT_BUF"
  proof -
    have "cs_e ?s2 = cs_r ?s2 + of_nat INPUT_BUF \<longleftrightarrow> cs_e ?s2 - cs_r ?s2 = of_nat INPUT_BUF" by (simp add: algebra_simps)
    also have "\<dots> \<longleftrightarrow> unat (cs_e ?s2 - cs_r ?s2) = INPUT_BUF" by (simp add: word_unat_eq_iff unat_of_nat INPUT_BUF_def)
    finally show ?thesis using st(6) t by simp
  qed
  have intr: "consoleintr False s (uint c) =
      (if c1 = 10 \<or> c1 = 4 \<or> length (cs_input s) + length (cs_edit s) + 1 = INPUT_BUF then Ret (?s2\<lparr>cs_w := cs_e ?s2\<rparr>, True) else Ret (?s2, False))"
  proof -
    have "uint c \<noteq> ctrl 80 \<and> uint c \<noteq> ctrl 85 \<and> uint c \<noteq> ctrl 72 \<and> uint c \<noteq> 127 \<and> uint c \<noteq> 0"
      using c True by (auto simp: ctrl_def uint_eq_u8)
    moreover have "consputc False s (uint c1) = Ret (s\<lparr>cs_out := ?o\<rparr>)" using nb by (simp add: consputc_def uartputc_def)
    moreover have "uint c1 = 10 \<longleftrightarrow> c1 = 10" "uint c1 = ctrl 68 \<longleftrightarrow> c1 = 4" by (simp_all add: uint_eq_u8 ctrl_def)
    ultimately show ?thesis using full conjunct2 [OF True] unfolding consoleintr_def ci by (simp add: Let_def)
  qed
  have ls: "line_step c (cs_input s, cs_edit s) =
      (if c1 = 10 \<or> c1 = 4 \<or> length (cs_input s) + length (cs_edit s) + 1 = INPUT_BUF then (cs_input s @ cs_edit s @ [c1], []) else (cs_input s, cs_edit s @ [c1]))"
    using True c t by (auto simp: c1_def Let_def)
  show ?thesis
  proof (cases "c1 = 10 \<or> c1 = 4 \<or> length (cs_input s) + length (cs_edit s) + 1 = INPUT_BUF")
    case full: True
    have "cons_ok (?s2\<lparr>cs_w := cs_e ?s2\<rparr>)" using st(5,6) conjunct2 [OF True] by (simp add: cons_ok_def)
    moreover have "consoleintr False s (uint c) = Ret (?s2\<lparr>cs_w := cs_e ?s2\<rparr>, True)" unfolding intr by (simp only: full if_True)
    moreover have "line_step c (cs_input s, cs_edit s) = (cs_input s @ cs_edit s @ [c1], [])" unfolding ls by (simp only: full if_True)
    ultimately show ?thesis using st(4,5) by simp
  next
    case part: False
    have "cons_ok ?s2" unfolding cons_ok_def st(2,3) using ok conjunct2 [OF True] cons_ok_total [OF ok] part by (auto simp: cons_ok_def)
    moreover have "consoleintr False s (uint c) = Ret (?s2, False)" unfolding intr by (simp only: part if_False)
    moreover have "line_step c (cs_input s, cs_edit s) = (cs_input s, cs_edit s @ [c1])" unfolding ls by (simp only: part if_False)
    ultimately show ?thesis using st(1,2) by simp
  qed
qed

lemma consoleintr_line:
  assumes ok: "cons_ok s"
  shows "\<exists>s' w. consoleintr False s (uint c) = Ret (s', w) \<and> cons_ok s' \<and> (cs_input s', cs_edit s') = line_step c (cs_input s, cs_edit s) \<and>
     w = (cs_input s' \<noteq> cs_input s)"
proof -
  consider "c = 16" | "c = 21" | "c = 8 \<or> c = 127" | "c \<notin> {16, 21, 8, 127}" by auto
  then show ?thesis
  proof cases
    case 1
    then show ?thesis using ok by (simp add: consoleintr_def ctrl_def)
  next
    case 2
    obtain o' where "kill_line (unat (cs_e s - cs_w s) + 1) False s = Ret (s\<lparr>cs_e := cs_w s, cs_out := o'\<rparr>)"
      using kill_line_clears [of s "unat (cs_e s - cs_w s) + 1"] ok by (auto simp: cons_ok_def)
    then have "consoleintr False s (uint c) = Ret (s\<lparr>cs_e := cs_w s, cs_out := o'\<rparr>, False)"
      using 2 by (simp add: consoleintr_def ctrl_def del: kill_line.simps)
    moreover have "cons_ok (s\<lparr>cs_e := cs_w s, cs_out := o'\<rparr>)" using ok by (simp add: cons_ok_def cs_edit_def)
    ultimately show ?thesis using 2 by (simp add: cs_input_def cs_edit_def)
  next
    case 3
    show ?thesis
    proof (cases "cs_e s = cs_w s")
      case True
      then have "cs_edit s = []" by (simp add: cs_edit_def)
      then show ?thesis using 3 True ok by (auto simp: consoleintr_def ctrl_def)
    next
      case False
      let ?s = "s\<lparr>cs_e := cs_e s - 1, cs_out := cs_out s @ [8, 32, 8]\<rparr>"
      have b: "cs_edit s = cs_edit ?s @ [cs_buf s (unat (cs_e s - 1) mod INPUT_BUF)]" by (rule edit_back [OF False])
      have "consoleintr False s (uint c) = Ret (?s, False)"
        using 3 False by (auto simp: consoleintr_def ctrl_def consputc_def uartputc_def)
      moreover have "cons_ok ?s" using ok b unat_diff_Suc [OF False] by (auto simp: cons_ok_def)
      moreover have "line_step c (cs_input s, cs_edit s) = (cs_input ?s, cs_edit ?s)" using 3 b by (auto simp: cs_input_def)
      ultimately show ?thesis by (simp add: cs_input_def)
    qed
  next
    case 4
    then show ?thesis by (rule consoleintr_default [OF ok])
  qed
qed

lemma uartintr_lines:
  "cons_ok s \<Longrightarrow> \<exists>s'. uartintr False s cs = Ret s' \<and> cons_ok s' \<and> (cs_input s', cs_edit s') = fold line_step cs (cs_input s, cs_edit s)"
proof (induction cs arbitrary: s)
  case (Cons c cs)
  obtain s1 w where s1: "consoleintr False s (uint c) = Ret (s1, w)" "cons_ok s1" "(cs_input s1, cs_edit s1) = line_step c (cs_input s, cs_edit s)"
    using consoleintr_line [OF Cons.prems] by blast
  then show ?case using Cons.IH [OF s1(2)] by simp
qed simp

subsection \<open>Reading a line\<close>

lemma input_pop:
  assumes ok: "cons_ok s" and i: "cs_input s = c # cs"
  defines "s1 \<equiv> s\<lparr>cs_r := cs_r s + 1\<rparr>"
  shows "cs_r s \<noteq> cs_w s" "cs_buf s (unat (cs_r s) mod INPUT_BUF) = c" "cs_input s1 = cs" "cs_edit s1 = cs_edit s" "cons_ok s1"
proof -
  have l: "unat (cs_w s - cs_r s) = Suc (length cs)" using length_cs(1) [of s] i by simp
  then show ne: "cs_r s \<noteq> cs_w s" by auto
  have "unat (cs_w s - cs_r s) = Suc (unat (cs_w s - 1 - cs_r s))" by (rule unat_diff_Suc) (use ne in simp)
  then have u: "unat (cs_w s - (cs_r s + 1)) = length cs" using l by (simp add: algebra_simps)
  have "c # cs = cs_buf s (unat (cs_r s) mod INPUT_BUF) # ring_bytes INPUT_BUF (cs_buf s) (cs_r s + 1) (length cs)"
    using i [symmetric] unfolding cs_input_def l ring_bytes_Cons .
  then show "cs_buf s (unat (cs_r s) mod INPUT_BUF) = c" "cs_input s1 = cs" using u by (simp_all add: cs_input_def s1_def)
  show e: "cs_edit s1 = cs_edit s" by (simp add: cs_edit_def s1_def)
  show "cons_ok s1" using ok u l unfolding cons_ok_def e by (simp add: s1_def)
qed

lemma consoleread_loop_line:
  assumes "vm_wf pm pt T" "uinj pm pt" "cons_ok s" "cs_input s = line @ 10 # rest" "10 \<notin> set line" "4 \<notin> set line"
    "length line < k" "k \<le> target" "accessible pm pt dst (Suc (length line))"
  shows "\<exists>s' pm'. consoleread_loop k target s pm pt True dst killed = Ret (PDone (int target - int k + int (length line) + 1), s', pm') \<and>
     cons_ok s' \<and> cs_input s' = rest \<and> cs_edit s' = cs_edit s \<and> user_only pm pt pm' \<and>
     (\<forall>j\<le>length line. vread pm' pt (dst + of_nat j) = Some ((line @ [10]) ! j)) \<and>
     (\<forall>va. (\<forall>j\<le>length line. va \<noteq> dst + of_nat j) \<longrightarrow> vread pm' pt va = vread pm pt va)"
  using assms
proof (induction line arbitrary: s pm dst k)
  case Nil
  obtain n where k: "k = Suc n" using Nil.prems(7) by (cases k) auto
  let ?s = "s\<lparr>cs_r := cs_r s + 1\<rparr>"
  have i: "cs_input s = 10 # rest" using Nil.prems(4) by simp
  note p = input_pop [OF Nil.prems(3) i]
  have "vread pm pt dst \<noteq> None" using Nil.prems(9) unfolding accessible_def by force
  then obtain pm1 where c: "copyout pm pt dst [10] = Ret (0, pm1)" "user_only pm pt pm1"
    "vread pm1 pt dst = Some 10" "\<forall>va'. va' \<noteq> dst \<longrightarrow> vread pm1 pt va' = vread pm pt va'"
    using copyout_byte [OF Nil.prems(1,2)] by blast
  have "consoleread_loop k target s pm pt True dst killed = Ret (PDone (int target - int n), ?s, pm1)"
    using p(1,2) c(1) k by (simp add: ctrl_def either_copyout_def Let_def)
  then show ?case using p(3-5) c(2-4) k by (intro exI [of _ ?s] exI [of _ pm1]) simp
next
  case (Cons x line)
  obtain n where k: "k = Suc n" using Cons.prems(7) by (cases k) auto
  let ?s = "s\<lparr>cs_r := cs_r s + 1\<rparr>"
  have i: "cs_input s = x # line @ 10 # rest" using Cons.prems(4) by simp
  note p = input_pop [OF Cons.prems(3) i]
  have "vread pm pt dst \<noteq> None" using Cons.prems(9) unfolding accessible_def by force
  then obtain pm1 where c: "copyout pm pt dst [x] = Ret (0, pm1)" "user_only pm pt pm1"
    "vread pm1 pt dst = Some x" "\<forall>va'. va' \<noteq> dst \<longrightarrow> vread pm1 pt va' = vread pm pt va'"
    using copyout_byte [OF Cons.prems(1,2)] by blast
  have x: "x \<noteq> 4" "x \<noteq> 10" using Cons.prems(5,6) by auto
  have st: "consoleread_loop k target s pm pt True dst killed = consoleread_loop n target ?s pm1 pt True (dst + 1) killed"
    using p(1,2) c(1) k x uint_eq_u8 [of x] by (simp add: ctrl_def either_copyout_def Let_def)
  have acc: "accessible pm1 pt (dst + 1) (Suc (length line))"
    using Cons.prems(9) user_only_accessible [OF c(2)] accessible_split [of 1 "Suc (Suc (length line))" pm pt dst] by simp
  have hyp: "10 \<notin> set line" "4 \<notin> set line" "length line < n" "n \<le> target" using Cons.prems(5-8) k by auto
  obtain s' pm' where IH: "consoleread_loop n target ?s pm1 pt True (dst + 1) killed = Ret (PDone (int target - int n + int (length line) + 1), s', pm')"
    "cons_ok s'" "cs_input s' = rest" "cs_edit s' = cs_edit ?s" "user_only pm1 pt pm'"
    "\<forall>j\<le>length line. vread pm' pt (dst + 1 + of_nat j) = Some ((line @ [10]) ! j)"
    "\<forall>va. (\<forall>j\<le>length line. va \<noteq> dst + 1 + of_nat j) \<longrightarrow> vread pm' pt va = vread pm1 pt va"
    using Cons.IH [OF user_only_wf [OF c(2) Cons.prems(1)] user_only_uinj [OF c(2) Cons.prems(2)] p(5) p(3) hyp acc] by (elim exE conjE) (rule that)
  have small: "length line < INPUT_BUF" using length_cs(1) [of s] Cons.prems(3) i by (simp add: cons_ok_def)
  have ne: "dst \<noteq> dst + 1 + of_nat j" if "j \<le> length line" for j :: nat
    using of_nat_inj_u64 [of 0 "Suc j"] that small by (auto simp: INPUT_BUF_def add.assoc)
  then have first: "vread pm' pt dst = Some x" using IH(7) c(3) by simp
  have "vread pm' pt (dst + of_nat j) = Some (((x # line) @ [10]) ! j)" if "j \<le> Suc (length line)" for j
    using first IH(6) that by (cases j) (auto simp: add.assoc)
  moreover have "vread pm' pt va = vread pm pt va" if o: "\<forall>j\<le>Suc (length line). va \<noteq> dst + of_nat j" for va
  proof -
    have "va \<noteq> dst + 1 + of_nat j" if "j \<le> length line" for j using o [rule_format, of "Suc j"] that by (simp add: add.assoc)
    moreover have "va \<noteq> dst" using o [rule_format, of 0] by simp
    ultimately show ?thesis using IH(7) c(4) by metis
  qed
  ultimately show ?case using st IH(1-4) p(4) k user_only_trans [OF c(2) IH(5)]
    by (intro exI [of _ s'] exI [of _ pm']) simp
qed

text \<open>An end-of-file mark at the head of the input: a read that has no byte yet takes the mark and returns 0, a read
  that has some leaves the mark for the next call.\<close>

lemma consoleread_eof:
  assumes ok: "cons_ok s" and i: "cs_input s = 4 # rest" and n: "0 < n" "n \<le> target"
  shows "\<exists>s'. consoleread_loop n target s pm pt u dst killed = Ret (PDone (int target - int n), s', pm) \<and> cons_ok s' \<and>
     cs_input s' = (if n < target then 4 # rest else rest)"
proof -
  obtain m where m: "n = Suc m" using n(1) by (cases n) auto
  note p = input_pop [OF ok i]
  show ?thesis using p(1,2,3,5) ok i m by (cases "n < target") (auto simp: ctrl_def Let_def)
qed

lemma consolewrite_loop_prints:
  assumes "vm_wf pm pt T" "accessible pm pt src (i + k)"
  shows "consolewrite_loop k False s pm pt True src i = Ret (s\<lparr>cs_out := cs_out s @ ubytes pm pt (src + of_nat i) k\<rparr>)"
  using assms(2)
proof (induction k arbitrary: s i)
  case 0
  then show ?case by (simp add: ubytes_def)
next
  case (Suc k)
  have "vread pm pt (src + of_nat i) \<noteq> None" using Suc.prems unfolding accessible_def by simp
  then obtain b where b: "vread pm pt (src + of_nat i) = Some b" by auto
  have nb: "uint b \<noteq> BACKSPACE" using uint_lt2p [of b] by (simp add: BACKSPACE_def)
  have u: "ubytes pm pt (src + of_nat i) (Suc k) = b # ubytes pm pt (src + of_nat (Suc i)) k"
    using ubytes_split [of 1 "Suc k" pm pt "src + of_nat i"] b by (simp add: ubytes_def algebra_simps)
  have acc: "accessible pm pt src (Suc i + k)" using Suc.prems by simp
  show ?case using Suc.IH [OF acc] copyin_byte [OF assms(1)] b nb u
    by (simp add: either_copyin_def consputc_def uartputc_def del: of_nat_Suc)
qed

lemma consolewrite_prints:
  "vm_wf pm pt T \<Longrightarrow> accessible pm pt src (nat n) \<Longrightarrow>
   consolewrite False s pm pt True src n = Ret (n, s\<lparr>cs_out := cs_out s @ ubytes pm pt src (nat n)\<rparr>)"
  using consolewrite_loop_prints [of pm pt T src 0 "nat n" s] by (simp add: consolewrite_def)

subsection \<open>Properties\<close>

text \<open>C26: the interrupt handler of the console implements the line discipline, for every character and every state of
  the 128-byte ring, also when its 32-bit cursors wrap around. On the abstract console (the input ready for
  readers, the line being edited) control-U drops the line, backspace and delete its last character, a character that
  finds room is appended, and a newline (a carriage return counts as one), control-D or a full buffer
  commits the line; readers are woken exactly when input was committed, and committed input is never lost.\<close>

theorem console_line_discipline:
  assumes "cons_ok s"
  shows "\<exists>s' w. consoleintr False s (uint c) = Ret (s', w) \<and> cons_ok s' \<and>
     (cs_input s', cs_edit s') = line_step c (cs_input s, cs_edit s) \<and> w = (cs_input s' \<noteq> cs_input s)"
  by (rule consoleintr_line [OF assms])

definition ab_console :: cons where
  "ab_console = \<lparr>cs_buf = (\<lambda>i. if i = 127 then 97 else 98), cs_r = 0xffffffff, cs_w = 0xffffffff, cs_e = 1, cs_out = []\<rparr>"

lemma ab_console: "cs_edit ab_console = [97, 98]" "cs_input ab_console = []" "cons_ok ab_console"
proof -
  show e: "cs_edit ab_console = [97, 98]"
    by (simp add: cs_edit_def ab_console_def ring_bytes_def INPUT_BUF_def upt_rec)
  show "cs_input ab_console = []" by (simp add: cs_input_def ab_console_def ring_bytes_def)
  show "cons_ok ab_console" unfolding cons_ok_def e by (simp add: ab_console_def INPUT_BUF_def)
qed

theorem console_line_discipline_witness:
  "\<exists>s' w. consoleintr False ab_console (uint (13 :: u8)) = Ret (s', w) \<and> cons_ok s' \<and> cs_input s' = [97, 98, 10] \<and> cs_edit s' = [] \<and> w"
  using console_line_discipline [OF ab_console(3), of 13] by (auto simp: ab_console INPUT_BUF_def)

text \<open>C27: what is typed at the console is what a process reads. On a console with nothing pending, let the characters
  \<open>typed\<close> (with any erasing and killing) leave the line \<open>line\<close> under the line discipline, and let return be pressed.
  A read for more bytes than the line has returns the length of the line plus one, with the line and
  a newline at the user address, nothing else of the user's memory changed, and the console empty again.\<close>

theorem console_typed_line_read:
  assumes vm: "vm_wf pm pt T" "uinj pm pt" and s: "cons_ok s" "cs_input s = []" "cs_edit s = []"
    and typed: "fold line_step typed ([], []) = ([], line)" "length line < INPUT_BUF"
    and n: "int (length line) < n" "accessible pm pt dst (Suc (length line))"
  shows "\<exists>s1 s2 pm'. uartintr False s (typed @ [13]) = Ret s1 \<and>
     consoleread s1 pm pt True dst n killed = Ret (PDone (int (length line) + 1), s2, pm') \<and>
     cons_ok s2 \<and> cs_input s2 = [] \<and> cs_edit s2 = [] \<and> user_only pm pt pm' \<and>
     (\<forall>j\<le>length line. vread pm' pt (dst + of_nat j) = Some ((line @ [10]) ! j)) \<and>
     (\<forall>va. (\<forall>j\<le>length line. va \<noteq> dst + of_nat j) \<longrightarrow> vread pm' pt va = vread pm pt va)"
proof -
  obtain s0 where s0: "uartintr False s typed = Ret s0" "cons_ok s0" "(cs_input s0, cs_edit s0) = ([], line)"
    using uartintr_lines [OF s(1), of typed] s(2,3) typed(1) by auto
  obtain s1 where s1: "uartintr False s (typed @ [13]) = Ret s1" "cons_ok s1" "(cs_input s1, cs_edit s1) = line_step 13 ([], line)"
    using uartintr_lines [OF s(1), of "typed @ [13]"] s(2,3) typed(1) by auto
  have i: "cs_input s1 = line @ 10 # []" and e: "cs_edit s1 = []" using s1(3) typed(2) by (simp_all add: Let_def)
  have l: "10 \<notin> set line" "4 \<notin> set line" using s0(2,3) by (auto simp: cons_ok_def)
  have k: "length line < nat n" using n(1) by simp
  show ?thesis
    using consoleread_loop_line [OF vm s1(2) i l k order_refl n(2), of killed] s1(1) e n(1) by (auto simp: consoleread_def)
qed

theorem console_typed_line_read_witness:
  "\<exists>s1 s2 pm'. uartintr False (ab_console\<lparr>cs_e := 0xffffffff\<rparr>) ([104, 120, 127, 105] @ [13]) = Ret s1 \<and>
     consoleread s1 one_page 0x1000 True 100 10 False = Ret (PDone 3, s2, pm') \<and> cs_input s2 = [] \<and>
     vread pm' 0x1000 100 = Some 104 \<and> vread pm' 0x1000 101 = Some 105 \<and> vread pm' 0x1000 102 = Some 10"
proof -
  let ?s = "ab_console\<lparr>cs_e := 0xffffffff\<rparr>"
  have s: "cs_edit ?s = []" "cs_input ?s = []" by (simp_all add: cs_edit_def cs_input_def ab_console_def ring_bytes_def)
  then have ok: "cons_ok ?s" by (simp add: cons_ok_def ab_console_def)
  have t: "fold line_step [104, 120, 127, 105] ([], []) = ([], [104, 105 :: u8])" by (simp add: INPUT_BUF_def Let_def)
  have a: "accessible one_page 0x1000 100 (Suc (length [104, 105 :: u8]))" by (rule one_page_accessible) simp
  have l: "length [104, 105 :: u8] < INPUT_BUF" "int (length [104, 105 :: u8]) < 10" by (simp_all add: INPUT_BUF_def)
  have j: "(0 :: nat) \<le> 2" "(1 :: nat) \<le> 2" "(2 :: nat) \<le> 2" by simp_all
  show ?thesis using console_typed_line_read [OF one_page_wf one_page_uinj ok s(2,1) t l a, of False]
    by (elim exE conjE, intro exI conjI) (auto dest: spec [of _ 0] spec [of _ 1] spec [of _ 2])
qed

end
