(* ===== verification/Ring.thy ===== *)
theory Ring
  imports Prelude
begin

text \<open>
  Circular doubly linked lists with a sentinel, as the buffer cache and the block allocators keep them: a
  \<open>seg\<close>ment of linked cells, the whole \<open>ring\<close>, and the effect of unlinking and of inserting a cell.
\<close>

fun seg :: "('a \<Rightarrow> 'a) \<Rightarrow> ('a \<Rightarrow> 'a) \<Rightarrow> 'a \<Rightarrow> 'a list \<Rightarrow> 'a \<Rightarrow> bool" where
  "seg nx pv a [] b \<longleftrightarrow> nx a = b \<and> pv b = a"
| "seg nx pv a (x # xs) b \<longleftrightarrow> nx a = x \<and> pv x = a \<and> seg nx pv x xs b"

definition ring :: "('a \<Rightarrow> 'a) \<Rightarrow> ('a \<Rightarrow> 'a) \<Rightarrow> 'a \<Rightarrow> 'a list \<Rightarrow> bool" where
  "ring nx pv h xs \<longleftrightarrow> distinct (h # xs) \<and> seg nx pv h xs h"

lemma seg_append: "seg nx pv a (xs @ y # ys) b \<longleftrightarrow> seg nx pv a xs y \<and> seg nx pv y ys b"
  by (induction xs arbitrary: a) auto

lemma seg_rev: "seg nx pv a xs b \<Longrightarrow> seg pv nx b (rev xs) a"
  by (induction xs arbitrary: a) (auto simp: seg_append)

lemma ring_rev: "ring nx pv h xs \<Longrightarrow> ring pv nx h (rev xs)"
  by (auto simp: ring_def intro: seg_rev)

lemma seg_frame:
  "(\<And>x. x \<in> insert a (set xs) \<Longrightarrow> nx' x = nx x) \<Longrightarrow> (\<And>x. x \<in> insert b (set xs) \<Longrightarrow> pv' x = pv x) \<Longrightarrow>
   seg nx' pv' a xs b = seg nx pv a xs b"
  by (induction xs arbitrary: a) auto

lemma seg_first: "seg nx pv a xs b \<Longrightarrow> nx a = hd (xs @ [b])"
  by (cases xs) auto

lemma seg_last: "seg nx pv a xs b \<Longrightarrow> pv b = last (a # xs)"
  by (induction xs arbitrary: a) auto

text \<open>Relinking around a segment only touches its end cells.\<close>

lemma ring_remove:
  assumes "ring nx pv h (xs @ x # ys)"
  shows "ring (nx(pv x := nx x)) (pv(nx x := pv x)) h (xs @ ys)"
proof -
  have s: "seg nx pv h xs x" "seg nx pv x ys h" and d: "distinct (h # xs @ x # ys)"
    using assms by (auto simp: ring_def seg_append)
  let ?nx = "nx(pv x := nx x)" and ?pv = "pv(nx x := pv x)"
  have p: "pv x = last (h # xs)" using seg_last [OF s(1)] .
  have pin: "pv x = h \<or> pv x \<in> set xs" using p by (cases xs rule: rev_cases) auto
  have n: "nx x = hd (ys @ [h])" using seg_first [OF s(2)] .
  have dd: "distinct (xs @ ys)" "h \<notin> set (xs @ ys)" using d by auto
  have "seg ?nx ?pv h (xs @ ys) h"
  proof (cases ys)
    case Nil
    show ?thesis
    proof (cases xs rule: rev_cases)
      case Nil
      then show ?thesis using \<open>ys = []\<close> s by simp
    next
      case (snoc zs z)
      have "seg ?nx ?pv h zs z = seg nx pv h zs z"
        using d snoc p n \<open>ys = []\<close> by (intro seg_frame) auto
      then show ?thesis using snoc s p n \<open>ys = []\<close> d by (auto simp: seg_append)
    qed
  next
    case (Cons y zs)
    have r: "seg ?nx ?pv y zs h = seg nx pv y zs h"
      using d Cons pin n by (intro seg_frame) auto
    show ?thesis
    proof (cases xs rule: rev_cases)
      case Nil
      then show ?thesis using Cons r s p n by (simp add: seg_append)
    next
      case (snoc ws w)
      have "seg ?nx ?pv h ws w = seg nx pv h ws w"
        using d snoc Cons p n by (intro seg_frame) auto
      then show ?thesis using snoc Cons r s p n by (auto simp: seg_append)
    qed
  qed
  then show ?thesis using dd by (simp add: ring_def)
qed

lemma ring_insert:
  assumes "ring nx pv h xs" "x \<noteq> h" "x \<notin> set xs"
  shows "ring (nx(x := nx h, h := x)) (pv(x := h, nx h := x)) h (x # xs)"
proof (cases xs)
  case Nil
  then show ?thesis using assms by (auto simp: ring_def)
next
  case (Cons y ys)
  have "seg (nx(x := nx h, h := x)) (pv(x := h, nx h := x)) y ys h = seg nx pv y ys h"
    using assms Cons by (intro seg_frame) (auto simp: ring_def)
  then show ?thesis using assms Cons by (auto simp: ring_def)
qed

lemma ring_neighbours:
  assumes "ring nx pv h xs" "x \<in> set xs"
  shows "nx x \<noteq> x" "pv x \<noteq> x"
proof -
  obtain ys zs where xs: "xs = ys @ x # zs" using assms(2) by (meson split_list)
  then have s: "seg nx pv h ys x" "seg nx pv x zs h" and d: "distinct (h # ys @ x # zs)"
    using assms(1) by (auto simp: ring_def seg_append)
  show "nx x \<noteq> x" using seg_first [OF s(2)] d by (cases zs) auto
  show "pv x \<noteq> x" using seg_last [OF s(1)] d by (cases ys rule: rev_cases) auto
qed

subsection \<open>Walking a ring\<close>

text \<open>
  The loop \<^verbatim>\<open>for(b = first; b != head; b = b->next) if(P(b)) ...\<close>: the first cell with \<open>P\<close>, if there is one.
\<close>

fun ring_find :: "nat \<Rightarrow> ('a \<Rightarrow> 'a) \<Rightarrow> ('a \<Rightarrow> bool) \<Rightarrow> 'a \<Rightarrow> 'a \<Rightarrow> 'a option kres" where
  "ring_find 0 nx P h b = Diverge"
| "ring_find (Suc k) nx P h b = (if b = h then Ret None else if P b then Ret (Some b) else ring_find k nx P h (nx b))"

lemma find_SomeD: "find P xs = Some x \<Longrightarrow> P x \<and> x \<in> set xs"
  by (induction xs) (auto split: if_splits)

lemma ring_find_seg:
  "seg nx pv a xs h \<Longrightarrow> h \<notin> set xs \<Longrightarrow> length xs < k \<Longrightarrow> ring_find k nx P h (nx a) = Ret (find P xs)"
proof (induction xs arbitrary: a k)
  case Nil
  then show ?case by (cases k) auto
next
  case (Cons x xs)
  then obtain k' where "k = Suc k'" by (cases k) auto
  then show ?case using Cons by auto
qed

lemma ring_find_next:
  "ring nx pv h xs \<Longrightarrow> length xs < k \<Longrightarrow> ring_find k nx P h (nx h) = Ret (find P xs)"
  by (auto simp: ring_def intro: ring_find_seg)

lemma ring_find_prev:
  "ring nx pv h xs \<Longrightarrow> length xs < k \<Longrightarrow> ring_find k pv P h (pv h) = Ret (find P (rev xs))"
  using ring_find_next [OF ring_rev, of nx pv h xs k P] by simp

end
