(* ===== verification/Locks.thy ===== *)
theory Locks
  imports Prelude
begin

text \<open>
  Spin locks (kernel/lock/spinlock.c) and sleep locks (kernel/lock/sleeplock.c). A call of \<^verbatim>\<open>acquire\<close> or
  \<^verbatim>\<open>release\<close> is cut into the parts between which other CPUs can run: the entry with its checks, the atomic swap,
  the note of the owner; the check and the reset of the owner, the atomic store. The step relation \<open>lock_step\<close>
  interleaves them for any number of CPUs and locks.
\<close>

subsection \<open>Interrupts of one CPU\<close>

text \<open>The fields of \<^verbatim>\<open>struct cpu\<close> the locks use, and the interrupt enable bit of its status register.\<close>

record cpu =
  noff :: int
  intena :: bool
  c_intr :: bool

definition push_off :: "cpu \<Rightarrow> cpu" where
  "push_off c =
     (let old = c_intr c;
          c1 = c\<lparr>c_intr := False\<rparr>;
          c2 = (if noff c1 = 0 then c1\<lparr>intena := old\<rparr> else c1) in
      c2\<lparr>noff := noff c2 + 1\<rparr>)"

definition pop_off :: "cpu \<Rightarrow> cpu kres" where
  "pop_off c =
     (if c_intr c then Panic ''pop_off - interruptible''
      else
        let c1 = c\<lparr>noff := noff c - 1\<rparr> in
        if noff c1 < 0 then Panic ''pop_off''
        else if noff c1 = 0 \<and> intena c1 then Ret (c1\<lparr>c_intr := True\<rparr>) else Ret c1)"

lemma pop_push_nested: "0 < noff c \<Longrightarrow> \<not> c_intr c \<Longrightarrow> pop_off (push_off c) = Ret c"
  by (simp add: pop_off_def push_off_def Let_def)

lemma push_off_noff [simp]: "noff (push_off c) = noff c + 1" "\<not> c_intr (push_off c)"
  by (simp_all add: push_off_def Let_def)

text \<open>\<open>k\<close> nested \<^verbatim>\<open>push_off\<close>s are undone by \<open>k\<close> \<^verbatim>\<open>pop_off\<close>s, which leave the interrupt bit as it was.\<close>

fun pop_offs :: "nat \<Rightarrow> cpu \<Rightarrow> cpu kres" where
  "pop_offs 0 c = Ret c"
| "pop_offs (Suc k) c = kbind (pop_off c) (pop_offs k)"

lemma pop_push_offs:
  assumes "noff c = 0"
  shows "pop_offs (Suc k) ((push_off ^^ Suc k) c) = Ret (c\<lparr>intena := c_intr c\<rparr>)"
proof (induction k)
  case 0
  then show ?case using assms by (simp add: pop_off_def push_off_def Let_def)
next
  case (Suc k)
  have n: "noff ((push_off ^^ j) c) = int j" for j using assms by (induction j) auto
  have "\<not> c_intr ((push_off ^^ Suc k) c)" by simp
  then have "pop_off (push_off ((push_off ^^ Suc k) c)) = Ret ((push_off ^^ Suc k) c)"
    using n [of "Suc k"] by (intro pop_push_nested) simp_all
  then have "pop_offs (Suc (Suc k)) ((push_off ^^ Suc (Suc k)) c) = pop_offs (Suc k) ((push_off ^^ Suc k) c)"
    by simp
  then show ?case using Suc.IH by simp
qed

subsection \<open>Spin locks\<close>

record spinlock =
  sl_locked :: bool
  sl_cpu :: "nat option"

definition initlock :: spinlock where
  "initlock = \<lparr>sl_locked = False, sl_cpu = None\<rparr>"

definition holding :: "nat \<Rightarrow> cpu \<Rightarrow> spinlock \<Rightarrow> (bool \<times> cpu) kres" where
  "holding i c lk =
     (let c1 = push_off c; r = (sl_locked lk \<and> sl_cpu lk = Some i) in
      kbind (pop_off c1) (\<lambda>c2. Ret (r, c2)))"

definition acquire_enter :: "nat \<Rightarrow> cpu \<Rightarrow> spinlock \<Rightarrow> cpu kres" where
  "acquire_enter i c lk =
     kbind (holding i (push_off c) lk) (\<lambda>(r, c1). if r then Panic ''acquire'' else Ret c1)"

text \<open>\<^verbatim>\<open>__sync_lock_test_and_set(&lk->locked, 1)\<close>: the old value, and the lock after the swap.\<close>

definition test_and_set :: "spinlock \<Rightarrow> bool \<times> spinlock" where
  "test_and_set lk = (sl_locked lk, lk\<lparr>sl_locked := True\<rparr>)"

definition acquire_own :: "nat \<Rightarrow> spinlock \<Rightarrow> spinlock" where
  "acquire_own i lk = lk\<lparr>sl_cpu := Some i\<rparr>"

definition release_disown :: "nat \<Rightarrow> cpu \<Rightarrow> spinlock \<Rightarrow> (cpu \<times> spinlock) kres" where
  "release_disown i c lk =
     kbind (holding i c lk) (\<lambda>(r, c1). if \<not> r then Panic ''release'' else Ret (c1, lk\<lparr>sl_cpu := None\<rparr>))"

definition release_open :: "cpu \<Rightarrow> spinlock \<Rightarrow> (cpu \<times> spinlock) kres" where
  "release_open c lk = kbind (pop_off c) (\<lambda>c1. Ret (c1, lk\<lparr>sl_locked := False\<rparr>))"

text \<open>
  The calls when no other CPU interferes; spinning on a taken lock does not end then.
\<close>

definition acquire :: "nat \<Rightarrow> cpu \<Rightarrow> spinlock \<Rightarrow> (cpu \<times> spinlock) kres" where
  "acquire i c lk =
     kbind (acquire_enter i c lk) (\<lambda>c1.
     case test_and_set lk of (old, lk1) \<Rightarrow> if old then Diverge else Ret (c1, acquire_own i lk1))"

definition release :: "nat \<Rightarrow> cpu \<Rightarrow> spinlock \<Rightarrow> (cpu \<times> spinlock) kres" where
  "release i c lk = kbind (release_disown i c lk) (\<lambda>(c1, lk1). release_open c1 lk1)"

subsection \<open>CPUs in parallel\<close>

datatype lphase = Running | Spinning nat | Taken nat | Releasing nat

record machine =
  m_cpu :: "nat \<Rightarrow> cpu"
  m_lock :: "nat \<Rightarrow> spinlock"
  m_phase :: "nat \<Rightarrow> lphase"

inductive lock_step :: "machine \<Rightarrow> machine \<Rightarrow> bool" where
  enter: "m_phase m i = Running \<Longrightarrow> acquire_enter i (m_cpu m i) (m_lock m l) = Ret c \<Longrightarrow>
    lock_step m (m\<lparr>m_cpu := (m_cpu m)(i := c), m_phase := (m_phase m)(i := Spinning l)\<rparr>)"
| swap: "m_phase m i = Spinning l \<Longrightarrow> test_and_set (m_lock m l) = (old, lk) \<Longrightarrow>
    lock_step m (m\<lparr>m_lock := (m_lock m)(l := lk),
      m_phase := (m_phase m)(i := (if old then Spinning l else Taken l))\<rparr>)"
| own: "m_phase m i = Taken l \<Longrightarrow>
    lock_step m (m\<lparr>m_lock := (m_lock m)(l := acquire_own i (m_lock m l)), m_phase := (m_phase m)(i := Running)\<rparr>)"
| disown: "m_phase m i = Running \<Longrightarrow> release_disown i (m_cpu m i) (m_lock m l) = Ret (c, lk) \<Longrightarrow>
    lock_step m (m\<lparr>m_cpu := (m_cpu m)(i := c), m_lock := (m_lock m)(l := lk),
      m_phase := (m_phase m)(i := Releasing l)\<rparr>)"
| reopen: "m_phase m i = Releasing l \<Longrightarrow> release_open (m_cpu m i) (m_lock m l) = Ret (c, lk) \<Longrightarrow>
    lock_step m (m\<lparr>m_cpu := (m_cpu m)(i := c), m_lock := (m_lock m)(l := lk),
      m_phase := (m_phase m)(i := Running)\<rparr>)"
| interrupts: "m_phase m i = Running \<Longrightarrow> noff (m_cpu m i) = 0 \<Longrightarrow>
    lock_step m (m\<lparr>m_cpu := (m_cpu m)(i := (m_cpu m i)\<lparr>c_intr := b\<rparr>)\<rparr>)"

definition lock_start :: "machine \<Rightarrow> bool" where
  "lock_start m \<longleftrightarrow> (\<forall>i. noff (m_cpu m i) = 0 \<and> m_phase m i = Running) \<and> (\<forall>l. m_lock m l = initlock)"

text \<open>CPU \<open>i\<close> is in the critical section of lock \<open>l\<close>, from the swap that took it to the store that frees it.\<close>

definition in_cs :: "machine \<Rightarrow> nat \<Rightarrow> nat \<Rightarrow> bool" where
  "in_cs m i l \<longleftrightarrow> sl_cpu (m_lock m l) = Some i \<or> m_phase m i = Taken l \<or> m_phase m i = Releasing l"

definition owned :: "machine \<Rightarrow> nat \<Rightarrow> nat set" where
  "owned m i = {l. sl_cpu (m_lock m l) = Some i}"

definition lock_inv :: "machine \<Rightarrow> bool" where
  "lock_inv m \<longleftrightarrow>
     (\<forall>i. finite (owned m i) \<and> noff (m_cpu m i) = int (card (owned m i)) + (if m_phase m i = Running then 0 else 1)) \<and>
     (\<forall>i. 0 < noff (m_cpu m i) \<longrightarrow> \<not> c_intr (m_cpu m i)) \<and>
     (\<forall>l. sl_locked (m_lock m l) \<longleftrightarrow> (\<exists>i. in_cs m i l)) \<and>
     (\<forall>i j l. in_cs m i l \<longrightarrow> in_cs m j l \<longrightarrow> i = j) \<and>
     (\<forall>i l. sl_cpu (m_lock m l) = Some i \<longrightarrow> m_phase m i \<noteq> Taken l \<and> m_phase m i \<noteq> Releasing l)"

lemma holding_eq:
  "0 < noff c \<Longrightarrow> \<not> c_intr c \<Longrightarrow> holding i c lk = Ret (sl_locked lk \<and> sl_cpu lk = Some i, c)"
  by (simp add: holding_def pop_push_nested)

lemma acquire_enter_eq:
  "0 \<le> noff c \<Longrightarrow>
   acquire_enter i c lk = (if sl_locked lk \<and> sl_cpu lk = Some i then Panic ''acquire'' else Ret (push_off c))"
  by (simp add: acquire_enter_def holding_eq)

lemma lock_invD:
  assumes "lock_inv m"
  shows "finite (owned m i)" "noff (m_cpu m i) = int (card (owned m i)) + (if m_phase m i = Running then 0 else 1)"
    "0 < noff (m_cpu m i) \<Longrightarrow> \<not> c_intr (m_cpu m i)" "0 \<le> noff (m_cpu m i)"
    "sl_locked (m_lock m l) \<longleftrightarrow> (\<exists>i. in_cs m i l)" "in_cs m i l \<Longrightarrow> in_cs m j l \<Longrightarrow> i = j"
    "sl_cpu (m_lock m l) = Some i \<Longrightarrow> m_phase m i \<noteq> Taken l \<and> m_phase m i \<noteq> Releasing l"
  using assms unfolding lock_inv_def by simp_all

lemma lock_invI:
  assumes "\<And>i. finite (owned m i) \<and> noff (m_cpu m i) = int (card (owned m i)) + (if m_phase m i = Running then 0 else 1)"
    "\<And>i. 0 < noff (m_cpu m i) \<Longrightarrow> \<not> c_intr (m_cpu m i)"
    "\<And>l. sl_locked (m_lock m l) \<longleftrightarrow> (\<exists>i. in_cs m i l)" "\<And>i j l. in_cs m i l \<Longrightarrow> in_cs m j l \<Longrightarrow> i = j"
    "\<And>i l. sl_cpu (m_lock m l) = Some i \<Longrightarrow> m_phase m i \<noteq> Taken l \<and> m_phase m i \<noteq> Releasing l"
  shows "lock_inv m"
  using assms unfolding lock_inv_def by simp

text \<open>A CPU that owns a lock or is in a phase of a call has interrupts off.\<close>

lemma busy_noff:
  assumes "lock_inv m" "l \<in> owned m i \<or> m_phase m i \<noteq> Running"
  shows "0 < noff (m_cpu m i)" "\<not> c_intr (m_cpu m i)"
proof -
  have "l \<in> owned m i \<Longrightarrow> 0 < card (owned m i)" using lock_invD(1) [OF assms(1), of i] by (auto simp: card_gt_0_iff)
  then show "0 < noff (m_cpu m i)" using assms(2) lock_invD(2) [OF assms(1), of i] by auto
  then show "\<not> c_intr (m_cpu m i)" by (rule lock_invD(3) [OF assms(1)])
qed

lemma lock_inv_enter:
  assumes m: "lock_inv m" and st: "m_phase m i = Running" "acquire_enter i (m_cpu m i) (m_lock m l) = Ret c"
  shows "lock_inv (m\<lparr>m_cpu := (m_cpu m)(i := c), m_phase := (m_phase m)(i := Spinning l)\<rparr>)" (is "lock_inv ?m")
proof -
  note D = lock_invD [OF m]
  have c: "c = push_off (m_cpu m i)" using st(2) D(4) [of i] by (simp add: acquire_enter_eq split: if_splits)
  have o: "owned ?m = owned m" and s: "in_cs ?m = in_cs m" using st(1) by (auto simp: owned_def in_cs_def fun_eq_iff)
  show ?thesis unfolding lock_inv_def o s using D st(1) c by auto
qed

lemma lock_inv_swap:
  assumes m: "lock_inv m" and st: "m_phase m i = Spinning l" "test_and_set (m_lock m l) = (old, lk)"
  shows "lock_inv (m\<lparr>m_lock := (m_lock m)(l := lk), m_phase := (m_phase m)(i := (if old then Spinning l else Taken l))\<rparr>)"
    (is "lock_inv ?m")
proof -
  note D = lock_invD [OF m]
  have lk: "lk = (m_lock m l)\<lparr>sl_locked := True\<rparr>" "old = sl_locked (m_lock m l)" using st(2) by (auto simp: test_and_set_def)
  have o: "owned ?m = owned m" using lk by (auto simp: owned_def fun_eq_iff)
  have s: "in_cs ?m j k \<longleftrightarrow> in_cs m j k \<or> (\<not> old \<and> j = i \<and> k = l)" for j k
    using st(1) lk by (auto simp: in_cs_def)
  have free: "\<not> old \<Longrightarrow> \<not> in_cs m j l" for j using D(5) lk by simp
  have "sl_cpu (m_lock ?m k) = sl_cpu (m_lock m k)" for k using lk by simp
  moreover have "sl_cpu (m_lock m l) = Some i \<Longrightarrow> old" using D(5) lk(2) by (auto simp: in_cs_def)
  moreover have "sl_locked (m_lock ?m k) \<longleftrightarrow> (\<exists>j. in_cs ?m j k)" for k
    unfolding s using D(5) lk by auto
  ultimately show ?thesis unfolding lock_inv_def o s using D(1-4,6,7) st(1) free by auto
qed

lemma lock_inv_own:
  assumes m: "lock_inv m" and st: "m_phase m i = Taken l"
  shows "lock_inv (m\<lparr>m_lock := (m_lock m)(l := acquire_own i (m_lock m l)), m_phase := (m_phase m)(i := Running)\<rparr>)"
    (is "lock_inv ?m")
proof -
  note D = lock_invD [OF m]
  have cs: "in_cs m i l" using st by (simp add: in_cs_def)
  have none: "sl_cpu (m_lock m l) = None"
  proof (cases "sl_cpu (m_lock m l)")
    case (Some j)
    then have "j = i" using D(6) [OF _ cs] by (simp add: in_cs_def)
    then show ?thesis using D(7) [of l i] Some st by simp
  qed
  have o: "owned ?m j = (if j = i then insert l (owned m i) else owned m j)" for j
    using none by (auto simp: owned_def acquire_own_def)
  have new: "l \<notin> owned m i" using none by (simp add: owned_def)
  have s: "in_cs ?m = in_cs m" using st none by (auto simp: in_cs_def acquire_own_def fun_eq_iff)
  have "finite (owned ?m j) \<and> noff (m_cpu ?m j) = int (card (owned ?m j)) + (if m_phase ?m j = Running then 0 else 1)" for j
    unfolding o using D(1,2) [of j] new st by auto
  moreover have "sl_cpu (m_lock ?m k) = Some j \<Longrightarrow> m_phase ?m j \<noteq> Taken k \<and> m_phase ?m j \<noteq> Releasing k" for j k
    using D(7) [of k j] by (auto simp: acquire_own_def split: if_splits)
  ultimately show ?thesis unfolding lock_inv_def s using D(3,5,6) by (simp add: acquire_own_def)
qed

lemma lock_inv_disown:
  assumes m: "lock_inv m" and st: "m_phase m i = Running" "release_disown i (m_cpu m i) (m_lock m l) = Ret (c, lk)"
  shows "lock_inv (m\<lparr>m_cpu := (m_cpu m)(i := c), m_lock := (m_lock m)(l := lk), m_phase := (m_phase m)(i := Releasing l)\<rparr>)"
    (is "lock_inv ?m")
proof -
  note D = lock_invD [OF m]
  have "sl_cpu (m_lock m l) = Some i"
    using st(2) by (auto simp: release_disown_def holding_def Let_def kres_simps split: if_splits)
  then have mine: "l \<in> owned m i" "in_cs m i l" by (simp_all add: owned_def in_cs_def)
  have c: "c = m_cpu m i" "lk = (m_lock m l)\<lparr>sl_cpu := None\<rparr>"
    using st(2) busy_noff [OF m, of l i] mine by (auto simp: release_disown_def holding_eq split: if_splits)
  have o: "owned ?m j = (if j = i then owned m i - {l} else owned m j)" for j
    using c mine by (auto simp: owned_def)
  have s: "in_cs ?m = in_cs m" using c mine st(1) by (auto simp: in_cs_def owned_def fun_eq_iff)
  have "finite (owned ?m j) \<and> noff (m_cpu ?m j) = int (card (owned ?m j)) + (if m_phase ?m j = Running then 0 else 1)" for j
    unfolding o using D(1,2) [of j] mine(1) c st(1) card_Suc_Diff1 [OF D(1) mine(1)] by auto
  moreover have "sl_cpu (m_lock ?m k) = Some j \<Longrightarrow> m_phase ?m j \<noteq> Taken k \<and> m_phase ?m j \<noteq> Releasing k" for j k
    using D(7) [of k j] c by (auto split: if_splits)
  ultimately show ?thesis unfolding lock_inv_def s using D(3,5,6) c by simp
qed

lemma lock_inv_reopen:
  assumes m: "lock_inv m" and st: "m_phase m i = Releasing l" "release_open (m_cpu m i) (m_lock m l) = Ret (c, lk)"
  shows "lock_inv (m\<lparr>m_cpu := (m_cpu m)(i := c), m_lock := (m_lock m)(l := lk), m_phase := (m_phase m)(i := Running)\<rparr>)"
    (is "lock_inv ?m")
proof -
  note D = lock_invD [OF m]
  have cs: "in_cs m i l" using st(1) by (simp add: in_cs_def)
  have lk: "lk = (m_lock m l)\<lparr>sl_locked := False\<rparr>"
    and c: "noff c = noff (m_cpu m i) - 1" "0 < noff c \<Longrightarrow> \<not> c_intr c"
    using st(2) by (auto simp: release_open_def pop_off_def Let_def kres_simps split: if_splits)
  have o: "owned ?m = owned m" using lk by (auto simp: owned_def fun_eq_iff)
  have none: "sl_cpu (m_lock m l) \<noteq> Some j" for j
  proof
    assume a: "sl_cpu (m_lock m l) = Some j"
    then have "j = i" using D(6) [OF _ cs] by (simp add: in_cs_def)
    then show False using D(7) [OF a] st(1) by simp
  qed
  have other: "j \<noteq> i \<Longrightarrow> \<not> in_cs m j l" for j using D(6) [OF cs] by blast
  have s: "in_cs ?m j k \<longleftrightarrow> in_cs m j k \<and> k \<noteq> l" for j k
  proof (cases "j = i")
    case True
    then show ?thesis using st(1) lk none by (simp add: in_cs_def)
  next
    case False
    then show ?thesis using other [of j] lk by (auto simp: in_cs_def)
  qed
  show ?thesis
  proof (rule lock_invI)
    show "sl_locked (m_lock ?m k) \<longleftrightarrow> (\<exists>j. in_cs ?m j k)" for k unfolding s using D(5) lk by simp
    show "finite (owned ?m j) \<and> noff (m_cpu ?m j) = int (card (owned ?m j)) + (if m_phase ?m j = Running then 0 else 1)" for j
      unfolding o using D(1,2) [of j] c(1) st(1) by auto
    show "sl_cpu (m_lock ?m k) = Some j \<Longrightarrow> m_phase ?m j \<noteq> Taken k \<and> m_phase ?m j \<noteq> Releasing k" for j k
      using D(7) [of k j] lk by (auto split: if_splits)
    show "0 < noff (m_cpu ?m j) \<Longrightarrow> \<not> c_intr (m_cpu ?m j)" for j using D(3) [of j] c(2) by (simp split: if_splits)
    show "in_cs ?m j k \<Longrightarrow> in_cs ?m j' k \<Longrightarrow> j = j'" for j j' k unfolding s using D(6) by blast
  qed
qed

lemma lock_inv_interrupts:
  assumes m: "lock_inv m" and st: "m_phase m i = Running" "noff (m_cpu m i) = 0"
  shows "lock_inv (m\<lparr>m_cpu := (m_cpu m)(i := (m_cpu m i)\<lparr>c_intr := b\<rparr>)\<rparr>)" (is "lock_inv ?m")
proof -
  note D = lock_invD [OF m]
  have o: "owned ?m = owned m" and s: "in_cs ?m = in_cs m" by (auto simp: owned_def in_cs_def fun_eq_iff)
  show ?thesis unfolding lock_inv_def o s using D st by auto
qed

interpretation spin: invariant lock_start lock_step lock_inv
proof
  fix m assume "lock_start m"
  then show "lock_inv m" by (simp add: lock_start_def lock_inv_def owned_def in_cs_def initlock_def)
next
  fix m t assume "lock_step m t" "lock_inv m"
  then show "lock_inv t"
    by (cases rule: lock_step.cases)
      (blast intro: lock_inv_enter lock_inv_swap lock_inv_own lock_inv_disown lock_inv_reopen lock_inv_interrupts)+
qed

subsection \<open>Sleep locks\<close>

text \<open>
  \<open>who\<close> is the pid of the calling process, \<open>None\<close> when no process runs on the CPU. \<^verbatim>\<open>acquiresleep\<close> of a lock
  that is held sleeps (\<open>None\<close>) and tries again when it is woken.
\<close>

record sleeplock =
  sk_locked :: bool
  sk_pid :: int

definition initsleeplock :: sleeplock where
  "initsleeplock = \<lparr>sk_locked = False, sk_pid = 0\<rparr>"

definition acquiresleep :: "int option \<Rightarrow> sleeplock \<Rightarrow> sleeplock option" where
  "acquiresleep who lk =
     (if sk_locked lk then None
      else Some (lk\<lparr>sk_locked := True, sk_pid := (case who of None \<Rightarrow> - 1 | Some pid \<Rightarrow> pid)\<rparr>))"

definition releasesleep :: "sleeplock \<Rightarrow> sleeplock" where
  "releasesleep lk = lk\<lparr>sk_locked := False, sk_pid := 0\<rparr>"

definition holdingsleep :: "int option \<Rightarrow> nat \<Rightarrow> sleeplock \<Rightarrow> bool kres" where
  "holdingsleep who cpuid lk =
     (if sk_pid lk = - 1 then Ret (sk_locked lk \<and> cpuid = 0)
      else if sk_locked lk then (case who of None \<Rightarrow> Fault | Some pid \<Rightarrow> Ret (sk_pid lk = pid))
      else Ret False)"

lemma holdingsleep_own:
  "acquiresleep who lk = Some lk' \<Longrightarrow> who \<noteq> None \<or> cpuid = 0 \<Longrightarrow> who \<noteq> Some (- 1) \<Longrightarrow> holdingsleep who cpuid lk' = Ret True"
  by (auto simp: acquiresleep_def holdingsleep_def split: if_splits option.splits)

subsection \<open>Properties\<close>

text \<open>C9: mutual exclusion: from a start with all locks free, however the CPUs interleave their calls of \<^verbatim>\<open>acquire\<close> and
  \<^verbatim>\<open>release\<close>, at most one CPU is in the critical section of a lock, and a CPU in a critical section has its
  interrupts off.\<close>

theorem spinlock_mutex:
  assumes "lock_start s" "lock_step\<^sup>*\<^sup>* s m" "in_cs m i l" "in_cs m j l"
  shows "i = j \<and> \<not> c_intr (m_cpu m i)"
proof -
  have I: "lock_inv m" by (rule spin.reachable_I [OF assms(1,2)])
  show ?thesis using lock_invD(6) [OF I assms(3,4)] busy_noff(2) [OF I, of l i] assms(3) by (auto simp: in_cs_def owned_def)
qed

definition idle_machine :: machine where
  "idle_machine = \<lparr>m_cpu = (\<lambda>_. \<lparr>noff = 0, intena = False, c_intr = True\<rparr>), m_lock = (\<lambda>_. initlock), m_phase = (\<lambda>_. Running)\<rparr>"

definition taken_machine :: machine where
  "taken_machine =
     \<lparr>m_cpu = (m_cpu idle_machine)(1 := push_off (m_cpu idle_machine 1)),
      m_lock = (\<lambda>_. initlock)(5 := \<lparr>sl_locked = True, sl_cpu = None\<rparr>), m_phase = (\<lambda>_. Running)(1 := Taken 5)\<rparr>"

lemma idle_start: "lock_start idle_machine"
  by (simp add: lock_start_def idle_machine_def)

lemma idle_taken: "lock_step\<^sup>*\<^sup>* idle_machine taken_machine"
proof -
  let ?m = "idle_machine\<lparr>m_cpu := (m_cpu idle_machine)(1 := push_off (m_cpu idle_machine 1)), m_phase := (m_phase idle_machine)(1 := Spinning 5)\<rparr>"
  have "acquire_enter 1 (m_cpu idle_machine 1) (m_lock idle_machine 5) = Ret (push_off (m_cpu idle_machine 1))"
    by (simp add: acquire_enter_eq idle_machine_def initlock_def)
  then have 1: "lock_step idle_machine ?m" by (intro lock_step.enter) (simp_all add: idle_machine_def)
  have "lock_step ?m (?m\<lparr>m_lock := (m_lock ?m)(5 := \<lparr>sl_locked = True, sl_cpu = None\<rparr>), m_phase := (m_phase ?m)(1 := (if False then Spinning 5 else Taken 5))\<rparr>)"
    by (rule lock_step.swap) (simp_all add: test_and_set_def idle_machine_def initlock_def)
  then have "lock_step ?m taken_machine" by (simp add: taken_machine_def idle_machine_def)
  then show ?thesis using 1 by (meson converse_rtranclp_into_rtranclp rtranclp.rtrancl_refl)
qed

theorem spinlock_mutex_witness:
  "{j. in_cs taken_machine j 5} = {1} \<and> \<not> c_intr (m_cpu taken_machine 1)"
proof -
  have one: "in_cs taken_machine 1 5" by (simp add: in_cs_def taken_machine_def)
  have "j = 1" if "in_cs taken_machine j 5" for j
    using spinlock_mutex [OF idle_start idle_taken that one] by blast
  then have "{j. in_cs taken_machine j 5} = {1}" using one by blast
  moreover have "\<not> c_intr (m_cpu taken_machine 1)" using spinlock_mutex [OF idle_start idle_taken one one] by blast
  ultimately show ?thesis by blast
qed

text \<open>C36: the lock calls never panic in a program that releases only what it holds and does not acquire what it
  holds: in every reachable state, a CPU's \<^verbatim>\<open>acquire\<close> of a lock it does not own gets past its checks, its
  \<^verbatim>\<open>release\<close> of a lock it owns passes the check and goes on to the final store, and the closing \<^verbatim>\<open>pop_off\<close> of a
  release in progress succeeds.\<close>

theorem spinlock_calls_return:
  assumes "lock_start s" "lock_step\<^sup>*\<^sup>* s m"
  shows "(m_phase m i = Running \<and> sl_cpu (m_lock m l) \<noteq> Some i \<longrightarrow> returns (acquire_enter i (m_cpu m i) (m_lock m l))) \<and>
    (m_phase m i = Running \<and> sl_cpu (m_lock m l) = Some i \<longrightarrow> returns (release i (m_cpu m i) (m_lock m l))) \<and>
    (m_phase m i = Releasing l \<longrightarrow> returns (release_open (m_cpu m i) (m_lock m l)))"
proof -
  have I: "lock_inv m" by (rule spin.reachable_I [OF assms])
  note D = lock_invD [OF I]
  have "returns (release i (m_cpu m i) (m_lock m l))" if "sl_cpu (m_lock m l) = Some i"
  proof -
    have "0 < noff (m_cpu m i)" "\<not> c_intr (m_cpu m i)" using busy_noff [OF I, of l i] that by (simp_all add: owned_def)
    moreover have "sl_locked (m_lock m l)" using D(5) that by (auto simp: in_cs_def)
    ultimately show ?thesis using that
      by (simp add: release_def release_disown_def holding_eq release_open_def pop_off_def Let_def)
  qed
  moreover have "returns (release_open (m_cpu m i) (m_lock m l))" if "m_phase m i = Releasing l"
    using busy_noff [OF I, of l i] that by (simp add: release_open_def pop_off_def Let_def)
  ultimately show ?thesis using D(4) by (simp add: acquire_enter_eq)
qed

theorem spinlock_calls_return_witness:
  "m_phase taken_machine 0 = Running \<and> sl_cpu (m_lock taken_machine 5) \<noteq> Some 0 \<and>
   returns (acquire_enter 0 (m_cpu taken_machine 0) (m_lock taken_machine 5))"
proof -
  have "m_phase taken_machine 0 = Running \<and> sl_cpu (m_lock taken_machine 5) \<noteq> Some 0" by (simp add: taken_machine_def)
  moreover note spinlock_calls_return [OF idle_start idle_taken, of 0 5]
  ultimately show ?thesis by blast
qed

end
