(* ===== verification/Bio.thy ===== *)
theory Bio
  imports Ring Locks
begin

text \<open>
  The buffer cache (kernel/fs/bio.c): the array of buffers linked in a ring in order of use, with the sentinel
  \<^verbatim>\<open>bcache.head\<close> at index \<open>NBUF\<close>, over the disk it caches. The model adds the history of disk writes
  (\<open>bc_writes\<close>), from which the states of the disk at a crash are read off. \<open>disk_rw\<close> is what a completed
  \<^verbatim>\<open>virtio_disk_rw\<close> does; that driver uses the block number alone and not the device. A call that would sleep on
  a buffer held by someone else is \<open>Diverge\<close>.
\<close>

definition NBUF :: nat where "NBUF = 30"

record buf =
  b_valid :: bool
  b_dev :: u32
  b_blockno :: u32
  b_lock :: sleeplock
  b_refcnt :: u32
  b_prev :: nat
  b_next :: nat
  b_data :: bytes

record bcache =
  bc_buf :: "nat \<Rightarrow> buf"
  bc_disk :: "u32 \<Rightarrow> bytes"
  bc_writes :: "(u32 \<times> bytes) list"

text \<open>The caller: the pid of the running process, if there is one, and the number of the CPU.\<close>

type_synonym caller = "int option \<times> nat"

definition set_buf :: "bcache \<Rightarrow> nat \<Rightarrow> (buf \<Rightarrow> buf) \<Rightarrow> bcache" where
  "set_buf s i f = s\<lparr>bc_buf := (bc_buf s)(i := f (bc_buf s i))\<rparr>"

subsection \<open>Operations\<close>

definition link_front :: "bcache \<Rightarrow> nat \<Rightarrow> bcache" where
  "link_front s b =
     (let hn = b_next (bc_buf s NBUF);
          s1 = set_buf s b (\<lambda>x. x\<lparr>b_next := hn, b_prev := NBUF\<rparr>);
          s2 = set_buf s1 (b_next (bc_buf s1 NBUF)) (\<lambda>x. x\<lparr>b_prev := b\<rparr>) in
      set_buf s2 NBUF (\<lambda>x. x\<lparr>b_next := b\<rparr>))"

definition binit :: "bcache \<Rightarrow> bcache" where
  "binit s =
     fold (\<lambda>b s. link_front (set_buf s b (\<lambda>x. x\<lparr>b_lock := initsleeplock\<rparr>)) b) [0..<NBUF]
       (set_buf s NBUF (\<lambda>x. x\<lparr>b_prev := NBUF, b_next := NBUF\<rparr>))"

definition lock_buf :: "caller \<Rightarrow> bcache \<Rightarrow> nat \<Rightarrow> (nat \<times> bcache) kres" where
  "lock_buf c s b =
     (case acquiresleep (fst c) (b_lock (bc_buf s b)) of
        None \<Rightarrow> Diverge
      | Some lk \<Rightarrow> Ret (b, set_buf s b (\<lambda>x. x\<lparr>b_lock := lk\<rparr>)))"

definition bget :: "caller \<Rightarrow> bcache \<Rightarrow> u32 \<Rightarrow> u32 \<Rightarrow> (nat \<times> bcache) kres" where
  "bget c s dev blockno =
     kbind (ring_find (NBUF + 1) (\<lambda>i. b_next (bc_buf s i))
              (\<lambda>i. b_dev (bc_buf s i) = dev \<and> b_blockno (bc_buf s i) = blockno) NBUF (b_next (bc_buf s NBUF))) (\<lambda>hit.
     case hit of
       Some b \<Rightarrow> lock_buf c (set_buf s b (\<lambda>x. x\<lparr>b_refcnt := b_refcnt x + 1\<rparr>)) b
     | None \<Rightarrow>
         kbind (ring_find (NBUF + 1) (\<lambda>i. b_prev (bc_buf s i))
                  (\<lambda>i. b_refcnt (bc_buf s i) = 0) NBUF (b_prev (bc_buf s NBUF))) (\<lambda>unused.
         case unused of
           Some b \<Rightarrow> lock_buf c (set_buf s b
             (\<lambda>x. x\<lparr>b_dev := dev, b_blockno := blockno, b_valid := False, b_refcnt := 1\<rparr>)) b
         | None \<Rightarrow> Panic ''bget: no buffers''))"

definition disk_rw :: "bcache \<Rightarrow> nat \<Rightarrow> bool \<Rightarrow> bcache" where
  "disk_rw s b write =
     (let x = bc_buf s b in
      if write then s\<lparr>bc_disk := (bc_disk s)(b_blockno x := b_data x), bc_writes := bc_writes s @ [(b_blockno x, b_data x)]\<rparr>
      else set_buf s b (\<lambda>x. x\<lparr>b_data := bc_disk s (b_blockno x)\<rparr>))"

definition bread :: "caller \<Rightarrow> bcache \<Rightarrow> u32 \<Rightarrow> u32 \<Rightarrow> (nat \<times> bcache) kres" where
  "bread c s dev blockno =
     kbind (bget c s dev blockno) (\<lambda>(b, s1).
     if \<not> b_valid (bc_buf s1 b) then Ret (b, set_buf (disk_rw s1 b False) b (\<lambda>x. x\<lparr>b_valid := True\<rparr>))
     else Ret (b, s1))"

definition bwrite :: "caller \<Rightarrow> bcache \<Rightarrow> nat \<Rightarrow> bcache kres" where
  "bwrite c s b =
     kbind (holdingsleep (fst c) (snd c) (b_lock (bc_buf s b))) (\<lambda>h.
     if \<not> h then Panic ''bwrite'' else Ret (disk_rw s b True))"

definition unlink_buf :: "bcache \<Rightarrow> nat \<Rightarrow> bcache" where
  "unlink_buf s b =
     (let s1 = set_buf s (b_next (bc_buf s b)) (\<lambda>x. x\<lparr>b_prev := b_prev (bc_buf s b)\<rparr>) in
      set_buf s1 (b_prev (bc_buf s1 b)) (\<lambda>x. x\<lparr>b_next := b_next (bc_buf s1 b)\<rparr>))"

definition brelse :: "caller \<Rightarrow> bcache \<Rightarrow> nat \<Rightarrow> bcache kres" where
  "brelse c s b =
     kbind (holdingsleep (fst c) (snd c) (b_lock (bc_buf s b))) (\<lambda>h.
     if \<not> h then Panic ''brelse''
     else
       let s1 = set_buf s b (\<lambda>x. x\<lparr>b_lock := releasesleep (b_lock x)\<rparr>);
           s2 = set_buf s1 b (\<lambda>x. x\<lparr>b_refcnt := b_refcnt x - 1\<rparr>) in
       if b_refcnt (bc_buf s2 b) = 0 then Ret (link_front (unlink_buf s2 b) b) else Ret s2)"

definition bpin :: "bcache \<Rightarrow> nat \<Rightarrow> bcache" where
  "bpin s b = set_buf s b (\<lambda>x. x\<lparr>b_refcnt := b_refcnt x + 1\<rparr>)"

definition bunpin :: "bcache \<Rightarrow> nat \<Rightarrow> bcache" where
  "bunpin s b = set_buf s b (\<lambda>x. x\<lparr>b_refcnt := b_refcnt x - 1\<rparr>)"

subsection \<open>The invariant\<close>

abbreviation bnext :: "bcache \<Rightarrow> nat \<Rightarrow> nat" where
  "bnext s \<equiv> \<lambda>i. b_next (bc_buf s i)"

abbreviation bprev :: "bcache \<Rightarrow> nat \<Rightarrow> nat" where
  "bprev s \<equiv> \<lambda>i. b_prev (bc_buf s i)"

definition bring :: "bcache \<Rightarrow> nat list \<Rightarrow> bool" where
  "bring s xs \<longleftrightarrow> ring (bnext s) (bprev s) NBUF xs \<and> set xs = {..<NBUF}"

text \<open>A buffer without its links.\<close>

definition core :: "buf \<Rightarrow> buf" where
  "core x = x\<lparr>b_prev := 0, b_next := 0\<rparr>"

definition holds_block :: "bcache \<Rightarrow> u32 \<Rightarrow> u32 \<Rightarrow> nat \<Rightarrow> bool" where
  "holds_block s d bno i \<longleftrightarrow> i < NBUF \<and> b_dev (bc_buf s i) = d \<and> b_blockno (bc_buf s i) = bno"

definition owned_by :: "caller \<Rightarrow> sleeplock" where
  "owned_by c = \<lparr>sk_locked = True, sk_pid = (case fst c of None \<Rightarrow> - 1 | Some pid \<Rightarrow> pid)\<rparr>"

text \<open>
  \<open>bio_ok c d s U\<close>: the buffers of device \<open>d\<close> hold different blocks, an unreferenced buffer has no data that is not on
  disk, and \<open>c\<close> holds exactly the buffers \<open>U\<close>, nobody else any.
\<close>

definition bio_ok :: "caller \<Rightarrow> u32 \<Rightarrow> bcache \<Rightarrow> nat set \<Rightarrow> bool" where
  "bio_ok c d s U \<longleftrightarrow>
     (\<exists>xs. bring s xs) \<and> U \<subseteq> {..<NBUF} \<and>
     (\<forall>i<NBUF. b_lock (bc_buf s i) = (if i \<in> U then owned_by c else initsleeplock)) \<and>
     (\<forall>i<NBUF. b_dev (bc_buf s i) = d \<or> \<not> b_valid (bc_buf s i)) \<and>
     (\<forall>i j bno. holds_block s d bno i \<longrightarrow> holds_block s d bno j \<longrightarrow> i = j) \<and>
     (\<forall>i<NBUF. b_valid (bc_buf s i) \<longrightarrow> b_refcnt (bc_buf s i) = 0 \<longrightarrow> b_data (bc_buf s i) = bc_disk s (b_blockno (bc_buf s i)))"

lemma bio_okD:
  assumes "bio_ok c d s U"
  shows "\<exists>xs. bring s xs" "U \<subseteq> {..<NBUF}"
    "i < NBUF \<Longrightarrow> b_lock (bc_buf s i) = (if i \<in> U then owned_by c else initsleeplock)"
    "i < NBUF \<Longrightarrow> b_dev (bc_buf s i) = d \<or> \<not> b_valid (bc_buf s i)"
    "holds_block s d bno i \<Longrightarrow> holds_block s d bno j \<Longrightarrow> i = j"
    "i < NBUF \<Longrightarrow> b_valid (bc_buf s i) \<Longrightarrow> b_refcnt (bc_buf s i) = 0 \<Longrightarrow> b_data (bc_buf s i) = bc_disk s (b_blockno (bc_buf s i))"
  using assms unfolding bio_ok_def by simp_all

lemma bio_okI:
  assumes "\<exists>xs. bring s xs" "U \<subseteq> {..<NBUF}"
    "\<And>i. i < NBUF \<Longrightarrow> b_lock (bc_buf s i) = (if i \<in> U then owned_by c else initsleeplock)"
    "\<And>i. i < NBUF \<Longrightarrow> b_dev (bc_buf s i) = d \<or> \<not> b_valid (bc_buf s i)"
    "\<And>i j bno. holds_block s d bno i \<Longrightarrow> holds_block s d bno j \<Longrightarrow> i = j"
    "\<And>i. i < NBUF \<Longrightarrow> b_valid (bc_buf s i) \<Longrightarrow> b_refcnt (bc_buf s i) = 0 \<Longrightarrow> b_data (bc_buf s i) = bc_disk s (b_blockno (bc_buf s i))"
  shows "bio_ok c d s U"
  using assms unfolding bio_ok_def by simp

lemma set_buf_simps [simp]:
  "bc_buf (set_buf s i f) = (bc_buf s)(i := f (bc_buf s i))" "bc_disk (set_buf s i f) = bc_disk s" "bc_writes (set_buf s i f) = bc_writes s"
  by (simp_all add: set_buf_def)

lemma bring_length: "bring s xs \<Longrightarrow> length xs = NBUF"
  using distinct_card [of xs] by (simp add: bring_def ring_def)

text \<open>Changes that leave the links alone keep the ring.\<close>

lemma bring_same_links:
  "bring s xs \<Longrightarrow> (\<And>i. b_next (bc_buf s' i) = b_next (bc_buf s i)) \<Longrightarrow> (\<And>i. b_prev (bc_buf s' i) = b_prev (bc_buf s i)) \<Longrightarrow> bring s' xs"
  by (simp add: bring_def)

lemma find_holds:
  assumes "bring s xs" "holds_block s d bno b" "\<And>i. holds_block s d bno i \<Longrightarrow> i = b"
  shows "find (\<lambda>i. b_dev (bc_buf s i) = d \<and> b_blockno (bc_buf s i) = bno) xs = Some b"
proof (cases "find (\<lambda>i. b_dev (bc_buf s i) = d \<and> b_blockno (bc_buf s i) = bno) xs")
  case None
  then show ?thesis using assms(1,2) by (auto simp: find_None_iff holds_block_def bring_def)
next
  case (Some i)
  then have "i \<in> set xs" "b_dev (bc_buf s i) = d \<and> b_blockno (bc_buf s i) = bno" by (auto simp: find_Some_iff)
  then have "i = b" using assms(1,3) by (simp add: holds_block_def bring_def)
  then show ?thesis using Some by simp
qed

lemma find_none_holds:
  "bring s xs \<Longrightarrow> \<forall>i. \<not> holds_block s d bno i \<Longrightarrow> find (\<lambda>i. b_dev (bc_buf s i) = d \<and> b_blockno (bc_buf s i) = bno) xs = None"
  by (auto simp: find_None_iff holds_block_def bring_def)

text \<open>The buffer \<^verbatim>\<open>bread\<close> returns, and what becomes of it.\<close>

definition fetched :: "caller \<Rightarrow> u32 \<Rightarrow> u32 \<Rightarrow> bcache \<Rightarrow> nat \<Rightarrow> buf" where
  "fetched c d bno s b =
     (bc_buf s b)\<lparr>b_valid := True, b_dev := d, b_blockno := bno, b_lock := owned_by c, b_refcnt := b_refcnt (bc_buf s b) + 1,
        b_data := (if holds_block s d bno b \<and> b_valid (bc_buf s b) then b_data (bc_buf s b) else bc_disk s bno)\<rparr>"

definition bread_picks :: "bcache \<Rightarrow> u32 \<Rightarrow> u32 \<Rightarrow> nat \<Rightarrow> bool" where
  "bread_picks s d bno b \<longleftrightarrow>
     holds_block s d bno b \<or> (b < NBUF \<and> (\<forall>i. \<not> holds_block s d bno i) \<and> b_refcnt (bc_buf s b) = 0)"

lemma lock_buf_free:
  "b_lock (bc_buf s b) = initsleeplock \<Longrightarrow> lock_buf c s b = Ret (b, set_buf s b (\<lambda>x. x\<lparr>b_lock := owned_by c\<rparr>))"
  by (simp add: lock_buf_def acquiresleep_def initsleeplock_def owned_by_def)

lemma bread_hit:
  assumes ok: "bio_ok c d s U" and b: "holds_block s d bno b" "b \<notin> U"
  shows "bread c s d bno = Ret (b, set_buf s b (\<lambda>_. fetched c d bno s b))"
proof -
  obtain xs where xs: "bring s xs" using bio_okD(1) [OF ok] by blast
  have "find (\<lambda>i. b_dev (bc_buf s i) = d \<and> b_blockno (bc_buf s i) = bno) xs = Some b"
    by (rule find_holds [OF xs b(1)]) (rule bio_okD(5) [OF ok _ b(1)])
  then have "ring_find (NBUF + 1) (bnext s) (\<lambda>i. b_dev (bc_buf s i) = d \<and> b_blockno (bc_buf s i) = bno) NBUF (bnext s NBUF) = Ret (Some b)"
    using ring_find_next [of "bnext s" "bprev s" NBUF xs "NBUF + 1" "\<lambda>i. b_dev (bc_buf s i) = d \<and> b_blockno (bc_buf s i) = bno"]
      xs bring_length [OF xs] by (simp add: bring_def)
  moreover have "b_lock (bc_buf s b) = initsleeplock" using bio_okD(3) [OF ok, of b] b by (simp add: holds_block_def)
  ultimately have g: "bget c s d bno = Ret (b, set_buf (set_buf s b (\<lambda>x. x\<lparr>b_refcnt := b_refcnt x + 1\<rparr>)) b (\<lambda>x. x\<lparr>b_lock := owned_by c\<rparr>))"
    unfolding bget_def by (simp add: lock_buf_free)
  have "b_valid (bc_buf s b) \<Longrightarrow>
      (bc_buf s b)\<lparr>b_refcnt := b_refcnt (bc_buf s b) + 1, b_lock := owned_by c\<rparr> = fetched c d bno s b"
    and "\<not> b_valid (bc_buf s b) \<Longrightarrow>
      (bc_buf s b)\<lparr>b_refcnt := b_refcnt (bc_buf s b) + 1, b_lock := owned_by c, b_data := bc_disk s (b_blockno (bc_buf s b)), b_valid := True\<rparr> =
      fetched c d bno s b"
    using b(1) by (auto intro!: buf.equality simp: fetched_def holds_block_def)
  then show ?thesis using g unfolding bread_def by (simp add: disk_rw_def set_buf_def)
qed

lemma bread_miss:
  assumes ok: "bio_ok c d s U" and m: "\<forall>i. \<not> holds_block s d bno i" and u: "\<forall>i\<in>U. b_refcnt (bc_buf s i) \<noteq> 0"
    and free: "\<exists>i<NBUF. b_refcnt (bc_buf s i) = 0"
  shows "\<exists>b<NBUF. b_refcnt (bc_buf s b) = 0 \<and> bread c s d bno = Ret (b, set_buf s b (\<lambda>_. fetched c d bno s b))"
proof -
  obtain xs where xs: "bring s xs" using bio_okD(1) [OF ok] by blast
  have hit: "ring_find (NBUF + 1) (bnext s) (\<lambda>i. b_dev (bc_buf s i) = d \<and> b_blockno (bc_buf s i) = bno) NBUF (bnext s NBUF) = Ret None"
    using ring_find_next [of "bnext s" "bprev s" NBUF xs "NBUF + 1" "\<lambda>i. b_dev (bc_buf s i) = d \<and> b_blockno (bc_buf s i) = bno"]
      xs bring_length [OF xs] find_none_holds [OF xs m] by (simp add: bring_def)
  have "find (\<lambda>i. b_refcnt (bc_buf s i) = 0) (rev xs) \<noteq> None"
    using free xs by (auto simp: find_None_iff bring_def)
  then obtain b where b: "find (\<lambda>i. b_refcnt (bc_buf s i) = 0) (rev xs) = Some b" by auto
  then have "b \<in> set (rev xs)" "b_refcnt (bc_buf s b) = 0" by (auto dest: find_SomeD)
  then have bb: "b < NBUF" "b_refcnt (bc_buf s b) = 0" using xs by (auto simp: bring_def)
  have "ring_find (NBUF + 1) (bprev s) (\<lambda>i. b_refcnt (bc_buf s i) = 0) NBUF (bprev s NBUF) = Ret (Some b)"
    using ring_find_prev [of "bnext s" "bprev s" NBUF xs "NBUF + 1" "\<lambda>i. b_refcnt (bc_buf s i) = 0"]
      xs bring_length [OF xs] b by (simp add: bring_def)
  moreover have "b_lock (bc_buf s b) = initsleeplock" using bio_okD(3) [OF ok, of b] bb u by auto
  ultimately have g: "bget c s d bno =
      Ret (b, set_buf (set_buf s b (\<lambda>x. x\<lparr>b_dev := d, b_blockno := bno, b_valid := False, b_refcnt := 1\<rparr>)) b (\<lambda>x. x\<lparr>b_lock := owned_by c\<rparr>))"
    unfolding bget_def using hit by (simp add: lock_buf_free)
  have "(bc_buf s b)\<lparr>b_dev := d, b_blockno := bno, b_refcnt := 1, b_lock := owned_by c, b_data := bc_disk s bno, b_valid := True\<rparr> = fetched c d bno s b"
    using m bb by (auto intro!: buf.equality simp: fetched_def)
  then have "bread c s d bno = Ret (b, set_buf s b (\<lambda>_. fetched c d bno s b))"
    using g unfolding bread_def by (simp add: disk_rw_def set_buf_def)
  then show ?thesis using bb by blast
qed

lemma bread_returns:
  assumes ok: "bio_ok c d s U" and u: "\<forall>i\<in>U. b_refcnt (bc_buf s i) \<noteq> 0"
    and own: "\<And>i. holds_block s d bno i \<Longrightarrow> i \<notin> U"
    and free: "(\<exists>i. holds_block s d bno i) \<or> (\<exists>i<NBUF. b_refcnt (bc_buf s i) = 0)"
  shows "\<exists>b. bread_picks s d bno b \<and> b \<notin> U \<and> bread c s d bno = Ret (b, set_buf s b (\<lambda>_. fetched c d bno s b))"
proof (cases "\<exists>i. holds_block s d bno i")
  case True
  then show ?thesis using bread_hit [OF ok] own by (auto simp: bread_picks_def)
next
  case False
  then obtain b where "b < NBUF" "b_refcnt (bc_buf s b) = 0" "bread c s d bno = Ret (b, set_buf s b (\<lambda>_. fetched c d bno s b))"
    using bread_miss [OF ok _ u] free by auto
  then show ?thesis using False u by (auto simp: bread_picks_def)
qed

lemma core_eq_iff:
  "core x = core y \<longleftrightarrow> b_valid x = b_valid y \<and> b_dev x = b_dev y \<and> b_blockno x = b_blockno y \<and> b_lock x = b_lock y \<and>
     b_refcnt x = b_refcnt y \<and> b_data x = b_data y"
  by (cases x; cases y) (auto simp: core_def)

text \<open>The invariant looks at the cores, the disk and the ring only.\<close>

lemma bio_ok_cong:
  assumes "bio_ok c d s U" "\<exists>xs. bring s' xs" "\<And>i. i < NBUF \<Longrightarrow> core (bc_buf s' i) = core (bc_buf s i)" "bc_disk s' = bc_disk s"
  shows "bio_ok c d s' U"
proof -
  have e: "b_valid (bc_buf s' i) = b_valid (bc_buf s i)" "b_dev (bc_buf s' i) = b_dev (bc_buf s i)"
    "b_blockno (bc_buf s' i) = b_blockno (bc_buf s i)" "b_lock (bc_buf s' i) = b_lock (bc_buf s i)"
    "b_refcnt (bc_buf s' i) = b_refcnt (bc_buf s i)" "b_data (bc_buf s' i) = b_data (bc_buf s i)" if "i < NBUF" for i
    using assms(3) [OF that] by (simp_all add: core_eq_iff)
  have "holds_block s' d bno i \<longleftrightarrow> holds_block s d bno i" for bno i using e by (auto simp: holds_block_def)
  then show ?thesis using bio_okD [OF assms(1)] assms(2,4) e by (intro bio_okI) simp_all
qed

lemma bring_set_buf:
  "\<exists>xs. bring s xs \<Longrightarrow> b_next (f (bc_buf s b)) = b_next (bc_buf s b) \<Longrightarrow> b_prev (f (bc_buf s b)) = b_prev (bc_buf s b) \<Longrightarrow>
   \<exists>xs. bring (set_buf s b f) xs"
  by (elim exE, rule exI, erule bring_same_links) auto

lemma bio_ok_fetched:
  assumes ok: "bio_ok c d s U" and b: "bread_picks s d bno b" "b \<notin> U" and r: "b_refcnt (bc_buf s b) \<noteq> - 1"
  shows "bio_ok c d (set_buf s b (\<lambda>_. fetched c d bno s b)) (insert b U)" (is "bio_ok c d ?s ?U")
proof (rule bio_okI)
  note D = bio_okD [OF ok]
  have bb: "b < NBUF" using b by (auto simp: bread_picks_def holds_block_def)
  show "\<exists>xs. bring ?s xs" by (rule bring_set_buf [OF D(1)]) (simp_all add: fetched_def)
  show "insert b U \<subseteq> {..<NBUF}" using D(2) bb by simp
  show "b_lock (bc_buf ?s i) = (if i \<in> ?U then owned_by c else initsleeplock)" if "i < NBUF" for i
    using D(3) [OF that] by (simp add: fetched_def)
  show "b_dev (bc_buf ?s i) = d \<or> \<not> b_valid (bc_buf ?s i)" if "i < NBUF" for i using D(4) [OF that] by (simp add: fetched_def)
  have h: "holds_block ?s d k i \<longleftrightarrow> (if i = b then k = bno else holds_block s d k i)" for k i
    using bb by (auto simp: holds_block_def fetched_def)
  have o: "\<not> holds_block s d bno i" if "i \<noteq> b" for i
    using b(1) D(5) [of bno i b] that unfolding bread_picks_def by blast
  show "i = j" if "holds_block ?s d k i" "holds_block ?s d k j" for i j k
    using that o D(5) [of k i j] unfolding h by (cases "i = b"; cases "j = b") auto
  have "b_refcnt (bc_buf s b) + 1 \<noteq> 0" using r by (metis add.inverse_unique add.commute)
  then show "b_data (bc_buf ?s i) = bc_disk ?s (b_blockno (bc_buf ?s i))"
    if "i < NBUF" "b_valid (bc_buf ?s i)" "b_refcnt (bc_buf ?s i) = 0" for i
    using D(6) [OF that(1)] that by (cases "i = b") (simp_all add: fetched_def)
qed

lemma bio_ok_data:
  assumes ok: "bio_ok c d s U" and b: "b_refcnt (bc_buf s b) \<noteq> 0"
  shows "bio_ok c d (set_buf s b (\<lambda>x. x\<lparr>b_data := v\<rparr>)) U" (is "bio_ok c d ?s U")
proof (rule bio_okI)
  note D = bio_okD [OF ok]
  show "\<exists>xs. bring ?s xs" by (rule bring_set_buf [OF D(1)]) simp_all
  have h: "holds_block ?s = holds_block s" by (auto simp: holds_block_def fun_eq_iff)
  show "i = j" if "holds_block ?s d k i" "holds_block ?s d k j" for i j k using D(5) that unfolding h by blast
  show "b_data (bc_buf ?s i) = bc_disk ?s (b_blockno (bc_buf ?s i))"
    if "i < NBUF" "b_valid (bc_buf ?s i)" "b_refcnt (bc_buf ?s i) = 0" for i
    using D(6) [OF that(1)] that b by (cases "i = b") simp_all
qed (use bio_okD [OF ok] in auto)

lemma bio_ok_refcnt:
  assumes ok: "bio_ok c d s U"
    and b: "r = 0 \<Longrightarrow> b_data (bc_buf s b) = bc_disk s (b_blockno (bc_buf s b))"
  shows "bio_ok c d (set_buf s b (\<lambda>x. x\<lparr>b_refcnt := r\<rparr>)) U" (is "bio_ok c d ?s U")
proof (rule bio_okI)
  note D = bio_okD [OF ok]
  show "\<exists>xs. bring ?s xs" by (rule bring_set_buf [OF D(1)]) simp_all
  have h: "holds_block ?s = holds_block s" by (auto simp: holds_block_def fun_eq_iff)
  show "i = j" if "holds_block ?s d k i" "holds_block ?s d k j" for i j k using D(5) that unfolding h by blast
  show "b_data (bc_buf ?s i) = bc_disk ?s (b_blockno (bc_buf ?s i))"
    if "i < NBUF" "b_valid (bc_buf ?s i)" "b_refcnt (bc_buf ?s i) = 0" for i
    using D(6) [OF that(1)] that b by (cases "i = b") simp_all
qed (use bio_okD [OF ok] in auto)

lemma bio_ok_unlock:
  assumes ok: "bio_ok c d s U" and b: "b < NBUF"
  shows "bio_ok c d (set_buf s b (\<lambda>x. x\<lparr>b_lock := initsleeplock\<rparr>)) (U - {b})" (is "bio_ok c d ?s ?U")
proof (rule bio_okI)
  note D = bio_okD [OF ok]
  show "\<exists>xs. bring ?s xs" by (rule bring_set_buf [OF D(1)]) simp_all
  have h: "holds_block ?s = holds_block s" by (auto simp: holds_block_def fun_eq_iff)
  show "i = j" if "holds_block ?s d k i" "holds_block ?s d k j" for i j k using D(5) that unfolding h by blast
  show "b_data (bc_buf ?s i) = bc_disk ?s (b_blockno (bc_buf ?s i))"
    if "i < NBUF" "b_valid (bc_buf ?s i)" "b_refcnt (bc_buf ?s i) = 0" for i
    using D(6) [OF that(1)] that by (cases "i = b") simp_all
qed (use bio_okD [OF ok] b in \<open>auto\<close>)

text \<open>A caller that can hold sleep locks: a process, or the boot code on CPU 0.\<close>

definition good_caller :: "caller \<Rightarrow> bool" where
  "good_caller c \<longleftrightarrow> (fst c \<noteq> None \<or> snd c = 0) \<and> fst c \<noteq> Some (- 1)"

lemma holdingsleep_owned: "good_caller c \<Longrightarrow> holdingsleep (fst c) (snd c) (owned_by c) = Ret True"
  by (auto simp: good_caller_def holdingsleep_def owned_by_def split: option.splits)

lemma bwrite_held:
  assumes "bio_ok c d s U" "good_caller c" "b \<in> U"
  shows "bwrite c s b = Ret (disk_rw s b True)"
  using bio_okD(2) [OF assms(1)] bio_okD(3) [OF assms(1), of b] assms(2,3) by (auto simp: bwrite_def holdingsleep_owned)

lemma disk_rw_write [simp]:
  "bc_buf (disk_rw s b True) = bc_buf s" "bc_disk (disk_rw s b True) = (bc_disk s)(b_blockno (bc_buf s b) := b_data (bc_buf s b))"
  "bc_writes (disk_rw s b True) = bc_writes s @ [(b_blockno (bc_buf s b), b_data (bc_buf s b))]"
  by (simp_all add: disk_rw_def Let_def)

lemma bio_ok_bwrite:
  assumes ok: "bio_ok c d s U" and b: "b < NBUF" "b_dev (bc_buf s b) = d"
  shows "bio_ok c d (disk_rw s b True) U" (is "bio_ok c d ?s U")
proof (rule bio_okI)
  note D = bio_okD [OF ok]
  have h: "holds_block ?s = holds_block s" by (simp add: holds_block_def fun_eq_iff)
  show "i = j" if "holds_block ?s d k i" "holds_block ?s d k j" for i j k using D(5) that unfolding h by blast
  show "\<exists>xs. bring ?s xs" using D(1) by (simp add: bring_def)
  show "b_data (bc_buf ?s i) = bc_disk ?s (b_blockno (bc_buf ?s i))"
    if i: "i < NBUF" "b_valid (bc_buf ?s i)" "b_refcnt (bc_buf ?s i) = 0" for i
  proof (cases "b_blockno (bc_buf s i) = b_blockno (bc_buf s b)")
    case True
    then have "holds_block s d (b_blockno (bc_buf s b)) i" "holds_block s d (b_blockno (bc_buf s b)) b"
      using D(4) [of i] i b by (auto simp: holds_block_def)
    then have "i = b" by (rule D(5))
    then show ?thesis by simp
  qed (use D(6) i in auto)
qed (use bio_okD [OF ok] in auto)

lemma bring_link_front:
  assumes "ring (bnext s) (bprev s) NBUF xs" "b \<notin> set xs" "b \<noteq> NBUF"
  shows "ring (bnext (link_front s b)) (bprev (link_front s b)) NBUF (b # xs)"
proof -
  have "bnext (link_front s b) = (bnext s)(b := bnext s NBUF, NBUF := b)" "bprev (link_front s b) = (bprev s)(b := NBUF, bnext s NBUF := b)"
    using assms(3) by (auto simp: link_front_def Let_def fun_eq_iff)
  then show ?thesis using ring_insert [OF assms(1,3,2)] by simp
qed

lemma bring_unlink:
  assumes "ring (bnext s) (bprev s) NBUF (xs @ b # ys)"
  shows "ring (bnext (unlink_buf s b)) (bprev (unlink_buf s b)) NBUF (xs @ ys)"
proof -
  have "b_next (bc_buf s b) \<noteq> b" "b_prev (bc_buf s b) \<noteq> b" using ring_neighbours [OF assms, of b] by auto
  then have "bnext (unlink_buf s b) = (bnext s)(bprev s b := bnext s b)" "bprev (unlink_buf s b) = (bprev s)(bnext s b := bprev s b)"
    by (auto simp: unlink_buf_def Let_def fun_eq_iff)
  then show ?thesis using ring_remove [OF assms] by simp
qed

lemma core_relink:
  "core (bc_buf (link_front s b) i) = core (bc_buf s i)" "core (bc_buf (unlink_buf s b) i) = core (bc_buf s i)"
  "bc_disk (link_front s b) = bc_disk s" "bc_disk (unlink_buf s b) = bc_disk s"
  "bc_writes (link_front s b) = bc_writes s" "bc_writes (unlink_buf s b) = bc_writes s"
  by (simp_all add: link_front_def unlink_buf_def Let_def core_def)

lemma bring_move_front:
  assumes "bring s xs" "b < NBUF"
  shows "\<exists>ys. bring (link_front (unlink_buf s b) b) ys"
proof -
  have "b \<in> set xs" using assms by (simp add: bring_def)
  then obtain us vs where xs: "xs = us @ b # vs" by (meson split_list)
  have r: "ring (bnext s) (bprev s) NBUF (us @ b # vs)" and st: "set (us @ b # vs) = {..<NBUF}"
    using assms(1) by (simp_all add: bring_def xs)
  have "b \<notin> set (us @ vs)" using r by (auto simp: ring_def)
  then have "ring (bnext (link_front (unlink_buf s b) b)) (bprev (link_front (unlink_buf s b) b)) NBUF (b # us @ vs)"
    using assms(2) by (intro bring_link_front bring_unlink r) simp_all
  then show ?thesis using st unfolding bring_def by (intro exI [of _ "b # us @ vs"]) auto
qed

lemma brelse_held:
  assumes ok: "bio_ok c d s U" and g: "good_caller c" and b: "b \<in> U"
    and clean: "b_refcnt (bc_buf s b) = 1 \<Longrightarrow> b_data (bc_buf s b) = bc_disk s (b_blockno (bc_buf s b))"
  shows "\<exists>s'. brelse c s b = Ret s' \<and> bio_ok c d s' (U - {b}) \<and> bc_disk s' = bc_disk s \<and> bc_writes s' = bc_writes s \<and>
     (\<forall>i. i \<noteq> b \<longrightarrow> core (bc_buf s' i) = core (bc_buf s i)) \<and>
     core (bc_buf s' b) = core ((bc_buf s b)\<lparr>b_lock := initsleeplock, b_refcnt := b_refcnt (bc_buf s b) - 1\<rparr>)"
proof -
  have bb: "b < NBUF" and lk: "b_lock (bc_buf s b) = owned_by c" using bio_okD(2) [OF ok] bio_okD(3) [OF ok, of b] b by auto
  let ?s1 = "set_buf s b (\<lambda>x. x\<lparr>b_lock := initsleeplock\<rparr>)"
  let ?s2 = "set_buf ?s1 b (\<lambda>x. x\<lparr>b_refcnt := b_refcnt (bc_buf s b) - 1\<rparr>)"
  have ok2: "bio_ok c d ?s2 (U - {b})"
    by (rule bio_ok_refcnt [OF bio_ok_unlock [OF ok bb]]) (use clean in simp)
  have rel: "releasesleep (owned_by c) = initsleeplock" by (simp add: releasesleep_def owned_by_def initsleeplock_def)
  have s2: "set_buf (set_buf s b (\<lambda>x. x\<lparr>b_lock := releasesleep (b_lock x)\<rparr>)) b (\<lambda>x. x\<lparr>b_refcnt := b_refcnt x - 1\<rparr>) = ?s2"
    using lk by (simp add: set_buf_def rel)
  show ?thesis
  proof (cases "b_refcnt (bc_buf ?s2 b) = 0")
    case True
    have ok3: "bio_ok c d (link_front (unlink_buf ?s2 b) b) (U - {b})"
      using bring_move_front [OF _ bb] bio_okD(1) [OF ok2] by (intro bio_ok_cong [OF ok2]) (auto simp: core_relink)
    have "brelse c s b = Ret (link_front (unlink_buf ?s2 b) b)"
      unfolding brelse_def lk holdingsleep_owned [OF g] Let_def s2 using True by simp
    then show ?thesis using ok3 by (simp add: core_relink)
  next
    case False
    have "brelse c s b = Ret ?s2" unfolding brelse_def lk holdingsleep_owned [OF g] Let_def s2 using False by simp
    then show ?thesis using ok2 by simp
  qed
qed

subsection \<open>Sequences of calls\<close>

text \<open>
  \<open>same_refs s t\<close>: every buffer has as many references as before, and the referenced ones have kept their contents.
\<close>

definition same_refs :: "bcache \<Rightarrow> bcache \<Rightarrow> bool" where
  "same_refs s t \<longleftrightarrow> (\<forall>i<NBUF. b_refcnt (bc_buf t i) = b_refcnt (bc_buf s i) \<and>
     (b_refcnt (bc_buf s i) \<noteq> 0 \<longrightarrow> core (bc_buf t i) = core (bc_buf s i)))"

lemma same_refsI:
  assumes "\<And>i. i \<notin> B \<Longrightarrow> core (bc_buf t i) = core (bc_buf s i)"
    "\<And>i. i \<in> B \<Longrightarrow> b_refcnt (bc_buf t i) = b_refcnt (bc_buf s i) \<and> (b_refcnt (bc_buf s i) \<noteq> 0 \<longrightarrow> core (bc_buf t i) = core (bc_buf s i))"
  shows "same_refs s t"
  unfolding same_refs_def
proof (intro allI impI)
  fix i
  show "b_refcnt (bc_buf t i) = b_refcnt (bc_buf s i) \<and> (b_refcnt (bc_buf s i) \<noteq> 0 \<longrightarrow> core (bc_buf t i) = core (bc_buf s i))"
    using assms(1) [of i] assms(2) [of i] by (cases "i \<in> B") (simp_all add: core_eq_iff)
qed

definition unpinned :: "bcache \<Rightarrow> u32 \<Rightarrow> u32 \<Rightarrow> bool" where
  "unpinned s d bno \<longleftrightarrow> (\<forall>i. holds_block s d bno i \<longrightarrow> b_refcnt (bc_buf s i) = 0)"

definition unused :: "bcache \<Rightarrow> nat set" where
  "unused s = {i. i < NBUF \<and> b_refcnt (bc_buf s i) = 0}"

lemma bread_unpinned:
  assumes ok: "bio_ok c d s U" and u: "\<forall>i\<in>U. b_refcnt (bc_buf s i) \<noteq> 0" and un: "unpinned s d bno" and fr: "unused s \<noteq> {}"
  shows "\<exists>b. bread c s d bno = Ret (b, set_buf s b (\<lambda>_. fetched c d bno s b)) \<and> b \<notin> U \<and> b \<in> unused s \<and>
     bio_ok c d (set_buf s b (\<lambda>_. fetched c d bno s b)) (insert b U) \<and> b_data (fetched c d bno s b) = bc_disk s bno"
proof -
  obtain b where b: "bread_picks s d bno b" "b \<notin> U" "bread c s d bno = Ret (b, set_buf s b (\<lambda>_. fetched c d bno s b))"
    using bread_returns [OF ok u, of bno] un u fr by (auto simp: unpinned_def unused_def)
  have z: "b_refcnt (bc_buf s b) = 0" "b < NBUF" using b(1) un by (auto simp: bread_picks_def unpinned_def holds_block_def)
  have "bio_ok c d (set_buf s b (\<lambda>_. fetched c d bno s b)) (insert b U)" using z by (intro bio_ok_fetched [OF ok b(1,2)]) simp
  moreover have "b_data (fetched c d bno s b) = bc_disk s bno"
    using bio_okD(6) [OF ok z(2) _ z(1)] by (auto simp: fetched_def holds_block_def)
  ultimately show ?thesis using b z by (auto simp: unused_def)
qed

text \<open>Reading an unpinned block and releasing it, and updating one on disk.\<close>

lemma read_block:
  assumes ok: "bio_ok c d s {}" and g: "good_caller c" and un: "unpinned s d bno" and fr: "unused s \<noteq> {}"
  shows "\<exists>b s1 s2. bread c s d bno = Ret (b, s1) \<and> b_data (bc_buf s1 b) = bc_disk s bno \<and>
     brelse c s1 b = Ret s2 \<and> bio_ok c d s2 {} \<and> bc_disk s2 = bc_disk s \<and> bc_writes s2 = bc_writes s \<and> same_refs s s2"
proof -
  obtain b where b: "bread c s d bno = Ret (b, set_buf s b (\<lambda>_. fetched c d bno s b))" "b \<in> unused s"
    and ok1: "bio_ok c d (set_buf s b (\<lambda>_. fetched c d bno s b)) {b}" and dt: "b_data (fetched c d bno s b) = bc_disk s bno"
    using bread_unpinned [OF ok _ un fr] by auto
  let ?s1 = "set_buf s b (\<lambda>_. fetched c d bno s b)"
  have r: "b_refcnt (fetched c d bno s b) = 1" "b_blockno (fetched c d bno s b) = bno" using b(2) by (simp_all add: fetched_def unused_def)
  obtain s2 where s2: "brelse c ?s1 b = Ret s2" "bio_ok c d s2 ({b} - {b})" "bc_disk s2 = bc_disk ?s1" "bc_writes s2 = bc_writes ?s1"
    "\<forall>i. i \<noteq> b \<longrightarrow> core (bc_buf s2 i) = core (bc_buf ?s1 i)"
    "core (bc_buf s2 b) = core ((bc_buf ?s1 b)\<lparr>b_lock := initsleeplock, b_refcnt := b_refcnt (bc_buf ?s1 b) - 1\<rparr>)"
    using brelse_held [OF ok1 g] dt r by auto
  have "b_refcnt (bc_buf s2 b) = 0" using s2(6) r by (simp add: core_eq_iff)
  then have "same_refs s s2" using s2(5) b(2) by (intro same_refsI [of "{b}"]) (simp_all add: unused_def)
  then show ?thesis using b(1) s2(1-4) dt by simp
qed

lemma update_block:
  assumes ok: "bio_ok c d s {}" and g: "good_caller c" and un: "unpinned s d bno" and fr: "unused s \<noteq> {}"
  shows "\<exists>b s1. bread c s d bno = Ret (b, s1) \<and> b_data (bc_buf s1 b) = bc_disk s bno \<and>
     (\<forall>v. \<exists>s2 s3. bwrite c (set_buf s1 b (\<lambda>x. x\<lparr>b_data := v\<rparr>)) b = Ret s2 \<and> brelse c s2 b = Ret s3 \<and> bio_ok c d s3 {} \<and>
       bc_disk s3 = (bc_disk s)(bno := v) \<and> bc_writes s3 = bc_writes s @ [(bno, v)] \<and> same_refs s s3)"
proof -
  obtain b where b: "bread c s d bno = Ret (b, set_buf s b (\<lambda>_. fetched c d bno s b))" "b \<in> unused s"
    and ok1: "bio_ok c d (set_buf s b (\<lambda>_. fetched c d bno s b)) {b}" and dt: "b_data (fetched c d bno s b) = bc_disk s bno"
    using bread_unpinned [OF ok _ un fr] by auto
  let ?s1 = "set_buf s b (\<lambda>_. fetched c d bno s b)"
  have r: "b_refcnt (fetched c d bno s b) = 1" "b_blockno (fetched c d bno s b) = bno" "b_dev (fetched c d bno s b) = d"
    and bb: "b < NBUF" using b(2) by (simp_all add: fetched_def unused_def)
  have "\<exists>s2 s3. bwrite c (set_buf ?s1 b (\<lambda>x. x\<lparr>b_data := v\<rparr>)) b = Ret s2 \<and> brelse c s2 b = Ret s3 \<and> bio_ok c d s3 {} \<and>
       bc_disk s3 = (bc_disk s)(bno := v) \<and> bc_writes s3 = bc_writes s @ [(bno, v)] \<and> same_refs s s3" for v
  proof -
    let ?s2 = "set_buf ?s1 b (\<lambda>x. x\<lparr>b_data := v\<rparr>)"
    let ?s3 = "disk_rw ?s2 b True"
    have ok2: "bio_ok c d ?s2 {b}" by (rule bio_ok_data [OF ok1]) (simp add: r)
    have ok3: "bio_ok c d ?s3 {b}" by (rule bio_ok_bwrite [OF ok2 bb]) (simp add: r)
    have w: "bwrite c ?s2 b = Ret ?s3" by (rule bwrite_held [OF ok2 g]) simp
    obtain s4 where s4: "brelse c ?s3 b = Ret s4" "bio_ok c d s4 ({b} - {b})" "bc_disk s4 = bc_disk ?s3" "bc_writes s4 = bc_writes ?s3"
      "\<forall>i. i \<noteq> b \<longrightarrow> core (bc_buf s4 i) = core (bc_buf ?s3 i)"
      "core (bc_buf s4 b) = core ((bc_buf ?s3 b)\<lparr>b_lock := initsleeplock, b_refcnt := b_refcnt (bc_buf ?s3 b) - 1\<rparr>)"
      using brelse_held [OF ok3 g] r by auto
    have "b_refcnt (bc_buf s4 b) = 0" using s4(6) r by (simp add: core_eq_iff)
    then have "same_refs s s4" using s4(5) b(2) by (intro same_refsI [of "{b}"]) (simp_all add: unused_def)
    moreover have "bc_disk s4 = (bc_disk s)(bno := v)" "bc_writes s4 = bc_writes s @ [(bno, v)]" using s4(3,4) r by simp_all
    ultimately show ?thesis using w s4(1,2) by simp
  qed
  then show ?thesis using b(1) dt by (intro exI [of _ b] exI [of _ ?s1]) simp
qed

text \<open>Reading two different blocks, the first of them unpinned.\<close>

lemma bread_pair:
  assumes ok: "bio_ok c d s {}" and ne: "lb \<noteq> hb" and un: "unpinned s d lb" and fr: "unused s \<noteq> {}"
    and room: "(\<exists>i. holds_block s d hb i \<and> b_refcnt (bc_buf s i) \<noteq> 0) \<or> (\<exists>i\<in>unused s. \<exists>j\<in>unused s. i \<noteq> j)"
    and top: "\<And>i. holds_block s d hb i \<Longrightarrow> b_refcnt (bc_buf s i) \<noteq> - 1"
  shows "\<exists>b1 b2 s1 s2. bread c s d lb = Ret (b1, s1) \<and> bread c s1 d hb = Ret (b2, s2) \<and>
     bio_ok c d s2 {b1, b2} \<and> bc_disk s2 = bc_disk s \<and> bc_writes s2 = bc_writes s \<and>
     b1 \<noteq> b2 \<and> b1 \<in> unused s \<and> (b2 \<in> unused s \<or> holds_block s d hb b2) \<and> b2 < NBUF \<and>
     bc_buf s2 b1 = fetched c d lb s b1 \<and> b_data (bc_buf s2 b1) = bc_disk s lb \<and>
     bc_buf s2 b2 = fetched c d hb s1 b2 \<and> b_refcnt (bc_buf s2 b2) = b_refcnt (bc_buf s b2) + 1 \<and>
     (\<forall>j. holds_block s d hb j \<longrightarrow> b_refcnt (bc_buf s j) \<noteq> 0 \<longrightarrow> j = b2 \<and>
        (b_valid (bc_buf s b2) \<longrightarrow> b_data (bc_buf s2 b2) = b_data (bc_buf s b2))) \<and>
     (\<forall>i. i \<notin> {b1, b2} \<longrightarrow> bc_buf s2 i = bc_buf s i)"
proof -
  obtain b1 where b1: "bread c s d lb = Ret (b1, set_buf s b1 (\<lambda>_. fetched c d lb s b1))" "b1 \<in> unused s"
    and ok1: "bio_ok c d (set_buf s b1 (\<lambda>_. fetched c d lb s b1)) {b1}" and dt: "b_data (fetched c d lb s b1) = bc_disk s lb"
    using bread_unpinned [OF ok _ un fr] by auto
  let ?s1 = "set_buf s b1 (\<lambda>_. fetched c d lb s b1)"
  have r1: "b_refcnt (bc_buf ?s1 b1) = 1" using b1(2) by (simp add: fetched_def unused_def)
  have h1: "holds_block ?s1 d hb i \<longleftrightarrow> i \<noteq> b1 \<and> holds_block s d hb i" for i
    using ne by (auto simp: holds_block_def fetched_def)
  have "\<exists>b2. bread_picks ?s1 d hb b2 \<and> b2 \<notin> {b1} \<and> bread c ?s1 d hb = Ret (b2, set_buf ?s1 b2 (\<lambda>_. fetched c d hb ?s1 b2))"
  proof (rule bread_returns [OF ok1])
    show "\<forall>i\<in>{b1}. b_refcnt (bc_buf ?s1 i) \<noteq> 0" using r1 by simp
    show "\<And>i. holds_block ?s1 d hb i \<Longrightarrow> i \<notin> {b1}" by (simp add: h1)
    show "(\<exists>i. holds_block ?s1 d hb i) \<or> (\<exists>i<NBUF. b_refcnt (bc_buf ?s1 i) = 0)"
      using room
    proof (elim disjE)
      assume "\<exists>i. holds_block s d hb i \<and> b_refcnt (bc_buf s i) \<noteq> 0"
      then show ?thesis using b1(2) unfolding h1 by (auto simp: unused_def)
    next
      assume "\<exists>i\<in>unused s. \<exists>j\<in>unused s. i \<noteq> j"
      then obtain i where "i \<in> unused s" "i \<noteq> b1" by blast
      then show ?thesis by (auto simp: unused_def)
    qed
  qed
  then obtain b2 where b2: "bread_picks ?s1 d hb b2" "b2 \<noteq> b1" "bread c ?s1 d hb = Ret (b2, set_buf ?s1 b2 (\<lambda>_. fetched c d hb ?s1 b2))"
    by auto
  let ?s2 = "set_buf ?s1 b2 (\<lambda>_. fetched c d hb ?s1 b2)"
  have picks: "b2 \<in> unused s \<or> holds_block s d hb b2" "b2 < NBUF"
    using b2(1,2) unfolding bread_picks_def h1 by (auto simp: unused_def holds_block_def)
  have "b_refcnt (bc_buf s b2) \<noteq> - 1" using picks(1) top [of b2] by (auto simp: unused_def)
  then have ok2: "bio_ok c d ?s2 {b1, b2}" using bio_ok_fetched [OF ok1 b2(1)] b2(2) by (simp add: insert_commute)
  have pin: "j = b2 \<and> (b_valid (bc_buf s b2) \<longrightarrow> b_data (bc_buf ?s2 b2) = b_data (bc_buf s b2))"
    if "holds_block s d hb j" "b_refcnt (bc_buf s j) \<noteq> 0" for j
  proof -
    have "j \<noteq> b1" using that b1(2) by (auto simp: unused_def)
    then have j: "holds_block ?s1 d hb j" using that h1 by simp
    then have "holds_block ?s1 d hb b2" using b2(1) unfolding bread_picks_def by blast
    then have "j = b2" using bio_okD(5) [OF ok1] j by blast
    then show ?thesis using j b2(2) by (simp add: fetched_def)
  qed
  have "b_refcnt (bc_buf ?s2 b2) = b_refcnt (bc_buf s b2) + 1" using b2(2) by (simp add: fetched_def)
  moreover have "bc_buf ?s2 i = bc_buf s i" if "i \<notin> {b1, b2}" for i using that by simp
  moreover have "bc_buf ?s2 b1 = fetched c d lb s b1" "b_data (bc_buf ?s2 b1) = bc_disk s lb" using b2(2) dt by simp_all
  moreover have "bc_buf ?s2 b2 = fetched c d hb ?s1 b2" "bc_disk ?s2 = bc_disk s" "bc_writes ?s2 = bc_writes s" by simp_all
  ultimately show ?thesis using b1 b2(2,3) picks ok2 pin by metis
qed

end
