(* ===== verification/Log.thy ===== *)
theory Log
  imports Bio
begin

text \<open>
  The write-ahead log (kernel/fs/log.c): system calls collect the blocks they change in the in-memory header, and the
  end of the last one commits them: the blocks go to the log, the header is written (the commit point), the blocks go
  home, and the header is cleared. \<open>initlog\<close> recovers after a crash. A crash can happen between any two block writes.
\<close>

definition MAXOPBLOCKS :: nat where "MAXOPBLOCKS = 10"
definition LOGSIZE :: nat where "LOGSIZE = MAXOPBLOCKS * 3"

text \<open>The in-memory header: \<^verbatim>\<open>block\<close> has \<open>LOGSIZE\<close> elements, and an access past them is a fault.\<close>

record log =
  lg_start :: u32
  lg_size :: int
  lg_outstanding :: int
  lg_committing :: bool
  lg_dev :: u32
  lg_n :: int
  lg_block :: "nat \<Rightarrow> u32"

record fsys =
  fs_log :: log
  fs_bc :: bcache

definition header_block :: "log \<Rightarrow> nat \<Rightarrow> u32 kres" where
  "header_block lg i = (if i < LOGSIZE then Ret (lg_block lg i) else Fault)"

subsection \<open>Reading and writing the header\<close>

text \<open>A block seen as a \<^verbatim>\<open>struct logheader\<close>.\<close>

definition hb_n :: "bytes \<Rightarrow> int" where
  "hb_n h = sint (load32 h 0)"

definition hb_block :: "bytes \<Rightarrow> nat \<Rightarrow> u32" where
  "hb_block h i = load32 h (4 + 4 * i)"

fun read_head_loop :: "nat \<Rightarrow> bytes \<Rightarrow> log \<Rightarrow> nat \<Rightarrow> log kres" where
  "read_head_loop 0 h lg i = Ret lg"
| "read_head_loop (Suc k) h lg i =
     (if i < LOGSIZE then read_head_loop k h (lg\<lparr>lg_block := (lg_block lg)(i := hb_block h i)\<rparr>) (Suc i) else Fault)"

definition read_head :: "caller \<Rightarrow> fsys \<Rightarrow> fsys kres" where
  "read_head c f =
     kbind (bread c (fs_bc f) (lg_dev (fs_log f)) (lg_start (fs_log f))) (\<lambda>(b, s1).
     let h = b_data (bc_buf s1 b); lg = (fs_log f)\<lparr>lg_n := hb_n h\<rparr> in
     kbind (read_head_loop (nat (lg_n lg)) h lg 0) (\<lambda>lg1.
     kbind (brelse c s1 b) (\<lambda>s2. Ret \<lparr>fs_log = lg1, fs_bc = s2\<rparr>)))"

fun write_head_loop :: "nat \<Rightarrow> bytes \<Rightarrow> log \<Rightarrow> nat \<Rightarrow> bytes kres" where
  "write_head_loop 0 h lg i = Ret h"
| "write_head_loop (Suc k) h lg i =
     kbind (header_block lg i) (\<lambda>b. write_head_loop k (store32 h (4 + 4 * i) b) lg (Suc i))"

definition write_head :: "caller \<Rightarrow> fsys \<Rightarrow> fsys kres" where
  "write_head c f =
     kbind (bread c (fs_bc f) (lg_dev (fs_log f)) (lg_start (fs_log f))) (\<lambda>(b, s1).
     let h = store32 (b_data (bc_buf s1 b)) 0 (word_of_int (lg_n (fs_log f))) in
     kbind (write_head_loop (nat (lg_n (fs_log f))) h (fs_log f) 0) (\<lambda>h1.
     kbind (bwrite c (set_buf s1 b (\<lambda>x. x\<lparr>b_data := h1\<rparr>)) b) (\<lambda>s2.
     kbind (brelse c s2 b) (\<lambda>s3. Ret (f\<lparr>fs_bc := s3\<rparr>)))))"

subsection \<open>Installing and committing\<close>

text \<open>The loops with \<open>k = n - tail\<close> turns left.\<close>

fun install_trans_loop :: "nat \<Rightarrow> caller \<Rightarrow> fsys \<Rightarrow> nat \<Rightarrow> fsys kres" where
  "install_trans_loop 0 c f tail = Ret f"
| "install_trans_loop (Suc k) c f tail =
     (let lg = fs_log f in
      kbind (bread c (fs_bc f) (lg_dev lg) (lg_start lg + of_nat tail + 1)) (\<lambda>(lbuf, s1).
      kbind (header_block lg tail) (\<lambda>bno.
      kbind (bread c s1 (lg_dev lg) bno) (\<lambda>(dbuf, s2).
      let s3 = set_buf s2 dbuf (\<lambda>x. x\<lparr>b_data := b_data (bc_buf s2 lbuf)\<rparr>) in
      kbind (bwrite c s3 dbuf) (\<lambda>s4.
      let s5 = bunpin s4 dbuf in
      kbind (brelse c s5 lbuf) (\<lambda>s6.
      kbind (brelse c s6 dbuf) (\<lambda>s7.
      install_trans_loop k c (f\<lparr>fs_bc := s7\<rparr>) (Suc tail))))))))"

definition install_trans :: "caller \<Rightarrow> fsys \<Rightarrow> fsys kres" where
  "install_trans c f = install_trans_loop (nat (lg_n (fs_log f))) c f 0"

definition recover_from_log :: "caller \<Rightarrow> fsys \<Rightarrow> fsys kres" where
  "recover_from_log c f =
     kbind (read_head c f) (\<lambda>f1.
     kbind (install_trans c f1) (\<lambda>f2.
     write_head c (f2\<lparr>fs_log := (fs_log f2)\<lparr>lg_n := 0\<rparr>\<rparr>)))"

text \<open>\<open>sizeof(struct logheader)\<close> is 124; the constant comparison with \<open>BSIZE\<close> is kept as it stands.\<close>

definition BSIZE :: nat where "BSIZE = 1024"

definition initlog :: "caller \<Rightarrow> fsys \<Rightarrow> u32 \<Rightarrow> u32 \<Rightarrow> u32 \<Rightarrow> fsys kres" where
  "initlog c f dev logstart nlog =
     (if 4 + 4 * LOGSIZE \<ge> BSIZE then Panic ''initlog: too big logheader''
      else recover_from_log c
        (f\<lparr>fs_log := (fs_log f)\<lparr>lg_start := logstart, lg_size := sint nlog, lg_dev := dev\<rparr>\<rparr>))"

fun write_log_loop :: "nat \<Rightarrow> caller \<Rightarrow> fsys \<Rightarrow> nat \<Rightarrow> fsys kres" where
  "write_log_loop 0 c f tail = Ret f"
| "write_log_loop (Suc k) c f tail =
     (let lg = fs_log f in
      kbind (bread c (fs_bc f) (lg_dev lg) (lg_start lg + of_nat tail + 1)) (\<lambda>(to, s1).
      kbind (header_block lg tail) (\<lambda>bno.
      kbind (bread c s1 (lg_dev lg) bno) (\<lambda>(from, s2).
      let s3 = set_buf s2 to (\<lambda>x. x\<lparr>b_data := b_data (bc_buf s2 from)\<rparr>) in
      kbind (bwrite c s3 to) (\<lambda>s4.
      kbind (brelse c s4 from) (\<lambda>s5.
      kbind (brelse c s5 to) (\<lambda>s6.
      write_log_loop k c (f\<lparr>fs_bc := s6\<rparr>) (Suc tail))))))))"

definition write_log :: "caller \<Rightarrow> fsys \<Rightarrow> fsys kres" where
  "write_log c f = write_log_loop (nat (lg_n (fs_log f))) c f 0"

definition commit :: "caller \<Rightarrow> fsys \<Rightarrow> fsys kres" where
  "commit c f =
     (if 0 < lg_n (fs_log f) then
        kbind (write_log c f) (\<lambda>f1.
        kbind (write_head c f1) (\<lambda>f2.
        kbind (install_trans c f2) (\<lambda>f3.
        write_head c (f3\<lparr>fs_log := (fs_log f3)\<lparr>lg_n := 0\<rparr>\<rparr>))))
      else Ret f)"

subsection \<open>Operations of system calls\<close>

text \<open>
  \<^verbatim>\<open>begin_op\<close> sleeps (\<open>None\<close>) while a commit runs or the log may run out, and looks again when it is woken.
  \<^verbatim>\<open>end_op\<close> gives the log after its first critical section, whether to commit, and whether it wakes the sleepers.
\<close>

definition begin_op :: "log \<Rightarrow> log option" where
  "begin_op lg =
     (if lg_committing lg then None
      else if lg_n lg + (lg_outstanding lg + 1) * int MAXOPBLOCKS > int LOGSIZE then None
      else Some (lg\<lparr>lg_outstanding := lg_outstanding lg + 1\<rparr>))"

definition end_op_start :: "log \<Rightarrow> (log \<times> bool) kres" where
  "end_op_start lg =
     (let lg1 = lg\<lparr>lg_outstanding := lg_outstanding lg - 1\<rparr> in
      if lg_committing lg1 then Panic ''log.committing''
      else if lg_outstanding lg1 = 0 then Ret (lg1\<lparr>lg_committing := True\<rparr>, True)
      else Ret (lg1, False))"

definition end_op :: "caller \<Rightarrow> fsys \<Rightarrow> fsys kres" where
  "end_op c f =
     kbind (end_op_start (fs_log f)) (\<lambda>(lg1, do_commit).
     let f1 = f\<lparr>fs_log := lg1\<rparr> in
     if do_commit then
       kbind (commit c f1) (\<lambda>f2. Ret (f2\<lparr>fs_log := (fs_log f2)\<lparr>lg_committing := False\<rparr>\<rparr>))
     else Ret f1)"

text \<open>The search loop of \<^verbatim>\<open>log_write\<close>: the index of the block in the header, or \<open>n\<close>.\<close>

fun log_find :: "nat \<Rightarrow> log \<Rightarrow> u32 \<Rightarrow> nat \<Rightarrow> nat" where
  "log_find 0 lg bno i = i"
| "log_find (Suc k) lg bno i = (if lg_block lg i = bno then i else log_find k lg bno (Suc i))"

definition log_write :: "fsys \<Rightarrow> nat \<Rightarrow> fsys kres" where
  "log_write f b =
     (let lg = fs_log f in
      if lg_n lg \<ge> int LOGSIZE \<or> lg_n lg \<ge> lg_size lg - 1 then Panic ''too big a transaction''
      else if lg_outstanding lg < 1 then Panic ''log_write outside of trans''
      else
        let bno = b_blockno (bc_buf (fs_bc f) b);
            i = log_find (nat (lg_n lg)) lg bno 0;
            lg1 = lg\<lparr>lg_block := (lg_block lg)(i := bno)\<rparr> in
        if int i = lg_n lg then Ret \<lparr>fs_log = lg1\<lparr>lg_n := lg_n lg1 + 1\<rparr>, fs_bc = bpin (fs_bc f) b\<rparr>
        else Ret (f\<lparr>fs_log := lg1\<rparr>))"

end
