(* ===== verification/Crash.thy ===== *)
theory Crash
  imports Log
begin

text \<open>
  Commit and recovery of the log (kernel/fs/log.c) at a crash: what the file system would find on the disk after
  recovery (\<open>recovered\<close>) changes at one of the block writes of a commit only, from all old to all new.
\<close>

subsection \<open>One turn of the two copy loops\<close>

lemma log_turn:
  assumes ok: "bio_ok c d s {}" and g: "good_caller c" and ne: "lb \<noteq> hb" and un: "unpinned s d lb" and fr: "unused s \<noteq> {}"
    and j: "holds_block s d hb j" "b_refcnt (bc_buf s j) \<noteq> 0" "b_refcnt (bc_buf s j) \<noteq> - 1" "b_valid (bc_buf s j)"
  shows "\<exists>b1 s1 b2 s2 s4 s5 s6. bread c s d lb = Ret (b1, s1) \<and> bread c s1 d hb = Ret (b2, s2) \<and>
     bwrite c (set_buf s2 b1 (\<lambda>x. x\<lparr>b_data := b_data (bc_buf s2 b2)\<rparr>)) b1 = Ret s4 \<and>
     brelse c s4 b2 = Ret s5 \<and> brelse c s5 b1 = Ret s6 \<and> bio_ok c d s6 {} \<and>
     bc_disk s6 = (bc_disk s)(lb := b_data (bc_buf s j)) \<and> bc_writes s6 = bc_writes s @ [(lb, b_data (bc_buf s j))] \<and> same_refs s s6"
proof -
  have top: "\<And>i. holds_block s d hb i \<Longrightarrow> b_refcnt (bc_buf s i) \<noteq> - 1" using bio_okD(5) [OF ok j(1)] j(3) by blast
  have room: "(\<exists>i. holds_block s d hb i \<and> b_refcnt (bc_buf s i) \<noteq> 0) \<or> (\<exists>i\<in>unused s. \<exists>j\<in>unused s. i \<noteq> j)" using j by blast
  obtain b1 b2 s1 s2 where rd: "bread c s d lb = Ret (b1, s1)" "bread c s1 d hb = Ret (b2, s2)" "bio_ok c d s2 {b1, b2}"
      "bc_disk s2 = bc_disk s" "bc_writes s2 = bc_writes s" "b1 \<noteq> b2" "b1 \<in> unused s" "b2 < NBUF"
      "bc_buf s2 b1 = fetched c d lb s b1" "b_refcnt (bc_buf s2 b2) = b_refcnt (bc_buf s b2) + 1" "bc_buf s2 b2 = fetched c d hb s1 b2"
    and pins: "\<forall>j. holds_block s d hb j \<longrightarrow> b_refcnt (bc_buf s j) \<noteq> 0 \<longrightarrow> j = b2 \<and>
        (b_valid (bc_buf s b2) \<longrightarrow> b_data (bc_buf s2 b2) = b_data (bc_buf s b2))"
    and rest: "\<forall>i. i \<notin> {b1, b2} \<longrightarrow> bc_buf s2 i = bc_buf s i"
    using bread_pair [OF ok ne un fr room top] by blast
  have pin: "j = b2" "b_data (bc_buf s2 b2) = b_data (bc_buf s j)" using pins j by blast+
  have r1: "b_refcnt (bc_buf s2 b1) = 1" "b_dev (bc_buf s2 b1) = d" "b_blockno (bc_buf s2 b1) = lb"
    using rd(7,9) by (simp_all add: fetched_def unused_def)
  have b1: "b1 < NBUF" using rd(7) by (simp add: unused_def)
  let ?v = "b_data (bc_buf s j)"
  let ?s3 = "set_buf s2 b1 (\<lambda>x. x\<lparr>b_data := b_data (bc_buf s2 b2)\<rparr>)"
  let ?s4 = "disk_rw ?s3 b1 True"
  have ok3: "bio_ok c d ?s3 {b1, b2}" by (rule bio_ok_data [OF rd(3)]) (simp add: r1)
  have ok4: "bio_ok c d ?s4 {b1, b2}" by (rule bio_ok_bwrite [OF ok3 b1]) (simp add: r1)
  have w: "bwrite c ?s3 b1 = Ret ?s4" by (rule bwrite_held [OF ok3 g]) simp
  have d4: "bc_disk ?s4 = (bc_disk s)(lb := ?v)" "bc_writes ?s4 = bc_writes s @ [(lb, ?v)]" using rd(4,5) r1(3) pin(2) by simp_all
  have "b_refcnt (bc_buf ?s4 b2) \<noteq> 1" using rd(6,10) j(2) pin(1) by simp
  then obtain s5 where s5: "brelse c ?s4 b2 = Ret s5" "bio_ok c d s5 ({b1, b2} - {b2})" "bc_disk s5 = bc_disk ?s4" "bc_writes s5 = bc_writes ?s4"
    "\<forall>i. i \<noteq> b2 \<longrightarrow> core (bc_buf s5 i) = core (bc_buf ?s4 i)"
    "core (bc_buf s5 b2) = core ((bc_buf ?s4 b2)\<lparr>b_lock := initsleeplock, b_refcnt := b_refcnt (bc_buf ?s4 b2) - 1\<rparr>)"
    using brelse_held [OF ok4 g, of b2] by auto
  have ok5: "bio_ok c d s5 {b1}" using s5(2) rd(6) by (simp add: insert_Diff_if)
  have c5: "core (bc_buf s5 b1) = core ((bc_buf s2 b1)\<lparr>b_data := ?v\<rparr>)" using s5(5) rd(6) pin(2) by simp
  have "b_data (bc_buf s5 b1) = bc_disk s5 (b_blockno (bc_buf s5 b1))" using c5 s5(3) d4(1) r1(3) by (simp add: core_eq_iff)
  then obtain s6 where s6: "brelse c s5 b1 = Ret s6" "bio_ok c d s6 ({b1} - {b1})" "bc_disk s6 = bc_disk s5" "bc_writes s6 = bc_writes s5"
    "\<forall>i. i \<noteq> b1 \<longrightarrow> core (bc_buf s6 i) = core (bc_buf s5 i)"
    "core (bc_buf s6 b1) = core ((bc_buf s5 b1)\<lparr>b_lock := initsleeplock, b_refcnt := b_refcnt (bc_buf s5 b1) - 1\<rparr>)"
    using brelse_held [OF ok5 g] by auto
  have "b_refcnt (bc_buf s6 b1) = 0" using s6(6) c5 r1(1) by (simp add: core_eq_iff)
  moreover have "core (bc_buf s6 b2) = core (bc_buf s b2)"
  proof -
    have "b_lock (bc_buf s b2) = initsleeplock" using bio_okD(3) [OF ok rd(8)] by simp
    moreover have "b_valid (bc_buf s b2)" "b_dev (bc_buf s b2) = d" "b_blockno (bc_buf s b2) = hb"
      using j pin(1) by (auto simp: holds_block_def)
    moreover have "b_valid (bc_buf s2 b2)" "b_dev (bc_buf s2 b2) = d" "b_blockno (bc_buf s2 b2) = hb"
      using rd(11) by (simp_all add: fetched_def)
    ultimately show ?thesis using s6(5) s5(6) rd(6,10) pin by (simp add: core_eq_iff)
  qed
  moreover have "core (bc_buf s6 i) = core (bc_buf s i)" if "i \<notin> {b1, b2}" for i using s6(5) s5(5) rest that by simp
  ultimately have "same_refs s s6" using rd(7) by (intro same_refsI [of "{b1, b2}"]) (auto simp: unused_def core_eq_iff)
  then show ?thesis using rd(1,2) w s5(1) s6(1-4) s5(3,4) d4 by fastforce
qed

text \<open>
  \<open>installed s t d hb v b\<close>: from \<open>s\<close> to \<open>t\<close>, buffer \<open>b\<close> took \<open>v\<close> home to block \<open>hb\<close> and lost one reference; the other
  buffers kept their references, and the referenced ones their contents.
\<close>

definition installed :: "bcache \<Rightarrow> bcache \<Rightarrow> u32 \<Rightarrow> u32 \<Rightarrow> bytes \<Rightarrow> nat \<Rightarrow> bool" where
  "installed s t d hb v b \<longleftrightarrow>
     (b \<in> unused s \<or> holds_block s d hb b) \<and> holds_block t d hb b \<and> b_refcnt (bc_buf t b) = b_refcnt (bc_buf s b) - 1 \<and>
     bc_disk t = (bc_disk s)(hb := v) \<and> bc_writes t = bc_writes s @ [(hb, v)] \<and>
     (\<forall>j. holds_block s d hb j \<longrightarrow> b_refcnt (bc_buf s j) \<noteq> 0 \<longrightarrow> j = b) \<and>
     (\<forall>i<NBUF. i \<noteq> b \<longrightarrow> b_refcnt (bc_buf t i) = b_refcnt (bc_buf s i) \<and>
        (b_refcnt (bc_buf s i) \<noteq> 0 \<longrightarrow> core (bc_buf t i) = core (bc_buf s i)))"

lemma bio_ok_bunpin:
  assumes "bio_ok c d s U" "b_data (bc_buf s b) = bc_disk s (b_blockno (bc_buf s b))"
  shows "bio_ok c d (bunpin s b) U"
proof -
  have "bunpin s b = set_buf s b (\<lambda>x. x\<lparr>b_refcnt := b_refcnt (bc_buf s b) - 1\<rparr>)" by (simp add: bunpin_def set_buf_def)
  then show ?thesis using bio_ok_refcnt [OF assms(1), of "b_refcnt (bc_buf s b) - 1" b] assms(2) by simp
qed

lemma install_turn:
  assumes ok: "bio_ok c d s {}" and g: "good_caller c" and ne: "lb \<noteq> hb" and un: "unpinned s d lb" and fr: "unused s \<noteq> {}"
    and room: "(\<exists>i. holds_block s d hb i \<and> b_refcnt (bc_buf s i) \<noteq> 0) \<or> (\<exists>i\<in>unused s. \<exists>j\<in>unused s. i \<noteq> j)"
    and top: "\<And>i. holds_block s d hb i \<Longrightarrow> b_refcnt (bc_buf s i) \<noteq> - 1"
  shows "\<exists>b1 s1 b2 s2 s4 s6 s7. bread c s d lb = Ret (b1, s1) \<and> bread c s1 d hb = Ret (b2, s2) \<and>
     bwrite c (set_buf s2 b2 (\<lambda>x. x\<lparr>b_data := b_data (bc_buf s2 b1)\<rparr>)) b2 = Ret s4 \<and>
     brelse c (bunpin s4 b2) b1 = Ret s6 \<and> brelse c s6 b2 = Ret s7 \<and> bio_ok c d s7 {} \<and> installed s s7 d hb (bc_disk s lb) b2"
proof -
  obtain b1 b2 s1 s2 where rd: "bread c s d lb = Ret (b1, s1)" "bread c s1 d hb = Ret (b2, s2)" "bio_ok c d s2 {b1, b2}"
      "bc_disk s2 = bc_disk s" "bc_writes s2 = bc_writes s" "b1 \<noteq> b2" "b1 \<in> unused s" "b2 \<in> unused s \<or> holds_block s d hb b2" "b2 < NBUF"
      "bc_buf s2 b1 = fetched c d lb s b1" "b_data (bc_buf s2 b1) = bc_disk s lb"
      "b_refcnt (bc_buf s2 b2) = b_refcnt (bc_buf s b2) + 1" "bc_buf s2 b2 = fetched c d hb s1 b2"
    and pins: "\<forall>j. holds_block s d hb j \<longrightarrow> b_refcnt (bc_buf s j) \<noteq> 0 \<longrightarrow> j = b2 \<and>
        (b_valid (bc_buf s b2) \<longrightarrow> b_data (bc_buf s2 b2) = b_data (bc_buf s b2))"
    and rest: "\<forall>i. i \<notin> {b1, b2} \<longrightarrow> bc_buf s2 i = bc_buf s i"
    using bread_pair [OF ok ne un fr room top] by blast
  let ?v = "bc_disk s lb"
  let ?s3 = "set_buf s2 b2 (\<lambda>x. x\<lparr>b_data := b_data (bc_buf s2 b1)\<rparr>)"
  let ?s4 = "disk_rw ?s3 b2 True"
  let ?s5 = "bunpin ?s4 b2"
  have b1: "b1 < NBUF" and r1: "b_refcnt (bc_buf s2 b1) = 1" "b_blockno (bc_buf s2 b1) = lb"
    using rd(7,10) by (simp_all add: unused_def fetched_def)
  have r2: "b_dev (bc_buf s2 b2) = d" "b_blockno (bc_buf s2 b2) = hb" using rd(13) by (simp_all add: fetched_def)
  have "b_refcnt (bc_buf s b2) \<noteq> - 1" using rd(8) top by (auto simp: unused_def)
  then have "b_refcnt (bc_buf s2 b2) \<noteq> 0" unfolding rd(12) by (metis add.inverse_unique add.commute)
  then have ok3: "bio_ok c d ?s3 {b1, b2}" by (rule bio_ok_data [OF rd(3)])
  have ok4: "bio_ok c d ?s4 {b1, b2}" by (rule bio_ok_bwrite [OF ok3 rd(9)]) (simp add: r2)
  have w: "bwrite c ?s3 b2 = Ret ?s4" by (rule bwrite_held [OF ok3 g]) simp
  have ok5: "bio_ok c d ?s5 {b1, b2}" by (rule bio_ok_bunpin [OF ok4]) simp
  have d5: "bc_disk ?s5 = (bc_disk s)(hb := ?v)" "bc_writes ?s5 = bc_writes s @ [(hb, ?v)]"
    using rd(4,5,11) r2(2) by (simp_all add: bunpin_def)
  have bb: "bc_buf ?s5 b1 = bc_buf s2 b1" "b_refcnt (bc_buf ?s5 b2) = b_refcnt (bc_buf s b2)" "b_data (bc_buf ?s5 b2) = ?v"
    "b_dev (bc_buf ?s5 b2) = d" "b_blockno (bc_buf ?s5 b2) = hb"
    using rd(6,11,12) r2 by (simp_all add: bunpin_def)
  have "b_data (bc_buf ?s5 b1) = bc_disk ?s5 (b_blockno (bc_buf ?s5 b1))" using bb(1) d5(1) r1(2) rd(11) ne by simp
  then obtain s6 where s6: "brelse c ?s5 b1 = Ret s6" "bio_ok c d s6 ({b1, b2} - {b1})" "bc_disk s6 = bc_disk ?s5" "bc_writes s6 = bc_writes ?s5"
    "\<forall>i. i \<noteq> b1 \<longrightarrow> core (bc_buf s6 i) = core (bc_buf ?s5 i)"
    "core (bc_buf s6 b1) = core ((bc_buf ?s5 b1)\<lparr>b_lock := initsleeplock, b_refcnt := b_refcnt (bc_buf ?s5 b1) - 1\<rparr>)"
    using brelse_held [OF ok5 g, of b1] by auto
  have ok6: "bio_ok c d s6 {b2}" using s6(2) rd(6) by (simp add: insert_Diff_if)
  have c6: "core (bc_buf s6 b2) = core (bc_buf ?s5 b2)" using s6(5) rd(6) by simp
  then have "b_data (bc_buf s6 b2) = bc_disk s6 (b_blockno (bc_buf s6 b2))" using s6(3) d5(1) bb by (simp add: core_eq_iff)
  then obtain s7 where s7: "brelse c s6 b2 = Ret s7" "bio_ok c d s7 ({b2} - {b2})" "bc_disk s7 = bc_disk s6" "bc_writes s7 = bc_writes s6"
    "\<forall>i. i \<noteq> b2 \<longrightarrow> core (bc_buf s7 i) = core (bc_buf s6 i)"
    "core (bc_buf s7 b2) = core ((bc_buf s6 b2)\<lparr>b_lock := initsleeplock, b_refcnt := b_refcnt (bc_buf s6 b2) - 1\<rparr>)"
    using brelse_held [OF ok6 g] by auto
  have f7: "holds_block s7 d hb b2" "b_refcnt (bc_buf s7 b2) = b_refcnt (bc_buf s b2) - 1"
    using s7(6) c6 bb rd(9) by (simp_all add: core_eq_iff holds_block_def)
  have "b_refcnt (bc_buf s7 b1) = 0" using s7(5) s6(6) rd(6) bb(1) r1(1) by (simp add: core_eq_iff)
  moreover have "core (bc_buf s7 i) = core (bc_buf s i)" if "i \<notin> {b1, b2}" for i
    using s7(5) s6(5) rest that by (simp add: bunpin_def)
  ultimately have "b_refcnt (bc_buf s7 i) = b_refcnt (bc_buf s i) \<and> (b_refcnt (bc_buf s i) \<noteq> 0 \<longrightarrow> core (bc_buf s7 i) = core (bc_buf s i))"
    if "i \<noteq> b2" for i using that rd(7) by (cases "i = b1") (simp_all add: unused_def core_eq_iff)
  then have "installed s s7 d hb ?v b2" unfolding installed_def using rd(8) f7 pins s7(3,4) s6(3,4) d5 by simp
  then show ?thesis using rd(1,2) w s6(1) s7(1,2) by fastforce
qed

subsection \<open>Histories of disk writes\<close>

definition apply_writes :: "(u32 \<Rightarrow> bytes) \<Rightarrow> (u32 \<times> bytes) list \<Rightarrow> u32 \<Rightarrow> bytes" where
  "apply_writes D ws = fold (\<lambda>(b, v) D. D(b := v)) ws D"

lemma apply_writes_simps [simp]:
  "apply_writes D [] = D" "apply_writes D ((b, v) # ws) = apply_writes (D(b := v)) ws" "apply_writes D (us @ ws) = apply_writes (apply_writes D us) ws"
  by (simp_all add: apply_writes_def)

lemma apply_writes_out: "b \<notin> fst ` set ws \<Longrightarrow> apply_writes D ws b = D b"
  by (induction ws arbitrary: D) auto

lemma apply_writes_in:
  "(b, v) \<in> set ws \<Longrightarrow> distinct (map fst ws) \<Longrightarrow> apply_writes D ws b = v"
proof (induction ws arbitrary: D)
  case (Cons w ws)
  obtain b' v' where w: "w = (b', v')" by (cases w)
  show ?case
  proof (cases "(b, v) = w")
    case True
    then show ?thesis using Cons.prems w by (simp add: apply_writes_out)
  next
    case False
    then have "(b, v) \<in> set ws" using Cons.prems(1) by simp
    then show ?thesis using Cons.IH Cons.prems(2) w by simp
  qed
qed simp

definition wrote :: "bcache \<Rightarrow> bcache \<Rightarrow> (u32 \<times> bytes) list \<Rightarrow> bool" where
  "wrote s t ws \<longleftrightarrow> bc_disk t = apply_writes (bc_disk s) ws \<and> bc_writes t = bc_writes s @ ws"

lemma wrote_trans: "wrote s t us \<Longrightarrow> wrote t w ws \<Longrightarrow> wrote s w (us @ ws)"
  by (simp add: wrote_def)

lemma wrote_refl: "wrote s s []"
  by (simp add: wrote_def)

lemma same_refs_trans: "same_refs s t \<Longrightarrow> same_refs t w \<Longrightarrow> same_refs s w"
  by (simp add: same_refs_def)

lemma same_refs_refl: "same_refs s s"
  by (simp add: same_refs_def)

lemma same_refs_unused: "same_refs s t \<Longrightarrow> unused t = unused s"
  by (auto simp: same_refs_def unused_def)

lemma same_refs_holds:
  "same_refs s t \<Longrightarrow> b_refcnt (bc_buf s i) \<noteq> 0 \<Longrightarrow> holds_block t d b i = holds_block s d b i"
  by (auto simp: same_refs_def holds_block_def core_eq_iff)

lemma same_refs_unpinned: "same_refs s t \<Longrightarrow> unpinned s d b \<Longrightarrow> unpinned t d b"
  unfolding unpinned_def using same_refs_holds [of s t _ d b] by (auto simp: same_refs_def holds_block_def)

definition pinned :: "bcache \<Rightarrow> u32 \<Rightarrow> u32 \<Rightarrow> bytes \<Rightarrow> bool" where
  "pinned s d b v \<longleftrightarrow> (\<exists>j. holds_block s d b j \<and> b_refcnt (bc_buf s j) \<noteq> 0 \<and> b_refcnt (bc_buf s j) \<noteq> - 1 \<and>
     b_valid (bc_buf s j) \<and> b_data (bc_buf s j) = v)"

lemma same_refs_pinned: "same_refs s t \<Longrightarrow> pinned s d b v \<Longrightarrow> pinned t d b v"
  unfolding pinned_def same_refs_def holds_block_def core_eq_iff by metis

subsection \<open>The blocks of the log\<close>

definition log_blk :: "u32 \<Rightarrow> nat \<Rightarrow> u32" where
  "log_blk st k = st + of_nat k"

definition in_log :: "u32 \<Rightarrow> u32 \<Rightarrow> bool" where
  "in_log st b \<longleftrightarrow> (\<exists>k<LOGSIZE. b = log_blk st k)"

lemma log_blk_inj: "k \<le> LOGSIZE \<Longrightarrow> k' \<le> LOGSIZE \<Longrightarrow> log_blk st k = log_blk st k' \<longleftrightarrow> k = k'"
  by (simp add: log_blk_def LOGSIZE_def MAXOPBLOCKS_def word_of_nat_eq_iff take_bit_nat_eq_self)

lemma log_blk_tail: "st + of_nat t + 1 = log_blk st (Suc t)" "log_blk st 0 = st"
  by (simp_all add: log_blk_def)

lemma in_log_blk [simp]: "k < LOGSIZE \<Longrightarrow> in_log st (log_blk st k)"
  by (auto simp: in_log_def)

lemma in_log_start [simp]: "in_log st st"
  using in_log_blk [of 0 st] by (simp add: log_blk_def LOGSIZE_def MAXOPBLOCKS_def)

text \<open>The log and the device of a state, and the blocks of the log unreferenced in the cache.\<close>

definition log_idle :: "fsys \<Rightarrow> bool" where
  "log_idle f \<longleftrightarrow> (\<forall>b. in_log (lg_start (fs_log f)) b \<longrightarrow> unpinned (fs_bc f) (lg_dev (fs_log f)) b)"

lemma same_refs_log_idle:
  "log_idle f \<Longrightarrow> same_refs (fs_bc f) s \<Longrightarrow> log_idle (f\<lparr>fs_bc := s\<rparr>)"
  by (auto simp: log_idle_def intro: same_refs_unpinned)

subsection \<open>The loops\<close>

lemma write_log_loop_writes:
  assumes g: "good_caller c" and n: "n < LOGSIZE" and lg: "st = lg_start (fs_log f)" "d = lg_dev (fs_log f)"
    and f: "tail + k = n" "bio_ok c d (fs_bc f) {}" "log_idle f" "unused (fs_bc f) \<noteq> {}"
      "\<forall>t. tail \<le> t \<and> t < n \<longrightarrow> pinned (fs_bc f) d (lg_block (fs_log f) t) (dat t) \<and> \<not> in_log st (lg_block (fs_log f) t)"
  shows "\<exists>s'. write_log_loop k c f tail = Ret (f\<lparr>fs_bc := s'\<rparr>) \<and> bio_ok c d s' {} \<and> same_refs (fs_bc f) s' \<and>
     wrote (fs_bc f) s' (map (\<lambda>t. (log_blk st (Suc t), dat t)) [tail..<n])"
  using f lg
proof (induction k arbitrary: f tail)
  case 0
  then show ?case by (intro exI [of _ "fs_bc f"]) (simp add: same_refs_refl wrote_refl)
next
  case (Suc k)
  let ?s = "fs_bc f" and ?lb = "log_blk st (Suc tail)" and ?hb = "lg_block (fs_log f) tail"
  have t: "tail < n" "Suc tail < LOGSIZE" using Suc.prems(1) n by simp_all
  have "\<not> in_log st ?hb" and "pinned ?s d ?hb (dat tail)" using Suc.prems(5) t by auto
  then obtain j where j: "holds_block ?s d ?hb j" "b_refcnt (bc_buf ?s j) \<noteq> 0" "b_refcnt (bc_buf ?s j) \<noteq> - 1" "b_valid (bc_buf ?s j)"
    and dj: "b_data (bc_buf ?s j) = dat tail" by (auto simp: pinned_def)
  have ne: "?lb \<noteq> ?hb" using \<open>\<not> in_log st ?hb\<close> t(2) in_log_blk [of "Suc tail" st] by metis
  have un: "unpinned ?s d ?lb" using Suc.prems(3,6,7) t(2) by (simp add: log_idle_def)
  obtain b1 s1 b2 s2 s4 s5 s6 where tn: "bread c ?s d ?lb = Ret (b1, s1)" "bread c s1 d ?hb = Ret (b2, s2)"
     "bwrite c (set_buf s2 b1 (\<lambda>x. x\<lparr>b_data := b_data (bc_buf s2 b2)\<rparr>)) b1 = Ret s4"
     "brelse c s4 b2 = Ret s5" "brelse c s5 b1 = Ret s6" "bio_ok c d s6 {}"
     "bc_disk s6 = (bc_disk ?s)(?lb := dat tail)" "bc_writes s6 = bc_writes ?s @ [(?lb, dat tail)]" "same_refs ?s s6"
    using log_turn [OF Suc.prems(2) g ne un Suc.prems(4) j] unfolding dj by blast
  let ?f = "f\<lparr>fs_bc := s6\<rparr>"
  have st: "write_log_loop (Suc k) c f tail = write_log_loop k c ?f (Suc tail)"
    using tn(1-5) Suc.prems(6,7) t(2) by (simp add: Let_def header_block_def log_blk_tail del: of_nat_Suc)
  have "\<forall>t. Suc tail \<le> t \<and> t < n \<longrightarrow> pinned (fs_bc ?f) d (lg_block (fs_log ?f) t) (dat t) \<and> \<not> in_log st (lg_block (fs_log ?f) t)"
    using Suc.prems(5) same_refs_pinned [OF tn(9)] by simp
  moreover have "unused (fs_bc ?f) \<noteq> {}" using Suc.prems(4) same_refs_unused [OF tn(9)] by simp
  moreover have "log_idle ?f" by (rule same_refs_log_idle [OF Suc.prems(3) tn(9)])
  ultimately obtain s' where s': "write_log_loop k c ?f (Suc tail) = Ret (?f\<lparr>fs_bc := s'\<rparr>)" "bio_ok c d s' {}" "same_refs (fs_bc ?f) s'"
     "wrote (fs_bc ?f) s' (map (\<lambda>t. (log_blk st (Suc t), dat t)) [Suc tail..<n])"
    using Suc.IH [of "Suc tail" ?f] Suc.prems(1,6,7) tn(6) by auto
  have "wrote ?s s6 [(?lb, dat tail)]" using tn(7,8) by (simp add: wrote_def)
  then have "wrote ?s s' (map (\<lambda>t. (log_blk st (Suc t), dat t)) [tail..<n])"
    using wrote_trans [of ?s s6 _ s'] s'(4) t(1) by (fastforce simp: upt_conv_Cons)
  then show ?case using st s'(1-3) same_refs_trans [OF tn(9)] by auto
qed

definition head_of :: "log \<Rightarrow> nat \<Rightarrow> bytes \<Rightarrow> bool" where
  "head_of lg n h \<longleftrightarrow> hb_n h = int n \<and> (\<forall>i<n. hb_block h i = lg_block lg i)"

lemma write_head_loop_stores:
  "i + k \<le> LOGSIZE \<Longrightarrow> \<exists>h'. write_head_loop k h lg i = Ret h' \<and> load32 h' 0 = load32 h 0 \<and>
     (\<forall>j. hb_block h' j = (if i \<le> j \<and> j < i + k then lg_block lg j else hb_block h j))"
proof (induction k arbitrary: h i)
  case 0
  then show ?case by auto
next
  case (Suc k)
  let ?h = "store32 h (4 + 4 * i) (lg_block lg i)"
  have "Suc i + k \<le> LOGSIZE" using Suc.prems by simp
  then obtain h' where h': "write_head_loop k ?h lg (Suc i) = Ret h'" "load32 h' 0 = load32 ?h 0"
    "\<forall>j. hb_block h' j = (if Suc i \<le> j \<and> j < Suc i + k then lg_block lg j else hb_block ?h j)"
    using Suc.IH by blast
  have "load32 ?h 0 = load32 h 0" by (simp add: mem_simps)
  moreover have "hb_block ?h j = (if j = i then lg_block lg i else hb_block h j)" for j
    by (cases "j < i"; cases "j = i") (simp_all add: hb_block_def mem_simps)
  ultimately show ?case using h' Suc.prems by (auto simp: header_block_def)
qed

lemma write_head_writes:
  assumes g: "good_caller c" and f: "bio_ok c (lg_dev (fs_log f)) (fs_bc f) {}" "log_idle f" "unused (fs_bc f) \<noteq> {}"
    and n: "lg_n (fs_log f) = int n" "n \<le> LOGSIZE"
  shows "\<exists>s' h. write_head c f = Ret (f\<lparr>fs_bc := s'\<rparr>) \<and> bio_ok c (lg_dev (fs_log f)) s' {} \<and> same_refs (fs_bc f) s' \<and>
     wrote (fs_bc f) s' [(lg_start (fs_log f), h)] \<and> head_of (fs_log f) n h"
proof -
  let ?s = "fs_bc f" and ?d = "lg_dev (fs_log f)" and ?st = "lg_start (fs_log f)"
  have un: "unpinned ?s ?d ?st" using f(2) by (simp add: log_idle_def)
  obtain b s1 where b: "bread c ?s ?d ?st = Ret (b, s1)"
    and upd: "\<forall>v. \<exists>s2 s3. bwrite c (set_buf s1 b (\<lambda>x. x\<lparr>b_data := v\<rparr>)) b = Ret s2 \<and> brelse c s2 b = Ret s3 \<and> bio_ok c ?d s3 {} \<and>
       bc_disk s3 = (bc_disk ?s)(?st := v) \<and> bc_writes s3 = bc_writes ?s @ [(?st, v)] \<and> same_refs ?s s3"
    using update_block [OF f(1) g un f(3)] by blast
  let ?h = "store32 (b_data (bc_buf s1 b)) 0 (word_of_int (int n))"
  obtain h where h: "write_head_loop n ?h (fs_log f) 0 = Ret h" "load32 h 0 = load32 ?h 0"
    "\<forall>j. hb_block h j = (if 0 \<le> j \<and> j < 0 + n then lg_block (fs_log f) j else hb_block ?h j)"
    using write_head_loop_stores [of 0 n] n(2) by fastforce
  obtain s2 s3 where w: "bwrite c (set_buf s1 b (\<lambda>x. x\<lparr>b_data := h\<rparr>)) b = Ret s2" "brelse c s2 b = Ret s3" "bio_ok c ?d s3 {}"
       "bc_disk s3 = (bc_disk ?s)(?st := h)" "bc_writes s3 = bc_writes ?s @ [(?st, h)]" "same_refs ?s s3"
    using upd by blast
  have "n < 2 ^ 31" using n(2) by (simp add: LOGSIZE_def MAXOPBLOCKS_def)
  then have "sint (word_of_int (int n) :: u32) = int n"
    unfolding sint_sbintrunc' by (intro signed_take_bit_int_eq_self) simp_all
  then have "head_of (fs_log f) n h" using h(2,3) by (simp add: head_of_def hb_n_def)
  moreover have "write_head c f = Ret (f\<lparr>fs_bc := s3\<rparr>)" using b h(1) w(1,2) n(1) by (simp add: write_head_def Let_def)
  ultimately show ?thesis using w(3-6) by (auto simp: wrote_def)
qed

lemma read_head_loop_reads:
  "i + k \<le> LOGSIZE \<Longrightarrow> \<exists>bl. read_head_loop k h lg i = Ret (lg\<lparr>lg_block := bl\<rparr>) \<and>
     (\<forall>j. bl j = (if i \<le> j \<and> j < i + k then hb_block h j else lg_block lg j))"
proof (induction k arbitrary: lg i)
  case 0
  then show ?case by (intro exI [of _ "lg_block lg"]) auto
next
  case (Suc k)
  have "Suc i + k \<le> LOGSIZE" using Suc.prems by simp
  then obtain bl where bl: "read_head_loop k h (lg\<lparr>lg_block := (lg_block lg)(i := hb_block h i)\<rparr>) (Suc i) = Ret (lg\<lparr>lg_block := bl\<rparr>)"
    "\<forall>j. bl j = (if Suc i \<le> j \<and> j < Suc i + k then hb_block h j else ((lg_block lg)(i := hb_block h i)) j)"
    using Suc.IH [of "Suc i" "lg\<lparr>lg_block := (lg_block lg)(i := hb_block h i)\<rparr>"] by auto
  then have "\<forall>j. bl j = (if i \<le> j \<and> j < i + Suc k then hb_block h j else lg_block lg j)" by auto
  then show ?case using bl(1) Suc.prems by auto
qed

lemma read_head_reads:
  assumes g: "good_caller c" and f: "bio_ok c (lg_dev (fs_log f)) (fs_bc f) {}" "log_idle f" "unused (fs_bc f) \<noteq> {}"
    and n: "hb_n (bc_disk (fs_bc f) (lg_start (fs_log f))) = int n" "n \<le> LOGSIZE"
  shows "\<exists>lg s'. read_head c f = Ret \<lparr>fs_log = lg, fs_bc = s'\<rparr> \<and> bio_ok c (lg_dev (fs_log f)) s' {} \<and> same_refs (fs_bc f) s' \<and>
     wrote (fs_bc f) s' [] \<and> lg_start lg = lg_start (fs_log f) \<and> lg_dev lg = lg_dev (fs_log f) \<and> lg_n lg = int n \<and>
     (\<forall>i<n. lg_block lg i = hb_block (bc_disk (fs_bc f) (lg_start (fs_log f))) i)"
proof -
  let ?s = "fs_bc f" and ?d = "lg_dev (fs_log f)" and ?st = "lg_start (fs_log f)"
  have un: "unpinned ?s ?d ?st" using f(2) by (simp add: log_idle_def)
  obtain b s1 s2 where b: "bread c ?s ?d ?st = Ret (b, s1)" "b_data (bc_buf s1 b) = bc_disk ?s ?st" "brelse c s1 b = Ret s2"
    "bio_ok c ?d s2 {}" "bc_disk s2 = bc_disk ?s" "bc_writes s2 = bc_writes ?s" "same_refs ?s s2"
    using read_block [OF f(1) g un f(3)] by blast
  obtain bl where bl: "read_head_loop n (bc_disk ?s ?st) ((fs_log f)\<lparr>lg_n := int n\<rparr>) 0 = Ret ((fs_log f)\<lparr>lg_n := int n, lg_block := bl\<rparr>)"
     "\<forall>j. bl j = (if j < n then hb_block (bc_disk ?s ?st) j else lg_block (fs_log f) j)"
    using read_head_loop_reads [of 0 n "bc_disk ?s ?st" "(fs_log f)\<lparr>lg_n := int n\<rparr>"] n(2) by auto
  then have "read_head c f = Ret \<lparr>fs_log = (fs_log f)\<lparr>lg_n := int n, lg_block := bl\<rparr>, fs_bc = s2\<rparr>"
    using b(1-3) n(1) by (simp add: read_head_def Let_def)
  then show ?thesis using b(4-7) bl(2) by (auto simp: wrote_def)
qed

text \<open>
  The state of the cache that \<^verbatim>\<open>install_trans\<close> needs from turn \<open>tail\<close> on: each home block is pinned (after a commit) or not
  referenced (at recovery), and there are more unused buffers than unreferenced home blocks.
\<close>

definition install_ready :: "bcache \<Rightarrow> u32 \<Rightarrow> (nat \<Rightarrow> u32) \<Rightarrow> nat \<Rightarrow> nat \<Rightarrow> bool" where
  "install_ready s d hb tail n \<longleftrightarrow>
     (\<forall>t. tail \<le> t \<and> t < n \<longrightarrow> unpinned s d (hb t) \<or> (\<exists>v. pinned s d (hb t) v)) \<and>
     card {t. tail \<le> t \<and> t < n \<and> unpinned s d (hb t)} < card (unused s)"

lemma finite_unused [simp]: "finite (unused s)"
  by (simp add: unused_def)

lemma pinned_not_unpinned: "pinned s d b v \<Longrightarrow> \<not> unpinned s d b"
  by (auto simp: pinned_def unpinned_def)

lemma installed_holds:
  assumes "installed s t d hb v b" "i \<noteq> b" "b_refcnt (bc_buf s i) \<noteq> 0"
  shows "holds_block t d x i = holds_block s d x i"
  using assms by (auto simp: installed_def holds_block_def core_eq_iff)

lemma installed_other:
  assumes i: "installed s t d hb v b" and ne: "x \<noteq> hb"
  shows "unpinned s d x \<Longrightarrow> unpinned t d x" "pinned s d x w \<Longrightarrow> pinned t d x w"
proof -
  have b: "holds_block t d hb b" and k: "\<And>i. i < NBUF \<Longrightarrow> i \<noteq> b \<Longrightarrow> b_refcnt (bc_buf t i) = b_refcnt (bc_buf s i) \<and>
        (b_refcnt (bc_buf s i) \<noteq> 0 \<longrightarrow> core (bc_buf t i) = core (bc_buf s i))"
    using i by (auto simp: installed_def)
  show "unpinned s d x \<Longrightarrow> unpinned t d x"
    using installed_holds [OF i] k b ne unfolding unpinned_def holds_block_def by metis
  show "pinned s d x w \<Longrightarrow> pinned t d x w"
  proof -
    assume "pinned s d x w"
    then obtain j where j: "holds_block s d x j" "b_refcnt (bc_buf s j) \<noteq> 0" "b_refcnt (bc_buf s j) \<noteq> - 1" "b_valid (bc_buf s j)" "b_data (bc_buf s j) = w"
      by (auto simp: pinned_def)
    have "j \<noteq> b"
    proof
      assume "j = b"
      then have "holds_block s d hb b" using i j(2) by (auto simp: installed_def unused_def)
      then show False using j(1) ne \<open>j = b\<close> by (simp add: holds_block_def)
    qed
    then have "core (bc_buf t j) = core (bc_buf s j)" using k [of j] j(1,2) by (simp add: holds_block_def)
    then show ?thesis using j unfolding pinned_def by (intro exI [of _ j]) (simp add: core_eq_iff holds_block_def)
  qed
qed

lemma installed_unused:
  assumes i: "installed s t d hb v b"
  shows "unused s - {b} \<subseteq> unused t" "unpinned s d hb \<Longrightarrow> b \<in> unused s \<and> b_refcnt (bc_buf t b) = - 1"
    "pinned s d hb w \<Longrightarrow> b \<notin> unused s"
  using i by (auto simp: installed_def unused_def unpinned_def pinned_def holds_block_def)

lemma install_ready_step:
  assumes i: "installed s t d (hb tail) v b" and r: "install_ready s d hb tail n" and tail: "tail < n" and inj: "inj_on hb {..<n}"
  shows "install_ready t d hb (Suc tail) n"
proof -
  have ne: "hb u \<noteq> hb tail" if "Suc tail \<le> u" "u < n" for u using inj_onD [OF inj, of u tail] that tail by auto
  let ?A = "\<lambda>s tail. {u. tail \<le> u \<and> u < n \<and> unpinned s d (hb u)}"
  have fin: "finite (?A s u)" for s u by (rule finite_subset [of _ "{..<n}"]) auto
  have cases: "unpinned s d (hb u) \<or> (\<exists>v. pinned s d (hb u) v)" if "tail \<le> u" "u < n" for u
    using r that by (auto simp: install_ready_def)
  have A: "?A t (Suc tail) = ?A s (Suc tail)"
  proof -
    have "unpinned t d (hb u) = unpinned s d (hb u)" if "Suc tail \<le> u" "u < n" for u
      using installed_other [OF i ne [OF that]] cases [of u] that pinned_not_unpinned by (metis Suc_leD)
    then show ?thesis by auto
  qed
  have "card (?A s (Suc tail)) < card (unused t)"
  proof (cases "unpinned s d (hb tail)")
    case True
    have "?A s tail = insert tail (?A s (Suc tail))" using True tail by (auto simp: not_less_eq_eq le_Suc_eq)
    then have "card (?A s tail) = Suc (card (?A s (Suc tail)))" using fin by simp
    moreover have "card (?A s tail) < card (unused s)" using r by (simp add: install_ready_def)
    ultimately have "card (?A s (Suc tail)) < card (unused s) - 1" by linarith
    also have "\<dots> = card (unused s - {b})" using installed_unused(2) [OF i True] by simp
    also have "\<dots> \<le> card (unused t)" by (rule card_mono) (simp_all add: installed_unused(1) [OF i])
    finally show ?thesis .
  next
    case False
    then obtain w where "pinned s d (hb tail) w" using cases tail by blast
    then have "unused s \<subseteq> unused t" using installed_unused(1,3) [OF i] by blast
    then have "card (unused s) \<le> card (unused t)" by (intro card_mono) simp_all
    moreover have "?A s (Suc tail) \<subseteq> ?A s tail" by auto
    then have "card (?A s (Suc tail)) \<le> card (?A s tail)" using fin by (intro card_mono)
    ultimately show ?thesis using r by (simp add: install_ready_def)
  qed
  moreover have "unpinned t d (hb u) \<or> (\<exists>v. pinned t d (hb u) v)" if "Suc tail \<le> u" "u < n" for u
    using installed_other [OF i ne [OF that]] cases [of u] that by (metis Suc_leD)
  ultimately show ?thesis unfolding install_ready_def A by simp
qed

text \<open>After the loop the buffers of the blocks that were not referenced before have their reference count wrapped around.\<close>

lemma install_trans_loop_writes:
  assumes g: "good_caller c" and n: "n < LOGSIZE" and lg: "st = lg_start (fs_log f)" "d = lg_dev (fs_log f)" "hb = lg_block (fs_log f)"
    and home: "inj_on hb {..<n}" "\<forall>t<n. \<not> in_log st (hb t)"
    and f: "tail + k = n" "bio_ok c d (fs_bc f) {}" "log_idle f" "install_ready (fs_bc f) d hb tail n"
  shows "\<exists>s'. install_trans_loop k c f tail = Ret (f\<lparr>fs_bc := s'\<rparr>) \<and> bio_ok c d s' {} \<and> log_idle (f\<lparr>fs_bc := s'\<rparr>) \<and> unused s' \<noteq> {} \<and>
     wrote (fs_bc f) s' (map (\<lambda>t. (hb t, bc_disk (fs_bc f) (log_blk st (Suc t)))) [tail..<n]) \<and>
     (\<forall>x. (\<forall>t. tail \<le> t \<and> t < n \<longrightarrow> x \<noteq> hb t) \<longrightarrow> (\<forall>b. holds_block (fs_bc f) d x b \<and> b_refcnt (bc_buf (fs_bc f) b) = - 1 \<longrightarrow>
        holds_block s' d x b \<and> b_refcnt (bc_buf s' b) = - 1)) \<and>
     (\<forall>t. tail \<le> t \<and> t < n \<and> unpinned (fs_bc f) d (hb t) \<longrightarrow> (\<exists>b. holds_block s' d (hb t) b \<and> b_refcnt (bc_buf s' b) = - 1))"
  using f lg
proof (induction k arbitrary: f tail)
  case 0
  then have "unused (fs_bc f) \<noteq> {}" by (auto simp: install_ready_def)
  then show ?case using 0 by (intro exI [of _ "fs_bc f"]) (auto simp: wrote_refl)
next
  case (Suc k)
  let ?s = "fs_bc f" and ?lb = "log_blk st (Suc tail)"
  have t: "tail < n" "Suc tail < LOGSIZE" using Suc.prems(1) n by simp_all
  have ne: "?lb \<noteq> hb tail" using home(2) t in_log_blk [of "Suc tail" st] by metis
  have un: "unpinned ?s d ?lb" using Suc.prems(3,5,6) t(2) by (simp add: log_idle_def)
  have fr: "unused ?s \<noteq> {}" using Suc.prems(4) by (auto simp: install_ready_def)
  have cases: "unpinned ?s d (hb tail) \<or> (\<exists>v. pinned ?s d (hb tail) v)" using Suc.prems(4) t(1) by (simp add: install_ready_def)
  have top: "b_refcnt (bc_buf ?s i) \<noteq> - 1" if "holds_block ?s d (hb tail) i" for i
    using cases
  proof (elim disjE exE)
    assume "unpinned ?s d (hb tail)"
    then show ?thesis using that by (auto simp: unpinned_def)
  next
    fix v assume "pinned ?s d (hb tail) v"
    then obtain j where "holds_block ?s d (hb tail) j" "b_refcnt (bc_buf ?s j) \<noteq> - 1" by (auto simp: pinned_def)
    then show ?thesis using bio_okD(5) [OF Suc.prems(2)] that by metis
  qed
  have room: "(\<exists>i. holds_block ?s d (hb tail) i \<and> b_refcnt (bc_buf ?s i) \<noteq> 0) \<or> (\<exists>i\<in>unused ?s. \<exists>j\<in>unused ?s. i \<noteq> j)"
    using cases
  proof (elim disjE exE)
    assume u: "unpinned ?s d (hb tail)"
    let ?A = "{u. tail \<le> u \<and> u < n \<and> unpinned ?s d (hb u)}"
    have "finite ?A" by (rule finite_subset [of _ "{..<n}"]) auto
    then have "0 < card ?A" using u t(1) by (auto simp: card_gt_0_iff)
    then have "\<not> card (unused ?s) \<le> Suc 0" using Suc.prems(4) by (simp add: install_ready_def)
    then show ?thesis by (auto simp: card_le_Suc0_iff_eq)
  next
    fix v assume "pinned ?s d (hb tail) v"
    then show ?thesis by (auto simp: pinned_def)
  qed
  obtain b1 s1 b2 s2 s4 s6 s7 where tn: "bread c ?s d ?lb = Ret (b1, s1)" "bread c s1 d (hb tail) = Ret (b2, s2)"
     "bwrite c (set_buf s2 b2 (\<lambda>x. x\<lparr>b_data := b_data (bc_buf s2 b1)\<rparr>)) b2 = Ret s4"
     "brelse c (bunpin s4 b2) b1 = Ret s6" "brelse c s6 b2 = Ret s7" "bio_ok c d s7 {}"
    and ins: "installed ?s s7 d (hb tail) (bc_disk ?s ?lb) b2"
    using install_turn [OF Suc.prems(2) g ne un fr room top] by blast
  let ?f = "f\<lparr>fs_bc := s7\<rparr>"
  have st: "install_trans_loop (Suc k) c f tail = install_trans_loop k c ?f (Suc tail)"
    using tn(1-5) Suc.prems(5,6,7) t(2) by (simp add: Let_def header_block_def log_blk_tail del: of_nat_Suc)
  have "unpinned s7 d b" if "in_log st b" for b
  proof -
    have "b \<noteq> hb tail" using home(2) t(1) that by auto
    then show ?thesis using installed_other(1) [OF ins] Suc.prems(3,5,6) that by (simp add: log_idle_def)
  qed
  then have idle: "log_idle ?f" using Suc.prems(5,6) by (simp add: log_idle_def)
  have ready: "install_ready (fs_bc ?f) d hb (Suc tail) n" using install_ready_step [OF ins Suc.prems(4) t(1) home(1)] by simp
  obtain s' where s': "install_trans_loop k c ?f (Suc tail) = Ret (?f\<lparr>fs_bc := s'\<rparr>)" "bio_ok c d s' {}" "log_idle (?f\<lparr>fs_bc := s'\<rparr>)" "unused s' \<noteq> {}"
     "wrote s7 s' (map (\<lambda>t. (hb t, bc_disk s7 (log_blk st (Suc t)))) [Suc tail..<n])"
     "\<forall>x. (\<forall>t. Suc tail \<le> t \<and> t < n \<longrightarrow> x \<noteq> hb t) \<longrightarrow> (\<forall>b. holds_block s7 d x b \<and> b_refcnt (bc_buf s7 b) = - 1 \<longrightarrow>
        holds_block s' d x b \<and> b_refcnt (bc_buf s' b) = - 1)"
     "\<forall>t. Suc tail \<le> t \<and> t < n \<and> unpinned s7 d (hb t) \<longrightarrow> (\<exists>b. holds_block s' d (hb t) b \<and> b_refcnt (bc_buf s' b) = - 1)"
    using Suc.IH [of "Suc tail" ?f] Suc.prems(1,5,6,7) tn(6) idle ready by auto
  have hbne: "hb u \<noteq> hb tail" if "Suc tail \<le> u" "u < n" for u using inj_onD [OF home(1), of u tail] that t by auto
  have w7: "bc_disk s7 = (bc_disk ?s)(hb tail := bc_disk ?s ?lb)" "wrote ?s s7 [(hb tail, bc_disk ?s ?lb)]"
    using ins by (simp_all add: installed_def wrote_def)
  have "log_blk st (Suc u) \<noteq> hb tail" if "u < n" for u using home(2) t(1) in_log_blk [of "Suc u" st] that n by (metis Suc_leI le_less_trans)
  then have me: "map (\<lambda>t. (hb t, bc_disk s7 (log_blk st (Suc t)))) [Suc tail..<n] = map (\<lambda>t. (hb t, bc_disk ?s (log_blk st (Suc t)))) [Suc tail..<n]"
    using w7(1) by simp
  have W: "wrote ?s s' (map (\<lambda>t. (hb t, bc_disk ?s (log_blk st (Suc t)))) [tail..<n])"
    using wrote_trans [OF w7(2) s'(5) [unfolded me]] t(1) by (simp add: upt_conv_Cons)
  have keep: "holds_block s' d x b \<and> b_refcnt (bc_buf s' b) = - 1"
    if x: "\<forall>t. tail \<le> t \<and> t < n \<longrightarrow> x \<noteq> hb t" and b: "holds_block ?s d x b" "b_refcnt (bc_buf ?s b) = - 1" for x b
  proof -
    have "x \<noteq> hb tail" using x t(1) by blast
    then have "b \<noteq> b2" using ins b by (auto simp: installed_def unused_def holds_block_def)
    then have "holds_block s7 d x b \<and> b_refcnt (bc_buf s7 b) = - 1"
      using installed_holds [OF ins, of b x] b ins by (auto simp: installed_def holds_block_def)
    moreover have "\<forall>t. Suc tail \<le> t \<and> t < n \<longrightarrow> x \<noteq> hb t" using x by auto
    ultimately show ?thesis using s'(6) by blast
  qed
  have leak: "\<exists>b. holds_block s' d (hb u) b \<and> b_refcnt (bc_buf s' b) = - 1" if u: "tail \<le> u" "u < n" "unpinned ?s d (hb u)" for u
  proof (cases "u = tail")
    case True
    have "holds_block s7 d (hb tail) b2 \<and> b_refcnt (bc_buf s7 b2) = - 1"
      using installed_unused(2) [OF ins] u True ins by (simp add: installed_def)
    moreover have "\<forall>t. Suc tail \<le> t \<and> t < n \<longrightarrow> hb tail \<noteq> hb t" using hbne by fastforce
    ultimately show ?thesis using s'(6) True by blast
  next
    case False
    then have "Suc tail \<le> u" using u(1) by simp
    then show ?thesis using s'(7) u installed_other(1) [OF ins hbne] by blast
  qed
  show ?case using st s'(1-4) W keep leak by (intro exI [of _ s']) auto
qed

subsection \<open>What recovery makes of a disk\<close>

definition home_blocks :: "u32 \<Rightarrow> (u32 \<Rightarrow> bytes) \<Rightarrow> nat \<Rightarrow> u32" where
  "home_blocks st D = hb_block (D st)"

definition recovered :: "u32 \<Rightarrow> (u32 \<Rightarrow> bytes) \<Rightarrow> u32 \<Rightarrow> bytes" where
  "recovered st D b =
     (case find (\<lambda>t. home_blocks st D t = b) (rev [0..<nat (hb_n (D st))]) of
        None \<Rightarrow> D b
      | Some t \<Rightarrow> D (log_blk st (Suc t)))"

definition log_holds :: "u32 \<Rightarrow> (u32 \<Rightarrow> bytes) \<Rightarrow> nat \<Rightarrow> bool" where
  "log_holds st D n \<longleftrightarrow> hb_n (D st) = int n \<and> n < NBUF \<and> inj_on (home_blocks st D) {..<n} \<and> (\<forall>t<n. \<not> in_log st (home_blocks st D t))"

definition log_ok :: "u32 \<Rightarrow> (u32 \<Rightarrow> bytes) \<Rightarrow> bool" where
  "log_ok st D \<longleftrightarrow> (\<exists>n. log_holds st D n)"

lemma log_holds_LOGSIZE: "log_holds st D n \<Longrightarrow> n < LOGSIZE"
  by (simp add: log_holds_def NBUF_def LOGSIZE_def MAXOPBLOCKS_def)

lemma recovered_empty: "hb_n (D st) = 0 \<Longrightarrow> recovered st D b = D b"
  by (simp add: recovered_def)

lemma recovered_home:
  assumes "log_holds st D n"
  shows "t < n \<Longrightarrow> recovered st D (home_blocks st D t) = D (log_blk st (Suc t))"
    "\<forall>t<n. home_blocks st D t \<noteq> b \<Longrightarrow> recovered st D b = D b"
proof -
  have n: "nat (hb_n (D st)) = n" and inj: "inj_on (home_blocks st D) {..<n}" using assms by (simp_all add: log_holds_def)
  show "recovered st D (home_blocks st D t) = D (log_blk st (Suc t))" if t: "t < n"
  proof (cases "find (\<lambda>u. home_blocks st D u = home_blocks st D t) (rev [0..<n])")
    case None
    then show ?thesis using t by (auto simp: find_None_iff)
  next
    case (Some u)
    then have "home_blocks st D u = home_blocks st D t \<and> u < n" by (auto dest: find_SomeD)
    then have "u = t" using inj t by (auto dest: inj_onD)
    then show ?thesis using Some n by (simp add: recovered_def)
  qed
  assume "\<forall>t<n. home_blocks st D t \<noteq> b"
  then have "find (\<lambda>t. home_blocks st D t = b) (rev [0..<n]) = None" by (auto simp: find_None_iff)
  then show "recovered st D b = D b" using n by (simp add: recovered_def)
qed

text \<open>The block writes of \<^verbatim>\<open>install_trans\<close> followed by the cleared header keep what recovery would find.\<close>

definition install_writes :: "u32 \<Rightarrow> (u32 \<Rightarrow> bytes) \<Rightarrow> nat \<Rightarrow> (u32 \<times> bytes) list" where
  "install_writes st D n = map (\<lambda>t. (home_blocks st D t, D (log_blk st (Suc t)))) [0..<n]"

lemma install_prefix:
  assumes h: "log_holds st D n" and k: "k \<le> n"
  defines "E \<equiv> apply_writes D (take k (install_writes st D n))"
  shows "\<And>b. in_log st b \<Longrightarrow> E b = D b" "\<And>b. \<not> in_log st b \<Longrightarrow> E b = (if \<exists>t<k. home_blocks st D t = b then recovered st D b else D b)"
proof -
  let ?ws = "take k (install_writes st D n)"
  have ws: "?ws = map (\<lambda>t. (home_blocks st D t, D (log_blk st (Suc t)))) [0..<k]"
    using k by (simp add: install_writes_def take_map)
  have keys: "fst ` set ?ws = home_blocks st D ` {..<k}" unfolding ws by force
  have dist: "distinct (map fst ?ws)" using h k unfolding ws
    by (auto simp: distinct_map log_holds_def comp_def intro: inj_on_subset)
  show "E b = D b" if "in_log st b" for b
    unfolding E_def using h k that by (intro apply_writes_out) (auto simp: keys log_holds_def)
  show "E b = (if \<exists>t<k. home_blocks st D t = b then recovered st D b else D b)" if "\<not> in_log st b" for b
  proof (cases "\<exists>t<k. home_blocks st D t = b")
    case True
    then obtain t where t: "t < k" "home_blocks st D t = b" by blast
    have "(b, D (log_blk st (Suc t))) \<in> set ?ws" unfolding ws using t by force
    then have "E b = D (log_blk st (Suc t))" unfolding E_def by (rule apply_writes_in [OF _ dist])
    then show ?thesis using recovered_home(1) [OF h, of t] t k True by auto
  next
    case False
    then have "E b = D b" unfolding E_def by (intro apply_writes_out) (auto simp: keys)
    then show ?thesis unfolding if_not_P [OF False] .
  qed
qed

lemma install_keeps_recovered:
  assumes h: "log_holds st D n" and h0: "hb_n h0 = 0" and k: "k \<le> Suc n"
  defines "E \<equiv> apply_writes D (take k (install_writes st D n @ [(st, h0)]))"
  shows "log_ok st E \<and> (\<forall>b. \<not> in_log st b \<longrightarrow> recovered st E b = recovered st D b)"
proof (cases "k = Suc n")
  case True
  have len: "length (install_writes st D n) = n" by (simp add: install_writes_def)
  then have E: "E = (apply_writes D (take n (install_writes st D n)))(st := h0)" using True by (simp add: E_def)
  then have z: "hb_n (E st) = 0" using h0 by simp
  then have "log_holds st E 0" by (simp add: log_holds_def NBUF_def)
  moreover have "recovered st E b = recovered st D b" if "\<not> in_log st b" for b
  proof -
    have "b \<noteq> st" using that by auto
    then have "E b = (if \<exists>t<n. home_blocks st D t = b then recovered st D b else D b)"
      using install_prefix(2) [OF h le_refl that] E by simp
    then show ?thesis using recovered_empty [of E st b] z recovered_home(2) [OF h, of b] by auto
  qed
  ultimately show ?thesis by (auto simp: log_ok_def)
next
  case False
  then have k': "k \<le> n" using k by simp
  have E: "E = apply_writes D (take k (install_writes st D n))" using k' by (simp add: E_def install_writes_def)
  note p = install_prefix [OF h k', folded E]
  have hb: "home_blocks st E = home_blocks st D" "E st = D st" using p(1) [of st] by (simp_all add: home_blocks_def)
  have hE: "log_holds st E n" using h hb by (simp add: log_holds_def)
  have "recovered st E b = recovered st D b" if "\<not> in_log st b" for b
  proof (cases "\<exists>t<n. home_blocks st D t = b")
    case True
    then obtain t where t: "t < n" "home_blocks st D t = b" by blast
    have "Suc t < LOGSIZE" using t(1) log_holds_LOGSIZE [OF h] by simp
    then have "E (log_blk st (Suc t)) = D (log_blk st (Suc t))" by (intro p(1)) simp
    then show ?thesis using recovered_home(1) [OF hE t(1)] recovered_home(1) [OF h t(1)] t(2) hb(1) by simp
  next
    case False
    then have "recovered st E b = E b" "recovered st D b = D b" using recovered_home(2) hE h hb(1) by auto
    moreover have no: "\<not> (\<exists>t<k. home_blocks st D t = b)" using False less_le_trans [OF _ k'] by blast
    ultimately show ?thesis using p(2) [OF that] unfolding if_not_P [OF no] by simp
  qed
  then show ?thesis using hE by (auto simp: log_ok_def)
qed

subsection \<open>Recovery\<close>

text \<open>The buffer cache at boot: zeroed memory, initialised by \<^verbatim>\<open>binit\<close>, over the disk \<open>D\<close>.\<close>

definition zero_buf :: buf where
  "zero_buf = \<lparr>b_valid = False, b_dev = 0, b_blockno = 0, b_lock = \<lparr>sk_locked = False, sk_pid = 0\<rparr>, b_refcnt = 0,
     b_prev = 0, b_next = 0, b_data = (\<lambda>_. 0)\<rparr>"

definition cold :: "(u32 \<Rightarrow> bytes) \<Rightarrow> bcache" where
  "cold D = binit \<lparr>bc_buf = (\<lambda>_. zero_buf), bc_disk = D, bc_writes = []\<rparr>"

lemma binit_step:
  assumes "ring (bnext s) (bprev s) NBUF xs" "b \<notin> set xs" "b \<noteq> NBUF"
  shows "ring (bnext (link_front (set_buf s b (\<lambda>x. x\<lparr>b_lock := lk\<rparr>)) b)) (bprev (link_front (set_buf s b (\<lambda>x. x\<lparr>b_lock := lk\<rparr>)) b)) NBUF (b # xs)"
proof -
  have "bnext (set_buf s b (\<lambda>x. x\<lparr>b_lock := lk\<rparr>)) = bnext s" "bprev (set_buf s b (\<lambda>x. x\<lparr>b_lock := lk\<rparr>)) = bprev s"
    by (auto simp: fun_eq_iff)
  then show ?thesis using assms by (intro bring_link_front) simp_all
qed

lemma binit_fold:
  assumes "k \<le> NBUF" "\<And>i. core (bc_buf s i) = core zero_buf" "bnext s NBUF = NBUF" "bprev s NBUF = NBUF"
  defines "t \<equiv> fold (\<lambda>b s. link_front (set_buf s b (\<lambda>x. x\<lparr>b_lock := initsleeplock\<rparr>)) b) [0..<k] s"
  shows "ring (bnext t) (bprev t) NBUF (rev [0..<k]) \<and> (\<forall>i. core (bc_buf t i) = core zero_buf) \<and> bc_disk t = bc_disk s \<and> bc_writes t = bc_writes s"
  unfolding t_def using assms(1)
proof (induction k)
  case 0
  then show ?case using assms(2-4) by (simp add: ring_def)
next
  case (Suc k)
  let ?t = "fold (\<lambda>b s. link_front (set_buf s b (\<lambda>x. x\<lparr>b_lock := initsleeplock\<rparr>)) b) [0..<k] s"
  have IH: "ring (bnext ?t) (bprev ?t) NBUF (rev [0..<k])" "\<forall>i. core (bc_buf ?t i) = core zero_buf" "bc_disk ?t = bc_disk s" "bc_writes ?t = bc_writes s"
    using Suc by simp_all
  have r: "ring (bnext (link_front (set_buf ?t k (\<lambda>x. x\<lparr>b_lock := initsleeplock\<rparr>)) k))
        (bprev (link_front (set_buf ?t k (\<lambda>x. x\<lparr>b_lock := initsleeplock\<rparr>)) k)) NBUF (k # rev [0..<k])"
    using Suc.prems by (intro binit_step IH(1)) simp_all
  have "core ((bc_buf ?t k)\<lparr>b_lock := initsleeplock\<rparr>) = core zero_buf"
    using IH(2) by (simp add: core_eq_iff zero_buf_def initsleeplock_def)
  then show ?case using r IH by (simp add: core_relink)
qed

lemma cold_shape:
  shows "bring (cold D) (rev [0..<NBUF])" "bc_disk (cold D) = D" "bc_writes (cold D) = []"
    and cold_buf [simp]: "\<not> b_valid (bc_buf (cold D) i)" "b_dev (bc_buf (cold D) i) = 0"
      "b_lock (bc_buf (cold D) i) = initsleeplock" "b_refcnt (bc_buf (cold D) i) = 0"
proof -
  let ?s = "set_buf \<lparr>bc_buf = (\<lambda>_. zero_buf), bc_disk = D, bc_writes = []\<rparr> NBUF (\<lambda>x. x\<lparr>b_prev := NBUF, b_next := NBUF\<rparr>)"
  have "ring (bnext (cold D)) (bprev (cold D)) NBUF (rev [0..<NBUF]) \<and> (\<forall>i. core (bc_buf (cold D) i) = core zero_buf) \<and>
      bc_disk (cold D) = bc_disk ?s \<and> bc_writes (cold D) = bc_writes ?s"
    unfolding cold_def binit_def by (rule binit_fold) (simp_all add: core_def)
  then have r: "ring (bnext (cold D)) (bprev (cold D)) NBUF (rev [0..<NBUF])" and co: "core (bc_buf (cold D) i) = core zero_buf"
    and D: "bc_disk (cold D) = D" "bc_writes (cold D) = []" by simp_all
  then show "bc_disk (cold D) = D" "bc_writes (cold D) = []" "bring (cold D) (rev [0..<NBUF])" by (auto simp: bring_def)
  show "\<not> b_valid (bc_buf (cold D) i)" "b_dev (bc_buf (cold D) i) = 0" "b_lock (bc_buf (cold D) i) = initsleeplock" "b_refcnt (bc_buf (cold D) i) = 0"
    using co by (simp_all add: core_eq_iff zero_buf_def initsleeplock_def)
qed

lemma cold_ok:
  assumes "d \<noteq> 0"
  shows "bio_ok c d (cold D) {}" "unused (cold D) = {..<NBUF}" "unpinned (cold D) d b" "bc_disk (cold D) = D" "bc_writes (cold D) = []"
proof -
  have nh: "\<not> holds_block (cold D) d x i" for x i using assms by (simp add: holds_block_def)
  show "bio_ok c d (cold D) {}" using cold_shape(1) nh by (intro bio_okI) auto
  show "unused (cold D) = {..<NBUF}" by (auto simp: unused_def)
  show "unpinned (cold D) d b" using nh by (simp add: unpinned_def)
qed (rule cold_shape)+

lemma recover_from_log_writes:
  assumes g: "good_caller c" and lg: "st = lg_start (fs_log f)" "d = lg_dev (fs_log f)" and s: "fs_bc f = cold D" and d: "d \<noteq> 0"
    and h: "log_holds st D n"
  shows "\<exists>f' h0. recover_from_log c f = Ret f' \<and> hb_n h0 = 0 \<and> wrote (cold D) (fs_bc f') (install_writes st D n @ [(st, h0)]) \<and>
     bio_ok c d (fs_bc f') {} \<and> (\<forall>t<n. \<exists>b. holds_block (fs_bc f') d (home_blocks st D t) b \<and> b_refcnt (bc_buf (fs_bc f') b) = - 1)"
proof -
  note cold = cold_ok [OF d]
  have nL: "n < LOGSIZE" "n < NBUF" using log_holds_LOGSIZE [OF h] h by (simp_all add: log_holds_def)
  have hn: "hb_n (bc_disk (fs_bc f) (lg_start (fs_log f))) = int n" using h lg s cold(4) by (simp add: log_holds_def)
  have ok0: "bio_ok c (lg_dev (fs_log f)) (fs_bc f) {}" "log_idle f" "unused (fs_bc f) \<noteq> {}"
    using cold(1,2,3) s lg nL(2) by (auto simp: log_idle_def)
  obtain lg1 s1 where r: "read_head c f = Ret \<lparr>fs_log = lg1, fs_bc = s1\<rparr>" "bio_ok c d s1 {}" "same_refs (cold D) s1"
     "wrote (cold D) s1 []" "lg_start lg1 = st" "lg_dev lg1 = d" "lg_n lg1 = int n"
     "\<forall>i<n. lg_block lg1 i = home_blocks st D i"
    using read_head_reads [OF g ok0 hn] nL lg s cold(4) by (auto simp: home_blocks_def)
  let ?f1 = "\<lparr>fs_log = lg1, fs_bc = s1\<rparr>"
  have D1: "bc_disk s1 = D" using r(4) cold(4) by (simp add: wrote_def)
  have u: "unpinned s1 d b" for b using same_refs_unpinned [OF r(3) cold(3)] .
  have idle: "log_idle ?f1" using u r(6) by (simp add: log_idle_def)
  have "{t. 0 \<le> t \<and> t < n \<and> unpinned s1 d (lg_block lg1 t)} = {..<n}" using u by auto
  then have ready: "install_ready s1 d (lg_block lg1) 0 n"
    using u same_refs_unused [OF r(3)] cold(2) nL(2) by (simp add: install_ready_def)
  have inj: "inj_on (lg_block lg1) {..<n}" "\<forall>t<n. \<not> in_log st (lg_block lg1 t)"
    using h r(8) by (auto simp: log_holds_def inj_on_def)
  obtain s2 where s2: "install_trans_loop n c ?f1 0 = Ret (?f1\<lparr>fs_bc := s2\<rparr>)" "bio_ok c d s2 {}" "log_idle (?f1\<lparr>fs_bc := s2\<rparr>)" "unused s2 \<noteq> {}"
     "wrote s1 s2 (map (\<lambda>t. (lg_block lg1 t, bc_disk s1 (log_blk st (Suc t)))) [0..<n])"
     "\<forall>t. 0 \<le> t \<and> t < n \<and> unpinned s1 d (lg_block lg1 t) \<longrightarrow> (\<exists>b. holds_block s2 d (lg_block lg1 t) b \<and> b_refcnt (bc_buf s2 b) = - 1)"
    using install_trans_loop_writes [OF g _ _ _ _ inj, of ?f1 d 0 n] nL r(2,5,6) idle ready by auto
  have ws: "map (\<lambda>t. (lg_block lg1 t, bc_disk s1 (log_blk st (Suc t)))) [0..<n] = install_writes st D n"
    using r(8) D1 by (simp add: install_writes_def)
  have i: "install_trans c ?f1 = Ret (?f1\<lparr>fs_bc := s2\<rparr>)" using s2(1) r(7) by (simp add: install_trans_def)
  let ?f2 = "\<lparr>fs_log = lg1\<lparr>lg_n := 0\<rparr>, fs_bc = s2\<rparr>"
  obtain s3 h0 where w: "write_head c ?f2 = Ret (?f2\<lparr>fs_bc := s3\<rparr>)" "bio_ok c d s3 {}" "same_refs s2 s3" "wrote s2 s3 [(st, h0)]" "hb_n h0 = 0"
    using write_head_writes [OF g, of ?f2 0] s2(2,3,4) r(5,6) by (auto simp: log_idle_def head_of_def)
  have "recover_from_log c f = Ret (?f2\<lparr>fs_bc := s3\<rparr>)" using r(1) i w(1) by (simp add: recover_from_log_def)
  moreover have "wrote (cold D) s3 (install_writes st D n @ [(st, h0)])"
    using wrote_trans [OF wrote_trans [OF r(4) s2(5) [unfolded ws]] w(4)] by simp
  moreover have "\<exists>b. holds_block s3 d (home_blocks st D t) b \<and> b_refcnt (bc_buf s3 b) = - 1" if t: "t < n" for t
  proof -
    obtain b where b: "holds_block s2 d (home_blocks st D t) b" "b_refcnt (bc_buf s2 b) = - 1"
      using s2(6) t u r(8) by (metis le0)
    then have "holds_block s3 d (home_blocks st D t) b" "b_refcnt (bc_buf s3 b) = - 1"
      using same_refs_holds [OF w(3), of b] w(3) by (auto simp: same_refs_def holds_block_def)
    then show ?thesis by blast
  qed
  ultimately show ?thesis using w(2,5) by auto
qed

end
