(* ===== verification/Recovery.thy ===== *)
theory Recovery
  imports Crash
begin

text \<open>
  The theorems on the log (kernel/fs/log.c): a commit is atomic at a crash after any of its block writes, recovery
  can itself be interrupted anywhere, and what recovery leaves behind in the buffer cache.
\<close>

subsection \<open>Booting after a crash\<close>

definition boot :: "log \<Rightarrow> (u32 \<Rightarrow> bytes) \<Rightarrow> fsys" where
  "boot lg D = \<lparr>fs_log = lg, fs_bc = cold D\<rparr>"

lemma initlog_writes:
  assumes "good_caller c" "d \<noteq> 0" "log_holds st D n"
  shows "\<exists>g h0. initlog c (boot lg D) d st nlog = Ret g \<and> hb_n h0 = 0 \<and> wrote (cold D) (fs_bc g) (install_writes st D n @ [(st, h0)]) \<and>
     bio_ok c d (fs_bc g) {} \<and> (\<forall>t<n. \<exists>b. holds_block (fs_bc g) d (home_blocks st D t) b \<and> b_refcnt (bc_buf (fs_bc g) b) = - 1)"
proof -
  have "\<not> 4 + 4 * LOGSIZE \<ge> BSIZE" by (simp add: LOGSIZE_def MAXOPBLOCKS_def BSIZE_def)
  then show ?thesis
    using recover_from_log_writes [OF assms(1) _ _ _ assms(2,3),
        of "boot (lg\<lparr>lg_start := st, lg_size := sint nlog, lg_dev := d\<rparr>) D"]
    by (simp add: initlog_def boot_def)
qed

lemma length_install_writes [simp]: "length (install_writes st D n) = n"
  by (simp add: install_writes_def)

lemma initlog_recovers:
  assumes "good_caller c" "d \<noteq> 0" "log_ok st D"
  shows "\<exists>g. initlog c (boot lg D) d st nlog = Ret g \<and> hb_n (bc_disk (fs_bc g) st) = 0 \<and>
     (\<forall>b. \<not> in_log st b \<longrightarrow> bc_disk (fs_bc g) b = recovered st D b) \<and>
     (\<forall>k\<le>length (bc_writes (fs_bc g)). let E = apply_writes D (take k (bc_writes (fs_bc g))) in
        log_ok st E \<and> (\<forall>b. \<not> in_log st b \<longrightarrow> recovered st E b = recovered st D b))"
proof -
  obtain n where n: "log_holds st D n" using assms(3) by (auto simp: log_ok_def)
  obtain g h0 where g: "initlog c (boot lg D) d st nlog = Ret g" "hb_n h0 = 0" "wrote (cold D) (fs_bc g) (install_writes st D n @ [(st, h0)])"
    using initlog_writes [OF assms(1,2) n] by blast
  let ?ws = "install_writes st D n @ [(st, h0)]"
  have d: "bc_disk (fs_bc g) = apply_writes D ?ws" "bc_writes (fs_bc g) = ?ws"
    using g(3) cold_ok(4,5) [OF assms(2)] by (simp_all add: wrote_def)
  have z: "hb_n (bc_disk (fs_bc g) st) = 0" using d(1) g(2) by simp
  have "bc_disk (fs_bc g) b = recovered st D b" if "\<not> in_log st b" for b
  proof -
    have "recovered st (bc_disk (fs_bc g)) b = recovered st D b"
      using install_keeps_recovered [OF n g(2), of "Suc n"] that d(1) by simp
    then show ?thesis using recovered_empty [of "bc_disk (fs_bc g)" st b] z by simp
  qed
  then show ?thesis using g(1) z install_keeps_recovered [OF n g(2)] d(2) by (auto simp: Let_def)
qed

subsection \<open>Commit\<close>

text \<open>
  A commit can start: the log holds \<open>n\<close> different home blocks, pinned in the cache with the contents \<open>dat\<close>, nobody holds a
  buffer, and the log on disk is empty.
\<close>

definition commit_ready :: "caller \<Rightarrow> fsys \<Rightarrow> nat \<Rightarrow> (nat \<Rightarrow> bytes) \<Rightarrow> bool" where
  "commit_ready c f n dat \<longleftrightarrow>
     (let lg = fs_log f; s = fs_bc f; d = lg_dev lg in
      good_caller c \<and> 0 < n \<and> n < NBUF \<and> lg_n lg = int n \<and> d \<noteq> 0 \<and> bio_ok c d s {} \<and> log_idle f \<and> unused s \<noteq> {} \<and>
      inj_on (lg_block lg) {..<n} \<and> (\<forall>t<n. \<not> in_log (lg_start lg) (lg_block lg t) \<and> pinned s d (lg_block lg t) (dat t)) \<and>
      hb_n (bc_disk s (lg_start lg)) = 0)"

text \<open>The disk the system calls of the transaction meant to write.\<close>

definition committed :: "fsys \<Rightarrow> nat \<Rightarrow> (nat \<Rightarrow> bytes) \<Rightarrow> u32 \<Rightarrow> bytes" where
  "committed f n dat b =
     (case map_of (map (\<lambda>t. (lg_block (fs_log f) t, dat t)) [0..<n]) b of
        None \<Rightarrow> bc_disk (fs_bc f) b
      | Some v \<Rightarrow> v)"

definition log_writes :: "u32 \<Rightarrow> nat \<Rightarrow> (nat \<Rightarrow> bytes) \<Rightarrow> (u32 \<times> bytes) list" where
  "log_writes st n dat = map (\<lambda>t. (log_blk st (Suc t), dat t)) [0..<n]"

lemma log_writes_prefix:
  assumes "n < LOGSIZE" "k \<le> n"
  shows "\<not> in_log st b \<Longrightarrow> apply_writes D (take k (log_writes st n dat)) b = D b"
    "apply_writes D (take k (log_writes st n dat)) st = D st"
    "t < n \<Longrightarrow> apply_writes D (log_writes st n dat) (log_blk st (Suc t)) = dat t"
proof -
  have ws: "take k (log_writes st n dat) = map (\<lambda>t. (log_blk st (Suc t), dat t)) [0..<k]"
    using assms(2) by (simp add: log_writes_def take_map)
  then have keys: "fst ` set (take k (log_writes st n dat)) = (\<lambda>t. log_blk st (Suc t)) ` {..<k}" by force
  show "apply_writes D (take k (log_writes st n dat)) b = D b" if "\<not> in_log st b"
    using that assms by (intro apply_writes_out) (auto simp: keys)
  have "st \<noteq> log_blk st (Suc t)" if "t < k" for t
    using log_blk_inj [of 0 "Suc t" st] that assms by (simp add: log_blk_def)
  then show "apply_writes D (take k (log_writes st n dat)) st = D st"
    by (intro apply_writes_out) (auto simp: keys)
  have "inj_on (\<lambda>t. log_blk st (Suc t)) {0..<n}" using assms(1) by (auto simp: inj_on_def log_blk_inj)
  then have "distinct (map fst (log_writes st n dat))" by (simp add: log_writes_def distinct_map comp_def)
  then show "apply_writes D (log_writes st n dat) (log_blk st (Suc t)) = dat t" if "t < n"
    using that by (intro apply_writes_in) (auto simp: log_writes_def)
qed

lemma commit_writes:
  assumes "commit_ready c f n dat"
  defines "st \<equiv> lg_start (fs_log f)" and "D \<equiv> bc_disk (fs_bc f)"
  shows "\<exists>f' h1 h0. commit c f = Ret f' \<and> lg_n (fs_log f') = 0 \<and> bio_ok c (lg_dev (fs_log f)) (fs_bc f') {} \<and>
     log_holds st (apply_writes D (log_writes st n dat @ [(st, h1)])) n \<and> home_blocks st (apply_writes D (log_writes st n dat @ [(st, h1)])) = hb_block h1 \<and>
     (\<forall>t<n. hb_block h1 t = lg_block (fs_log f) t) \<and> hb_n h0 = 0 \<and>
     wrote (fs_bc f) (fs_bc f') (log_writes st n dat @ [(st, h1)] @
        install_writes st (apply_writes D (log_writes st n dat @ [(st, h1)])) n @ [(st, h0)])"
proof -
  let ?lg = "fs_log f" and ?s = "fs_bc f" and ?d = "lg_dev (fs_log f)"
  have g: "good_caller c" and n: "0 < n" "n < NBUF" "lg_n ?lg = int n" and ok: "bio_ok c ?d ?s {}" "log_idle f" "unused ?s \<noteq> {}"
    and home: "inj_on (lg_block ?lg) {..<n}" "\<forall>t<n. \<not> in_log st (lg_block ?lg t)" and pin: "\<forall>t<n. pinned ?s ?d (lg_block ?lg t) (dat t)"
    using assms(1) by (auto simp: commit_ready_def Let_def st_def)
  have nL: "n < LOGSIZE" using n(2) by (simp add: NBUF_def LOGSIZE_def MAXOPBLOCKS_def)
  obtain s1 where s1: "write_log_loop n c f 0 = Ret (f\<lparr>fs_bc := s1\<rparr>)" "bio_ok c ?d s1 {}" "same_refs ?s s1" "wrote ?s s1 (log_writes st n dat)"
    using write_log_loop_writes [OF g nL, of st f ?d 0 n dat] ok home(2) pin by (auto simp: st_def log_writes_def)
  let ?f1 = "f\<lparr>fs_bc := s1\<rparr>"
  have idle1: "log_idle ?f1" by (rule same_refs_log_idle [OF ok(2) s1(3)])
  have u1: "unused s1 \<noteq> {}" using same_refs_unused [OF s1(3)] ok(3) by simp
  obtain s2 h1 where s2: "write_head c ?f1 = Ret (?f1\<lparr>fs_bc := s2\<rparr>)" "bio_ok c ?d s2 {}" "same_refs s1 s2" "wrote s1 s2 [(st, h1)]" "head_of ?lg n h1"
    using write_head_writes [OF g, of ?f1 n] s1(2) idle1 u1 n(3) nL by (auto simp: st_def)
  let ?f2 = "f\<lparr>fs_bc := s2\<rparr>"
  have r2: "same_refs ?s s2" by (rule same_refs_trans [OF s1(3) s2(3)])
  have idle2: "log_idle ?f2" using same_refs_log_idle [OF idle1, of s2] s2(3) by simp
  have pin2: "pinned s2 ?d (lg_block ?lg t) (dat t)" if "t < n" for t using same_refs_pinned [OF r2] pin that by blast
  have none: "{t. 0 \<le> t \<and> t < n \<and> unpinned s2 ?d (lg_block ?lg t)} = {}" using pin2 pinned_not_unpinned by blast
  have "0 < card (unused s2)" using same_refs_unused [OF r2] ok(3) by (simp add: card_gt_0_iff)
  then have ready: "install_ready s2 ?d (lg_block ?lg) 0 n" unfolding install_ready_def none using pin2 by auto
  let ?E = "apply_writes D (log_writes st n dat @ [(st, h1)])"
  have E: "bc_disk s2 = ?E" "?E st = h1" using s1(4) s2(4) by (simp_all add: wrote_def D_def)
  obtain s3 where s3: "install_trans_loop n c ?f2 0 = Ret (?f2\<lparr>fs_bc := s3\<rparr>)" "bio_ok c ?d s3 {}" "log_idle (?f2\<lparr>fs_bc := s3\<rparr>)" "unused s3 \<noteq> {}"
     "wrote s2 s3 (map (\<lambda>t. (lg_block ?lg t, bc_disk s2 (log_blk st (Suc t)))) [0..<n])"
    using install_trans_loop_writes [OF g nL _ _ _ home, of ?f2 ?d 0 n] s2(2) idle2 ready by (auto simp: st_def)
  have hb: "home_blocks st ?E = hb_block h1" "\<forall>t<n. hb_block h1 t = lg_block ?lg t" "hb_n h1 = int n"
    using E(2) s2(5) by (simp_all add: home_blocks_def head_of_def)
  have ws: "map (\<lambda>t. (lg_block ?lg t, bc_disk s2 (log_blk st (Suc t)))) [0..<n] = install_writes st ?E n"
    using hb E(1) by (simp add: install_writes_def)
  have "inj_on (hb_block h1) {..<n}" using home(1) hb(2) by (auto simp: inj_on_def)
  then have holds: "log_holds st ?E n" unfolding log_holds_def hb(1) E(2) using home(2) hb(2,3) n(2) by simp
  let ?f3 = "\<lparr>fs_log = ?lg\<lparr>lg_n := 0\<rparr>, fs_bc = s3\<rparr>"
  obtain s4 h0 where s4: "write_head c ?f3 = Ret (?f3\<lparr>fs_bc := s4\<rparr>)" "bio_ok c ?d s4 {}" "wrote s3 s4 [(st, h0)]" "hb_n h0 = 0"
    using write_head_writes [OF g, of ?f3 0] s3(2,3,4) by (auto simp: log_idle_def head_of_def st_def)
  have f3: "f\<lparr>fs_bc := s3, fs_log := ?lg\<lparr>lg_n := 0\<rparr>\<rparr> = ?f3" by (cases f) simp
  have "commit c f = Ret (?f3\<lparr>fs_bc := s4\<rparr>)"
    using n(1,3) s1(1) s2(1) s3(1) s4(1) by (simp add: commit_def write_log_def install_trans_def f3)
  moreover have "wrote ?s s4 (log_writes st n dat @ [(st, h1)] @ install_writes st ?E n @ [(st, h0)])"
    using wrote_trans [OF wrote_trans [OF wrote_trans [OF s1(4) s2(4)] s3(5) [unfolded ws]] s4(3)] by simp
  ultimately show ?thesis using s4(2,4) holds hb by (intro exI [of _ "?f3\<lparr>fs_bc := s4\<rparr>"] exI [of _ h1] exI [of _ h0]) simp
qed

lemma recovered_committed:
  assumes "log_holds st E n" "home_blocks st E = hb_block h1" "\<forall>t<n. hb_block h1 t = lg_block (fs_log f) t"
    and E: "\<forall>t<n. E (log_blk st (Suc t)) = dat t" "\<And>b. \<not> in_log st b \<Longrightarrow> E b = bc_disk (fs_bc f) b" and b: "\<not> in_log st b"
  shows "recovered st E b = committed f n dat b"
proof (cases "map_of (map (\<lambda>t. (lg_block (fs_log f) t, dat t)) [0..<n]) b")
  case None
  then have "\<forall>t<n. home_blocks st E t \<noteq> b" using assms(2,3) by (force simp: map_of_eq_None_iff)
  then show ?thesis using recovered_home(2) [OF assms(1)] E(2) [OF b] None by (simp add: committed_def)
next
  case (Some v)
  then obtain t where t: "t < n" "lg_block (fs_log f) t = b" "dat t = v" by (auto dest!: map_of_SomeD)
  then have "recovered st E b = dat t" using recovered_home(1) [OF assms(1) t(1)] assms(2,3) E(1) by simp
  then show ?thesis using Some t(3) by (simp add: committed_def)
qed

text \<open>Whatever prefix of the writes of a commit reached the disk, recovery finds all old or all new contents.\<close>

lemma commit_crash_points:
  assumes f: "commit_ready c f n dat" and k: "k \<le> 2 * n + 2"
    and E: "log_holds st (apply_writes D (log_writes st n dat @ [(st, h1)])) n" "home_blocks st (apply_writes D (log_writes st n dat @ [(st, h1)])) = hb_block h1"
      "\<forall>t<n. hb_block h1 t = lg_block (fs_log f) t" "hb_n h0 = 0"
    and st: "st = lg_start (fs_log f)" "D = bc_disk (fs_bc f)"
  defines "Dk \<equiv> apply_writes D (take k (log_writes st n dat @ [(st, h1)] @ install_writes st (apply_writes D (log_writes st n dat @ [(st, h1)])) n @ [(st, h0)]))"
  shows "log_ok st Dk \<and> (\<forall>b. \<not> in_log st b \<longrightarrow> recovered st Dk b = (if k \<le> n then D b else committed f n dat b))"
proof -
  let ?E = "apply_writes D (log_writes st n dat @ [(st, h1)])"
  have nL: "n < LOGSIZE" using log_holds_LOGSIZE [OF E(1)] by simp
  have z: "hb_n (D st) = 0" using f st by (simp add: commit_ready_def Let_def)
  have len: "length (log_writes st n dat) = n" by (simp add: log_writes_def)
  show ?thesis
  proof (cases "k \<le> n")
    case True
    have Dk: "Dk = apply_writes D (take k (log_writes st n dat))" using True len by (simp add: Dk_def)
    have zk: "hb_n (Dk st) = 0" using log_writes_prefix(2) [OF nL True] z by (simp add: Dk)
    then have "log_holds st Dk 0" by (simp add: log_holds_def NBUF_def)
    moreover have "recovered st Dk b = D b" if "\<not> in_log st b" for b
      using recovered_empty [of Dk st b] zk log_writes_prefix(1) [OF nL True that] by (simp add: Dk)
    ultimately show ?thesis using True by (auto simp: log_ok_def)
  next
    case False
    then obtain j where j: "k = n + Suc j" by (metis add_Suc_right less_imp_Suc_add not_le)
    have Dk: "Dk = apply_writes ?E (take j (install_writes st ?E n @ [(st, h0)]))" using j len by (simp add: Dk_def)
    have keep: "log_ok st Dk" "\<And>b. \<not> in_log st b \<Longrightarrow> recovered st Dk b = recovered st ?E b"
      using install_keeps_recovered [OF E(1,4), of j] k j by (simp_all add: Dk)
    have lw: "?E (log_blk st (Suc t)) = dat t" if "t < n" for t
      using log_writes_prefix(3) [OF nL le_refl that] log_blk_inj [of "Suc t" 0 st] that nL by (simp add: log_blk_tail)
    have out: "?E b = bc_disk (fs_bc f) b" if "\<not> in_log st b" for b
      using log_writes_prefix(1) [OF nL le_refl that, of D dat] len that st(2) by auto
    have "recovered st ?E b = committed f n dat b" if "\<not> in_log st b" for b
      using lw out by (intro recovered_committed [OF E(1-3) _ _ that]) auto
    then show ?thesis using keep False by simp
  qed
qed

subsection \<open>Properties\<close>


text \<open>An example: a transaction of block 40 on a zeroed disk, with the log at block 2.\<close>

definition one_tx :: fsys where
  "one_tx =
     \<lparr>fs_log = \<lparr>lg_start = 2, lg_size = 31, lg_outstanding = 0, lg_committing = True, lg_dev = 1, lg_n = 1, lg_block = (\<lambda>_. 40)\<rparr>,
      fs_bc = set_buf (cold (\<lambda>_ _. 0)) 0
        (\<lambda>x. x\<lparr>b_valid := True, b_dev := 1, b_blockno := 40, b_refcnt := 1, b_data := (\<lambda>_. 7)\<rparr>)\<rparr>"

lemma not_in_log:
  assumes "unat st + LOGSIZE < unat b"
  shows "\<not> in_log st b"
proof
  assume "in_log st b"
  then obtain k where k: "k < LOGSIZE" "b = st + of_nat k" by (auto simp: in_log_def log_blk_def)
  have "unat b \<le> unat st + unat (of_nat k :: u32)" unfolding k(2) unat_word_ariths(1) by (rule mod_less_eq_dividend)
  also have "unat (of_nat k :: u32) \<le> k" by (simp add: unat_of_nat)
  finally show False using assms k(1) by simp
qed

lemma one_tx_ready: "commit_ready (Some 1, 0) one_tx 1 (\<lambda>_ _. 7)"
proof -
  let ?s = "fs_bc one_tx" and ?D = "(\<lambda>_ _. 0) :: u32 \<Rightarrow> bytes"
  have b: "bc_buf ?s i = (if i = 0 then (bc_buf (cold ?D) 0)\<lparr>b_valid := True, b_dev := 1, b_blockno := 40, b_refcnt := 1, b_data := (\<lambda>_. 7)\<rparr> else bc_buf (cold ?D) i)" for i
    by (simp add: one_tx_def)
  have D: "bc_disk ?s = ?D" by (simp add: one_tx_def cold_shape)
  have h: "holds_block ?s 1 x i \<longleftrightarrow> i = 0 \<and> x = 40" for x i by (auto simp: holds_block_def b NBUF_def)
  have ring: "\<exists>xs. bring ?s xs" unfolding one_tx_def using cold_shape(1) by (simp, intro bring_set_buf) auto
  have ok: "bio_ok (Some 1, 0) 1 ?s {}" using ring h by (intro bio_okI) (auto simp: b split: if_splits)
  have un: "1 \<in> unused ?s" by (simp add: unused_def b NBUF_def)
  have nl: "\<not> in_log 2 40" by (rule not_in_log) (simp add: LOGSIZE_def MAXOPBLOCKS_def)
  then have idle: "log_idle one_tx" using h by (auto simp: log_idle_def unpinned_def one_tx_def)
  have pin: "pinned ?s 1 40 (\<lambda>_. 7)" unfolding pinned_def h by (simp add: b)
  have hn: "hb_n (\<lambda>_. 0) = 0" by (simp add: hb_n_def load32_def)
  have lg: "lg_dev (fs_log one_tx) = 1" "lg_start (fs_log one_tx) = 2" "lg_n (fs_log one_tx) = 1" "lg_block (fs_log one_tx) = (\<lambda>_. 40)"
    by (simp_all add: one_tx_def)
  show ?thesis unfolding commit_ready_def Let_def lg
    using ok un idle nl pin hn D by (auto simp: good_caller_def NBUF_def inj_on_def)
qed


text \<open>C2: recovery can be interrupted: on a disk whose log holds a well-formed transaction, \<^verbatim>\<open>initlog\<close> returns with every
  block outside the log as the log says and with the log empty, and after any prefix of its block writes a new start of
  recovery would find the same contents again.\<close>

theorem recovery_restartable:
  assumes "good_caller c" "d \<noteq> 0" "log_ok st D"
  shows "\<exists>g. initlog c (boot lg D) d st nlog = Ret g \<and> hb_n (bc_disk (fs_bc g) st) = 0 \<and>
     (\<forall>b. \<not> in_log st b \<longrightarrow> bc_disk (fs_bc g) b = recovered st D b) \<and>
     (\<forall>k\<le>length (bc_writes (fs_bc g)). let E = apply_writes D (take k (bc_writes (fs_bc g))) in
        log_ok st E \<and> (\<forall>b. \<not> in_log st b \<longrightarrow> recovered st E b = recovered st D b))"
  by (rule initlog_recovers [OF assms])

text \<open>A disk that crashed after the commit point: header with block 40 in block 2, its new contents in block 3.\<close>

definition crashed_disk :: "u32 \<Rightarrow> bytes" where
  "crashed_disk = (\<lambda>_ _. 0)(2 := store32 (store32 (\<lambda>_. 0) 0 1) 4 40, 3 := (\<lambda>_. 7))"

lemma crashed_disk_holds: "log_holds 2 crashed_disk 1" "recovered 2 crashed_disk 40 = (\<lambda>_. 7)" "home_blocks 2 crashed_disk 0 = 40"
proof -
  have n: "hb_n (crashed_disk 2) = 1" by (simp add: crashed_disk_def hb_n_def mem_simps)
  show hb: "home_blocks 2 crashed_disk 0 = 40" by (simp add: home_blocks_def hb_block_def crashed_disk_def mem_simps)
  have "\<not> in_log 2 40" by (rule not_in_log) (simp add: LOGSIZE_def MAXOPBLOCKS_def)
  then show h: "log_holds 2 crashed_disk 1" using n hb by (simp add: log_holds_def NBUF_def inj_on_def)
  show "recovered 2 crashed_disk 40 = (\<lambda>_. 7)"
    using recovered_home(1) [OF h, of 0] hb by (simp add: log_blk_def crashed_disk_def)
qed

theorem recovery_restartable_witness:
  "\<exists>g. initlog (None, 0) (boot (fs_log one_tx) crashed_disk) 1 2 30 = Ret g \<and> bc_disk (fs_bc g) 40 = (\<lambda>_. 7)"
proof -
  have nl: "\<not> in_log 2 40" by (rule not_in_log) (simp add: LOGSIZE_def MAXOPBLOCKS_def)
  have "good_caller (None, 0)" "(1 :: u32) \<noteq> 0" "log_ok 2 crashed_disk" using crashed_disk_holds(1) by (auto simp: good_caller_def log_ok_def)
  from recovery_restartable [OF this, of "fs_log one_tx" 30] show ?thesis using nl crashed_disk_holds(2) by auto
qed



end
