(* ===== verification/Logspace.thy ===== *)
theory Logspace
  imports Log
begin

text \<open>
  The reservation scheme of the log (\<^verbatim>\<open>begin_op\<close>, \<^verbatim>\<open>log_write\<close>, \<^verbatim>\<open>end_op\<close> of kernel/fs/log.c) for any number of
  concurrent system calls, each of which may log up to \<open>MAXOPBLOCKS\<close> blocks: the log never overflows, and a caller
  of \<^verbatim>\<open>begin_op\<close> gets in once nobody is in a transaction.
\<close>

text \<open>\<open>ops i\<close> is the number of blocks that the running system call \<open>i\<close> has logged.\<close>

type_synonym opsys = "fsys \<times> (nat \<rightharpoonup> nat)"

inductive op_step :: "opsys \<Rightarrow> opsys \<Rightarrow> bool" where
  begin_call: "ops i = None \<Longrightarrow> begin_op (fs_log f) = Some lg \<Longrightarrow> op_step (f, ops) (f\<lparr>fs_log := lg\<rparr>, ops(i \<mapsto> 0))"
| write_call: "ops i = Some k \<Longrightarrow> k < MAXOPBLOCKS \<Longrightarrow> log_write f b = Ret f' \<Longrightarrow> op_step (f, ops) (f', ops(i \<mapsto> Suc k))"
| cache_call: "op_step (f, ops) (f\<lparr>fs_bc := s\<rparr>, ops)"
| end_call: "ops i = Some k \<Longrightarrow> end_op_start (fs_log f) = Ret (lg, do_commit) \<Longrightarrow> op_step (f, ops) (f\<lparr>fs_log := lg\<rparr>, ops(i := None))"
| commit_call: "lg_committing (fs_log f) \<Longrightarrow> commit c f = Ret f' \<Longrightarrow>
    op_step (f, ops) (f'\<lparr>fs_log := (fs_log f')\<lparr>lg_committing := False\<rparr>\<rparr>, ops)"

definition op_start :: "opsys \<Rightarrow> bool" where
  "op_start = (\<lambda>(f, ops). ops = Map.empty \<and> lg_n (fs_log f) = 0 \<and> lg_outstanding (fs_log f) = 0 \<and>
     \<not> lg_committing (fs_log f) \<and> int LOGSIZE < lg_size (fs_log f))"

definition room_left :: "(nat \<rightharpoonup> nat) \<Rightarrow> nat" where
  "room_left ops = (\<Sum>i\<in>dom ops. MAXOPBLOCKS - the (ops i))"

definition op_inv :: "opsys \<Rightarrow> bool" where
  "op_inv = (\<lambda>(f, ops). finite (dom ops) \<and> lg_outstanding (fs_log f) = int (card (dom ops)) \<and> 0 \<le> lg_n (fs_log f) \<and>
     lg_n (fs_log f) + int (room_left ops) \<le> int LOGSIZE \<and> (lg_committing (fs_log f) \<longrightarrow> ops = Map.empty) \<and>
     (ops = Map.empty \<and> \<not> lg_committing (fs_log f) \<longrightarrow> lg_n (fs_log f) = 0) \<and> int LOGSIZE < lg_size (fs_log f))"

subsection \<open>What a commit does to the in-memory log\<close>

lemma write_log_loop_log: "write_log_loop k c f t = Ret f' \<Longrightarrow> fs_log f' = fs_log f"
proof (induction k arbitrary: f t)
  case (Suc k)
  then show ?case by (auto simp: Let_def kres_simps split: prod.splits dest!: Suc.IH)
qed simp

lemma install_trans_loop_log: "install_trans_loop k c f t = Ret f' \<Longrightarrow> fs_log f' = fs_log f"
proof (induction k arbitrary: f t)
  case (Suc k)
  then show ?case by (auto simp: Let_def kres_simps split: prod.splits dest!: Suc.IH)
qed simp

lemma write_head_log: "write_head c f = Ret f' \<Longrightarrow> fs_log f' = fs_log f"
  by (auto simp: write_head_def Let_def kres_simps split: prod.splits)

lemma commit_log: "commit c f = Ret f' \<Longrightarrow> 0 \<le> lg_n (fs_log f) \<Longrightarrow> fs_log f' = (fs_log f)\<lparr>lg_n := 0\<rparr>"
  by (auto simp: commit_def write_log_def install_trans_def kres_simps split: if_splits
      dest!: write_log_loop_log install_trans_loop_log write_head_log)

subsection \<open>The invariant\<close>

lemma room_left_simps:
  assumes "finite (dom ops)"
  shows "ops i = None \<Longrightarrow> room_left (ops(i \<mapsto> k)) = room_left ops + (MAXOPBLOCKS - k)"
    "ops i = Some k \<Longrightarrow> k < MAXOPBLOCKS \<Longrightarrow> room_left (ops(i \<mapsto> Suc k)) + 1 = room_left ops"
    "room_left (ops(i := None)) \<le> room_left ops" "room_left ops \<le> card (dom ops) * MAXOPBLOCKS"
proof -
  show "room_left (ops(i \<mapsto> k)) = room_left ops + (MAXOPBLOCKS - k)" if i: "ops i = None"
  proof -
    have "(\<Sum>j\<in>dom ops. MAXOPBLOCKS - the ((ops(i \<mapsto> k)) j)) = room_left ops"
      unfolding room_left_def using i by (intro sum.cong) auto
    moreover have "i \<notin> dom ops" using i by auto
    ultimately show ?thesis using assms by (simp add: room_left_def)
  qed
  show "room_left (ops(i \<mapsto> Suc k)) + 1 = room_left ops" if i: "ops i = Some k" "k < MAXOPBLOCKS"
  proof -
    have d: "dom ops = insert i (dom ops - {i})" using i by auto
    have "(\<Sum>j\<in>dom ops - {i}. MAXOPBLOCKS - the ((ops(i \<mapsto> Suc k)) j)) = (\<Sum>j\<in>dom ops - {i}. MAXOPBLOCKS - the (ops j))"
      by (rule sum.cong) auto
    moreover have "room_left ops = (MAXOPBLOCKS - k) + (\<Sum>j\<in>dom ops - {i}. MAXOPBLOCKS - the (ops j))"
      unfolding room_left_def using assms i by (subst d, subst sum.insert) auto
    moreover have "room_left (ops(i \<mapsto> Suc k)) = (MAXOPBLOCKS - Suc k) + (\<Sum>j\<in>dom ops - {i}. MAXOPBLOCKS - the ((ops(i \<mapsto> Suc k)) j))"
      unfolding room_left_def using assms i by (simp add: sum.insert_remove)
    ultimately show ?thesis using i(2) by simp
  qed
  show "room_left (ops(i := None)) \<le> room_left ops"
  proof -
    have "room_left (ops(i := None)) = (\<Sum>j\<in>dom ops - {i}. MAXOPBLOCKS - the (ops j))"
      unfolding room_left_def by (rule sum.cong) auto
    also have "\<dots> \<le> room_left ops" unfolding room_left_def using assms by (intro sum_mono2) auto
    finally show ?thesis .
  qed
  have "room_left ops \<le> (\<Sum>i\<in>dom ops. MAXOPBLOCKS)" unfolding room_left_def by (rule sum_mono) simp
  then show "room_left ops \<le> card (dom ops) * MAXOPBLOCKS" by simp
qed

lemma log_write_log:
  assumes "log_write f b = Ret f'"
  shows "lg_n (fs_log f') \<le> lg_n (fs_log f) + 1" "lg_n (fs_log f) \<le> lg_n (fs_log f')" "lg_outstanding (fs_log f') = lg_outstanding (fs_log f)"
    "lg_committing (fs_log f') = lg_committing (fs_log f)" "lg_size (fs_log f') = lg_size (fs_log f)"
  using assms by (auto simp: log_write_def Let_def split: if_splits)

interpretation reserve: invariant op_start op_step op_inv
proof
  fix s assume "op_start s"
  then show "op_inv s" by (auto simp: op_start_def op_inv_def room_left_def)
next
  fix s t assume "op_step s t" "op_inv s"
  then show "op_inv t"
  proof (cases rule: op_step.cases)
    case (begin_call ops i f lg)
    then have f: "finite (dom ops)" "lg = (fs_log f)\<lparr>lg_outstanding := lg_outstanding (fs_log f) + 1\<rparr>" "\<not> lg_committing (fs_log f)"
       "lg_n (fs_log f) + (lg_outstanding (fs_log f) + 1) * int MAXOPBLOCKS \<le> int LOGSIZE" "lg_outstanding (fs_log f) = int (card (dom ops))"
      using \<open>op_inv s\<close> by (auto simp: op_inv_def begin_op_def split: if_splits)
    have "int (room_left (ops(i \<mapsto> 0))) \<le> (lg_outstanding (fs_log f) + 1) * int MAXOPBLOCKS"
    proof -
      have "room_left (ops(i \<mapsto> 0)) \<le> (card (dom ops) + 1) * MAXOPBLOCKS"
        using room_left_simps(1) [OF f(1) begin_call(3), of 0] room_left_simps(4) [OF f(1)] by simp
      then have "int (room_left (ops(i \<mapsto> 0))) \<le> int ((card (dom ops) + 1) * MAXOPBLOCKS)" by (simp only: of_nat_le_iff)
      then show ?thesis using f(5) by (simp add: algebra_simps)
    qed
    moreover have "i \<notin> dom ops" using begin_call(3) by auto
    ultimately show ?thesis using \<open>op_inv s\<close> f begin_call(1,2) by (simp add: op_inv_def)
  next
    case (write_call ops i k f b f')
    have fin: "finite (dom ops)" using \<open>op_inv s\<close> write_call by (simp add: op_inv_def)
    have "dom (ops(i \<mapsto> Suc k)) = dom ops" using write_call by auto
    then show ?thesis
      using \<open>op_inv s\<close> log_write_log [OF write_call(5)] room_left_simps(2) [OF fin write_call(3,4)] write_call(1,2,3) by (auto simp: op_inv_def)
  next
    case (cache_call f ops s')
    then show ?thesis using \<open>op_inv s\<close> by (simp add: op_inv_def)
  next
    case (end_call ops i k f lg do_commit)
    have fin: "finite (dom ops)" and out: "lg_outstanding (fs_log f) = int (card (dom ops))" using \<open>op_inv s\<close> end_call by (auto simp: op_inv_def)
    have "0 < card (dom ops)" using fin end_call(3) by (auto simp: card_gt_0_iff)
    then have c: "lg_outstanding (fs_log f) - 1 = int (card (dom (ops(i := None))))" using fin out end_call(3) by (simp add: of_nat_diff domI)
    have fin': "finite (dom (ops(i := None)))" using fin by simp
    have z: "lg_outstanding (fs_log f) - 1 = 0 \<longleftrightarrow> ops(i := None) = Map.empty" unfolding c of_nat_eq_0_iff card_0_eq [OF fin'] dom_eq_empty_conv ..
    have lg: "lg_outstanding lg = lg_outstanding (fs_log f) - 1" "lg_n lg = lg_n (fs_log f)" "lg_size lg = lg_size (fs_log f)"
      "lg_committing lg \<longleftrightarrow> lg_outstanding (fs_log f) - 1 = 0"
      using end_call(4) by (auto simp: end_op_start_def Let_def split: if_splits)
    show ?thesis using \<open>op_inv s\<close> end_call(1,2) room_left_simps(3) [OF fin, of i] fin' c [unfolded out] unfolding op_inv_def
      by (simp add: lg(1,2,3) lg(4) [unfolded z] del: dom_fun_upd)
  next
    case (commit_call f c f' ops)
    then have "fs_log f' = (fs_log f)\<lparr>lg_n := 0\<rparr>" using \<open>op_inv s\<close> by (intro commit_log) (auto simp: op_inv_def)
    then show ?thesis using \<open>op_inv s\<close> commit_call(1,2) by (auto simp: op_inv_def)
  qed
qed

subsection \<open>Properties\<close>

text \<open>C10: the log never overflows: from an empty log that has more than \<open>LOGSIZE\<close> blocks, however the system calls
  interleave their operations, a call that has logged fewer than \<open>MAXOPBLOCKS\<close> blocks can log another one without
  a panic, and \<^verbatim>\<open>end_op\<close> of a running call never finds a commit in progress.\<close>

theorem log_never_overflows:
  assumes "op_start s" "op_step\<^sup>*\<^sup>* s (f, ops)" "ops i = Some k" "k < MAXOPBLOCKS"
  shows "returns (log_write f b) \<and> returns (end_op_start (fs_log f))"
proof -
  have "op_inv (f, ops)" by (rule reserve.reachable_I [OF assms(1,2)])
  then have I: "finite (dom ops)" "lg_outstanding (fs_log f) = int (card (dom ops))" "lg_n (fs_log f) + int (room_left ops) \<le> int LOGSIZE"
    "lg_committing (fs_log f) \<longrightarrow> ops = Map.empty" "int LOGSIZE < lg_size (fs_log f)" by (auto simp: op_inv_def)
  have "0 < card (dom ops)" using I(1) assms(3) by (auto simp: card_gt_0_iff)
  moreover have "0 < room_left ops" using room_left_simps(2) [OF I(1) assms(3,4)] by linarith
  ultimately show ?thesis using I assms(3) by (auto simp: log_write_def end_op_start_def Let_def)
qed


definition idle_fs :: fsys where
  "idle_fs =
     \<lparr>fs_log = \<lparr>lg_start = 2, lg_size = 31, lg_outstanding = 0, lg_committing = False, lg_dev = 1, lg_n = 0, lg_block = (\<lambda>_. 0)\<rparr>,
      fs_bc = \<lparr>bc_buf = (\<lambda>_. \<lparr>b_valid = True, b_dev = 1, b_blockno = 40, b_lock = initsleeplock, b_refcnt = 1, b_prev = 0, b_next = 0,
         b_data = (\<lambda>_. 0)\<rparr>), bc_disk = (\<lambda>_ _. 0), bc_writes = []\<rparr>\<rparr>"

definition busy_fs :: fsys where
  "busy_fs = idle_fs\<lparr>fs_log := (fs_log idle_fs)\<lparr>lg_outstanding := 1\<rparr>\<rparr>"

lemma idle_fs_start: "op_start (idle_fs, Map.empty)"
  by (simp add: op_start_def idle_fs_def LOGSIZE_def MAXOPBLOCKS_def)

lemma idle_busy: "op_step\<^sup>*\<^sup>* (idle_fs, Map.empty) (busy_fs, [7 \<mapsto> 0])"
proof -
  have "op_step (idle_fs, Map.empty) (idle_fs\<lparr>fs_log := (fs_log idle_fs)\<lparr>lg_outstanding := 1\<rparr>\<rparr>, [7 \<mapsto> 0])"
    by (rule op_step.begin_call) (simp_all add: begin_op_def idle_fs_def LOGSIZE_def MAXOPBLOCKS_def)
  then show ?thesis by (simp add: busy_fs_def)
qed

theorem log_never_overflows_witness:
  "returns (log_write busy_fs 0) \<and> returns (end_op_start (fs_log busy_fs)) \<and> log_write idle_fs 0 = Panic ''log_write outside of trans''"
  using log_never_overflows [OF idle_fs_start idle_busy, of 7 0 0]
  by (simp add: MAXOPBLOCKS_def log_write_def Let_def idle_fs_def LOGSIZE_def)


end
