(* ===== verification/Klist.thy ===== *)
theory Klist
  imports Ring
begin

text \<open>
  The intrusive lists of kernel/lib/list.c. A list cell is either one of the heads in a static array
  or the first bytes of a free block of memory; address 0 is the null pointer. The lemmas keep a whole family of lists
  that share the same memory.
\<close>

datatype lref = Head nat | Blk u64

record links =
  lk_next :: "lref \<Rightarrow> lref"
  lk_prev :: "lref \<Rightarrow> lref"

abbreviation Null :: lref where "Null \<equiv> Blk 0"

definition lst_init :: "links \<Rightarrow> lref \<Rightarrow> links" where
  "lst_init l lst = l\<lparr>lk_next := (lk_next l)(lst := lst), lk_prev := (lk_prev l)(lst := lst)\<rparr>"

definition lst_empty :: "links \<Rightarrow> lref \<Rightarrow> bool" where
  "lst_empty l lst \<longleftrightarrow> lk_next l lst = lst"

definition lst_remove :: "links \<Rightarrow> lref \<Rightarrow> links kres" where
  "lst_remove l e =
     (if e = Null then Panic ''[lst_remove] a list has no member''
      else if lk_prev l e = Null then Panic ''[lst_remove] a list prev has no member''
      else if lk_next l e = Null then Panic ''a list next has no member''
      else
        let l1 = l\<lparr>lk_next := (lk_next l)(lk_prev l e := lk_next l e)\<rparr> in
        Ret (l1\<lparr>lk_prev := (lk_prev l1)(lk_next l1 e := lk_prev l1 e)\<rparr>))"

definition lst_pop :: "links \<Rightarrow> lref \<Rightarrow> (lref \<times> links) kres" where
  "lst_pop l lst =
     (let p = lk_next l lst in
      if p = Null then Ret (Null, l) else kbind (lst_remove l p) (\<lambda>l1. Ret (p, l1)))"

definition lst_push :: "links \<Rightarrow> lref \<Rightarrow> lref \<Rightarrow> links kres" where
  "lst_push l lst e =
     (if lst = Null then Panic ''[lst_push] list did not allocated''
      else if e = Null then Panic ''[lst_push] p did not allocated''
      else
        let l1 = l\<lparr>lk_next := (lk_next l)(e := lk_next l lst)\<rparr>;
            l2 = l1\<lparr>lk_prev := (lk_prev l1)(e := lst)\<rparr> in
        if lk_next l2 lst = Null then Fault
        else
          let l3 = l2\<lparr>lk_prev := (lk_prev l2)(lk_next l2 lst := e)\<rparr> in
          Ret (l3\<lparr>lk_next := (lk_next l3)(lst := e)\<rparr>))"

subsection \<open>Families of lists\<close>

text \<open>The lists with the heads \<open>0, \<dots>, n - 1\<close> hold the cells \<open>L 0, \<dots>, L (n - 1)\<close>, no cell is null or a head, and no
  cell is on two lists.\<close>

definition rings :: "links \<Rightarrow> nat \<Rightarrow> (nat \<Rightarrow> u64 list) \<Rightarrow> bool" where
  "rings l n L \<longleftrightarrow>
     (\<forall>k<n. ring (lk_next l) (lk_prev l) (Head k) (map Blk (L k)) \<and> 0 \<notin> set (L k)) \<and>
     (\<forall>k<n. \<forall>k'<n. k \<noteq> k' \<longrightarrow> set (L k) \<inter> set (L k') = {})"

lemma ringsD:
  assumes "rings l n L" "k < n"
  shows "ring (lk_next l) (lk_prev l) (Head k) (map Blk (L k))" "0 \<notin> set (L k)" "distinct (L k)"
    "k' < n \<Longrightarrow> k \<noteq> k' \<Longrightarrow> set (L k) \<inter> set (L k') = {}"
  using assms by (auto simp: rings_def ring_def distinct_map)

lemma ring_frame:
  assumes "ring nx pv h xs" "\<And>x. x \<in> insert h (set xs) \<Longrightarrow> nx' x = nx x \<and> pv' x = pv x"
  shows "ring nx' pv' h xs"
proof -
  have "seg nx' pv' h xs h = seg nx pv h xs h" by (intro seg_frame) (use assms(2) in auto)
  then show ?thesis using assms(1) by (simp add: ring_def)
qed

lemma ring_closed:
  assumes "ring nx pv h xs" "x \<in> insert h (set xs)"
  shows "nx x \<in> insert h (set xs)" "pv x \<in> insert h (set xs)"
proof -
  have hl: "hd (zs @ [h]) \<in> insert h (set zs)" "last (h # ys) \<in> insert h (set ys)" for ys zs
    using hd_in_set [of "zs @ [h]"] last_in_set [of "h # ys"] by auto
  have "nx x \<in> insert h (set xs) \<and> pv x \<in> insert h (set xs)"
  proof (cases "x = h")
    case True
    have sg: "seg nx pv h xs h" using assms(1) by (simp add: ring_def)
    show ?thesis using hl(1) [of xs] hl(2) [of xs] unfolding True seg_first [OF sg] seg_last [OF sg] by simp
  next
    case False
    then obtain ys zs where xs: "xs = ys @ x # zs" using assms(2) by (metis insert_iff split_list)
    then have sg: "seg nx pv h ys x" "seg nx pv x zs h" using assms(1) by (auto simp: ring_def seg_append)
    have "nx x = hd (zs @ [h])" "pv x = last (h # ys)" by (rule seg_first [OF sg(2)], rule seg_last [OF sg(1)])
    then show ?thesis using xs hl(1) [of zs] hl(2) [of ys] by auto
  qed
  then show "nx x \<in> insert h (set xs)" "pv x \<in> insert h (set xs)" by auto
qed

lemma rings_update:
  assumes r: "rings l n L" and k: "k < n"
    and new: "ring (lk_next l') (lk_prev l') (Head k) (map Blk xs)" "0 \<notin> set xs"
    and dj: "\<And>k'. k' < n \<Longrightarrow> k' \<noteq> k \<Longrightarrow> set xs \<inter> set (L k') = {}"
    and fr: "\<And>x. x \<notin> insert (Head k) (Blk ` (set xs \<union> set (L k))) \<Longrightarrow> lk_next l' x = lk_next l x \<and> lk_prev l' x = lk_prev l x"
  shows "rings l' n (L(k := xs))"
proof -
  have "ring (lk_next l') (lk_prev l') (Head k') (map Blk (L k'))" if k': "k' < n" "k' \<noteq> k" for k'
  proof (rule ring_frame [OF ringsD(1) [OF r k'(1)]])
    fix x
    assume "x \<in> insert (Head k') (set (map Blk (L k')))"
    then show "lk_next l' x = lk_next l x \<and> lk_prev l' x = lk_prev l x"
      using dj [OF k'] ringsD(4) [OF r k k'(1)] k' by (intro fr) auto
  qed
  moreover have "0 \<notin> set (L k')" if "k' < n" for k' using ringsD(2) [OF r that] .
  moreover have "set (L k1) \<inter> set (L k2) = {}" if "k1 < n" "k2 < n" "k1 \<noteq> k2" for k1 k2 using ringsD(4) [OF r that(1,2,3)] .
  moreover have "set (L k') \<inter> set xs = {}" if "k' < n" "k' \<noteq> k" for k' using dj [OF that] by (simp add: Int_commute)
  ultimately show ?thesis using new dj unfolding rings_def by simp
qed

lemma lst_push_rings:
  assumes r: "rings l n L" and k: "k < n" and p: "p \<noteq> 0" "\<And>k'. k' < n \<Longrightarrow> p \<notin> set (L k')"
  shows "\<exists>l'. lst_push l (Head k) (Blk p) = Ret l' \<and> rings l' n (L(k := p # L k))"
proof -
  note R = ringsD [OF r k]
  have nz: "lk_next l (Head k) \<noteq> Null" using ring_closed(1) [OF R(1), of "Head k"] R(2) by auto
  define l' where "l' = l\<lparr>lk_next := (lk_next l)(Blk p := lk_next l (Head k), Head k := Blk p),
    lk_prev := (lk_prev l)(Blk p := Head k, lk_next l (Head k) := Blk p)\<rparr>"
  have e: "lst_push l (Head k) (Blk p) = Ret l'" using nz p(1) by (simp add: lst_push_def l'_def Let_def)
  have "ring (lk_next l') (lk_prev l') (Head k) (map Blk (p # L k))"
    using ring_insert [OF R(1), of "Blk p"] p(2) [OF k] by (auto simp: l'_def)
  then have "rings l' n (L(k := p # L k))"
  proof (rule rings_update [OF r k])
    show "0 \<notin> set (p # L k)" using R(2) p(1) by simp
    show "set (p # L k) \<inter> set (L k') = {}" if "k' < n" "k' \<noteq> k" for k'
      using p(2) [OF that(1)] R(4) [OF that(1)] that(2) by auto
    show "lk_next l' x = lk_next l x \<and> lk_prev l' x = lk_prev l x" if x: "x \<notin> insert (Head k) (Blk ` (set (p # L k) \<union> set (L k)))" for x
      using x ring_closed(1) [OF R(1), of "Head k"] by (auto simp: l'_def)
  qed
  then show ?thesis using e by blast
qed

lemma lst_remove_rings:
  assumes r: "rings l n L" and k: "k < n" and p: "p \<in> set (L k)"
  shows "\<exists>l'. lst_remove l (Blk p) = Ret l' \<and> rings l' n (L(k := remove1 p (L k)))"
proof -
  note R = ringsD [OF r k]
  have c: "lk_next l (Blk p) \<in> insert (Head k) (Blk ` set (L k))" "lk_prev l (Blk p) \<in> insert (Head k) (Blk ` set (L k))"
    using ring_closed [OF R(1), of "Blk p"] p by auto
  have nz: "lk_next l (Blk p) \<noteq> Null" "lk_prev l (Blk p) \<noteq> Null" "p \<noteq> 0" using c R(2) p by auto
  have ne: "lk_prev l (Blk p) \<noteq> Blk p" using ring_neighbours(2) [OF R(1), of "Blk p"] p by auto
  define l' where "l' = l\<lparr>lk_next := (lk_next l)(lk_prev l (Blk p) := lk_next l (Blk p)),
    lk_prev := (lk_prev l)(lk_next l (Blk p) := lk_prev l (Blk p))\<rparr>"
  have e: "lst_remove l (Blk p) = Ret l'" using nz ne by (simp add: lst_remove_def l'_def Let_def)
  obtain ys zs where L: "L k = ys @ p # zs" "p \<notin> set ys" using split_list_first [OF p] by blast
  then have rm: "remove1 p (L k) = ys @ zs" by (simp add: remove1_append)
  have "ring (lk_next l') (lk_prev l') (Head k) (map Blk (remove1 p (L k)))"
    using ring_remove [of "lk_next l" "lk_prev l" "Head k" "map Blk ys" "Blk p" "map Blk zs"] R(1) L rm by (simp add: l'_def)
  then have "rings l' n (L(k := remove1 p (L k)))"
  proof (rule rings_update [OF r k])
    show "0 \<notin> set (remove1 p (L k))" using R(2) L rm by auto
    show "set (remove1 p (L k)) \<inter> set (L k') = {}" if "k' < n" "k' \<noteq> k" for k'
      using R(4) [OF that(1)] that(2) L rm by auto
    show "lk_next l' x = lk_next l x \<and> lk_prev l' x = lk_prev l x"
      if x: "x \<notin> insert (Head k) (Blk ` (set (remove1 p (L k)) \<union> set (L k)))" for x
      using x c by (auto simp: l'_def)
  qed
  then show ?thesis using e by blast
qed

lemma lst_empty_rings: "rings l n L \<Longrightarrow> k < n \<Longrightarrow> lst_empty l (Head k) \<longleftrightarrow> L k = []"
  using seg_first [of "lk_next l" "lk_prev l" "Head k" "map Blk (L k)" "Head k"]
  by (cases "L k") (auto simp: rings_def ring_def lst_empty_def)

lemma lst_pop_rings:
  assumes r: "rings l n L" and k: "k < n" and ne: "L k \<noteq> []"
  shows "\<exists>l'. lst_pop l (Head k) = Ret (Blk (hd (L k)), l') \<and> rings l' n (L(k := tl (L k)))"
proof -
  obtain p ps where L: "L k = p # ps" using ne by (cases "L k") auto
  have n: "lk_next l (Head k) = Blk p" using ringsD(1) [OF r k] L by (simp add: ring_def)
  have "p \<noteq> 0" using ringsD(2) [OF r k] L by auto
  moreover obtain l' where "lst_remove l (Blk p) = Ret l'" "rings l' n (L(k := remove1 p (L k)))"
    using lst_remove_rings [OF r k, of p] L by auto
  ultimately show ?thesis using n L by (intro exI [of _ l']) (simp add: lst_pop_def)
qed

definition heads_init :: "links \<Rightarrow> nat \<Rightarrow> links" where
  "heads_init l n = fold (\<lambda>i l. lst_init l (Head i)) [0..<n] l"

lemma heads_init_rings: "rings (heads_init l n) n (\<lambda>_. [])"
proof -
  have "lk_next (heads_init l n) (Head k) = Head k \<and> lk_prev (heads_init l n) (Head k) = Head k" if "k < n" for k
    using that unfolding heads_init_def by (induction n) (auto simp: lst_init_def less_Suc_eq)
  then show ?thesis by (simp add: rings_def ring_def)
qed

end
