(* ===== verification/Buddy.thy ===== *)
theory Buddy
  imports Klist "HOL-Library.Signed_Division"
begin

text \<open>
  The buddy allocators of the kernel: kernel/lib/buddy.c, which cuts 4096-byte pages into blocks of 32 bytes and more,
  and the page allocator of kernel/lib/ufkalloc.c, which cuts 512 KB areas into blocks of 8 KB and more. The two
  files have the same algorithm with other constants, so the operations take a configuration. A page has,
  for every block size, a bit map of allocated blocks and a bit map of blocks that are split; the free blocks of
  a size are linked in a list through their own first bytes.
\<close>

record bdcfg =
  cf_leaf :: nat
  cf_nsizes :: nat
  cf_npages :: nat
  cf_stop :: bool
  cf_norest :: string
  cf_nopage :: "unit kres"

text \<open>\<^verbatim>\<open>cf_stop\<close>: the page search ends at the first unused entry. \<^verbatim>\<open>cf_nopage\<close>: what follows a failed page search.\<close>

definition bd_cfg :: bdcfg where
  "bd_cfg = \<lparr>cf_leaf = 32, cf_nsizes = 8, cf_npages = 128, cf_stop = False,
     cf_norest = ''[bd_alloc] there are no rest memory'', cf_nopage = Fault\<rparr>"

definition ufk_cfg :: bdcfg where
  "ufk_cfg = \<lparr>cf_leaf = 8 * 1024, cf_nsizes = 7, cf_npages = 1024, cf_stop = True,
     cf_norest = ''[_ufk_alloc] there are no rest memory'', cf_nopage = Panic ''[_ufk_alloc] cannot get page index''\<rparr>"

definition BLK_SIZE :: "bdcfg \<Rightarrow> nat \<Rightarrow> nat" where
  "BLK_SIZE c k = 2 ^ k * cf_leaf c"

definition MAX_SIZE :: "bdcfg \<Rightarrow> nat" where
  "MAX_SIZE c = cf_nsizes c - 1"

record pagelist =
  pl_addr :: u64
  pl_alloc :: "nat \<Rightarrow> nat \<Rightarrow> u8"
  pl_split :: "nat \<Rightarrow> nat \<Rightarrow> u8"

record bdtab =
  bt_links :: links
  bt_plist :: "nat \<Rightarrow> pagelist"

subsection \<open>Bit maps\<close>

definition bit_isset :: "(nat \<Rightarrow> u8) \<Rightarrow> nat \<Rightarrow> bool" where
  "bit_isset bm index = (let b = bm (index div 8); m = push_bit (index mod 8) 1 in b AND m = m)"

definition bit_set :: "(nat \<Rightarrow> u8) \<Rightarrow> nat \<Rightarrow> nat \<Rightarrow> u8" where
  "bit_set bm index = (let b = bm (index div 8); m = push_bit (index mod 8) 1 in bm(index div 8 := b OR m))"

definition bit_clear :: "(nat \<Rightarrow> u8) \<Rightarrow> nat \<Rightarrow> nat \<Rightarrow> u8" where
  "bit_clear bm index = (let b = bm (index div 8); m = push_bit (index mod 8) 1 in bm(index div 8 := b AND NOT m))"

definition upd_alloc :: "((nat \<Rightarrow> u8) \<Rightarrow> nat \<Rightarrow> nat \<Rightarrow> u8) \<Rightarrow> bdtab \<Rightarrow> nat \<Rightarrow> nat \<Rightarrow> nat \<Rightarrow> bdtab" where
  "upd_alloc f s i k bi = s\<lparr>bt_plist := (bt_plist s)(i := (bt_plist s i)\<lparr>pl_alloc := (pl_alloc (bt_plist s i))(k := f (pl_alloc (bt_plist s i) k) bi)\<rparr>)\<rparr>"

definition upd_split :: "((nat \<Rightarrow> u8) \<Rightarrow> nat \<Rightarrow> nat \<Rightarrow> u8) \<Rightarrow> bdtab \<Rightarrow> nat \<Rightarrow> nat \<Rightarrow> nat \<Rightarrow> bdtab" where
  "upd_split f s i k bi = s\<lparr>bt_plist := (bt_plist s)(i := (bt_plist s i)\<lparr>pl_split := (pl_split (bt_plist s i))(k := f (pl_split (bt_plist s i) k) bi)\<rparr>)\<rparr>"

subsection \<open>Sizes, pages and blocks\<close>

text \<open>The size is a 32-bit integer that doubles in every turn; after 32 turns it is 0 for ever.\<close>

fun firstk_loop :: "nat \<Rightarrow> int \<Rightarrow> nat \<Rightarrow> 32 word \<Rightarrow> nat kres" where
  "firstk_loop 0 n k sz = Diverge"
| "firstk_loop (Suc fuel) n k sz = (if sint sz < n then firstk_loop fuel n (Suc k) (sz * 2) else Ret k)"

definition firstk :: "bdcfg \<Rightarrow> int \<Rightarrow> nat kres" where
  "firstk c n = firstk_loop 40 n 0 (of_nat (cf_leaf c))"

text \<open>The difference of two pointers is stored in an \<^verbatim>\<open>int\<close>.\<close>

definition ptr_off :: "u64 \<Rightarrow> u64 \<Rightarrow> int" where
  "ptr_off p base = sint (ucast (p - base) :: 32 word)"

fun get_page_loop :: "bdcfg \<Rightarrow> bdtab \<Rightarrow> u64 \<Rightarrow> nat list \<Rightarrow> nat option" where
  "get_page_loop c s p [] = None"
| "get_page_loop c s p (i # is) =
     (let a = pl_addr (bt_plist s i); offset = ptr_off p a in
      if cf_stop c \<and> a = 0 then None
      else if 0 \<le> offset \<and> offset < int (BLK_SIZE c (MAX_SIZE c)) then Some i
      else get_page_loop c s p is)"

definition get_page_index :: "bdcfg \<Rightarrow> bdtab \<Rightarrow> u64 \<Rightarrow> nat option" where
  "get_page_index c s p = get_page_loop c s p [0..<cf_npages c]"

text \<open>\<open>base\<close> is the address of the page that \<open>p\<close> lies in, so the offset is not negative.\<close>

definition blk_index :: "bdcfg \<Rightarrow> nat \<Rightarrow> u64 \<Rightarrow> u64 \<Rightarrow> nat" where
  "blk_index c k p base = nat (ptr_off p base sdiv int (BLK_SIZE c k))"

text \<open>The last turn of the loop, \<open>k = NSIZES - 1\<close>, reads a map after the last one, and whatever it finds there the
  result is \<open>NSIZES - 1\<close>.\<close>

definition blk_size :: "bdcfg \<Rightarrow> bdtab \<Rightarrow> u64 \<Rightarrow> nat \<Rightarrow> u64 \<Rightarrow> nat" where
  "blk_size c s p pindex base =
     (case find (\<lambda>k. bit_isset (pl_split (bt_plist s pindex) (k + 1)) (blk_index c (k + 1) p base)) [0..<cf_nsizes c - 1] of
        Some k \<Rightarrow> k
      | None \<Rightarrow> cf_nsizes c - 1)"

definition blk_addr :: "bdcfg \<Rightarrow> nat \<Rightarrow> nat \<Rightarrow> u64 \<Rightarrow> u64" where
  "blk_addr c k bi base = base + of_nat (bi * BLK_SIZE c k)"

subsection \<open>Allocation\<close>

text \<open>\<^verbatim>\<open>for (; k > fk; k--)\<close>: the upper half of the block goes to the free list of the next smaller size.\<close>

fun split_down :: "bdcfg \<Rightarrow> bdtab \<Rightarrow> nat \<Rightarrow> u64 \<Rightarrow> u64 \<Rightarrow> nat \<Rightarrow> nat \<Rightarrow> bdtab kres" where
  "split_down c s pindex p pbase fk 0 = Ret s"
| "split_down c s pindex p pbase fk (Suc k) =
     (if fk < Suc k then
        let q = p + of_nat (BLK_SIZE c k);
            s1 = upd_split bit_set s pindex (Suc k) (blk_index c (Suc k) p pbase);
            s2 = upd_alloc bit_set s1 pindex k (blk_index c k p pbase) in
        kbind (lst_push (bt_links s2) (Head k) (Blk q)) (\<lambda>l.
        split_down c (s2\<lparr>bt_links := l\<rparr>) pindex p pbase fk k)
      else Ret s)"

text \<open>The popped block \<open>p\<close> of size \<open>k\<close>: find its page, mark it and cut it down to size \<open>fk\<close>.\<close>

definition buddy_take :: "bdcfg \<Rightarrow> bdtab \<Rightarrow> u64 \<Rightarrow> nat \<Rightarrow> nat \<Rightarrow> (u64 \<times> bdtab) kres" where
  "buddy_take c s p k fk =
     (case get_page_index c s p of
        None \<Rightarrow> kbind (cf_nopage c) (\<lambda>_. Fault)
      | Some pindex \<Rightarrow>
          let pbase = pl_addr (bt_plist s pindex);
              s1 = upd_alloc bit_set s pindex k (blk_index c k p pbase) in
          kbind (split_down c s1 pindex p pbase fk k) (\<lambda>s2. Ret (p, s2)))"

definition buddy_alloc :: "bdcfg \<Rightarrow> bdtab \<Rightarrow> int \<Rightarrow> (u64 \<times> bdtab) kres" where
  "buddy_alloc c s nbytes =
     kbind (firstk c nbytes) (\<lambda>fk.
     case find (\<lambda>k. \<not> lst_empty (bt_links s) (Head k)) [fk..<cf_nsizes c] of
       None \<Rightarrow> Ret (0, s)
     | Some k \<Rightarrow>
         kbind (lst_pop (bt_links s) (Head k)) (\<lambda>(e, l).
         case e of
           Head _ \<Rightarrow> Fault
         | Blk p \<Rightarrow> if p = 0 then Panic (cf_norest c) else buddy_take c (s\<lparr>bt_links := l\<rparr>) p k fk))"

subsection \<open>Release\<close>

text \<open>A turn of \<^verbatim>\<open>for (k = blk_size(p, pindex, pbase); k < MAX_SIZE; k++)\<close>: if the buddy is free, it leaves
  its list and the two make one block of the next size; the flag tells whether the loop goes on.\<close>

definition merge_turn :: "bdcfg \<Rightarrow> bdtab \<Rightarrow> nat \<Rightarrow> u64 \<Rightarrow> u64 \<Rightarrow> nat \<Rightarrow> (bool \<times> bdtab \<times> u64) kres" where
  "merge_turn c s pindex pbase p k =
     (let bi = blk_index c k p pbase;
          s1 = upd_alloc bit_clear s pindex k bi;
          buddy = (if bi mod 2 = 0 then bi + 1 else bi - 1) in
      if bit_isset (pl_alloc (bt_plist s1 pindex) k) buddy then Ret (False, s1, p)
      else
        let q = blk_addr c k buddy pbase in
        kbind (lst_remove (bt_links s1) (Blk q)) (\<lambda>l.
        let s2 = s1\<lparr>bt_links := l\<rparr>;
            p1 = (if buddy mod 2 = 0 then q else p);
            s3 = upd_alloc bit_clear s2 pindex (k + 1) (blk_index c (k + 1) p1 pbase);
            s4 = upd_split bit_clear s3 pindex (k + 1) (blk_index c (k + 1) p1 pbase) in
        Ret (True, s4, p1)))"

text \<open>The loop, driven by \<open>MAX_SIZE - k\<close>.\<close>

fun merge_up :: "bdcfg \<Rightarrow> nat \<Rightarrow> bdtab \<Rightarrow> nat \<Rightarrow> u64 \<Rightarrow> u64 \<Rightarrow> nat \<Rightarrow> (bdtab \<times> u64 \<times> nat) kres" where
  "merge_up c 0 s pindex pbase p k = Ret (s, p, k)"
| "merge_up c (Suc d) s pindex pbase p k =
     kbind (merge_turn c s pindex pbase p k) (\<lambda>(go, s1, p1).
     if go then merge_up c d s1 pindex pbase p1 (k + 1) else Ret (s1, p1, k))"

definition buddy_free :: "bdcfg \<Rightarrow> bdtab \<Rightarrow> u64 \<Rightarrow> nat \<Rightarrow> u64 \<Rightarrow> bdtab kres" where
  "buddy_free c s p pindex pbase =
     (let k = blk_size c s p pindex pbase in
      kbind (merge_up c (MAX_SIZE c - k) s pindex pbase p k) (\<lambda>(s1, p1, k1).
      kbind (lst_push (bt_links s1) (Head k1) (Blk p1)) (\<lambda>l. Ret (s1\<lparr>bt_links := l\<rparr>))))"

subsection \<open>The small-block allocator\<close>

definition no_page :: pagelist where
  "no_page = \<lparr>pl_addr = 0, pl_alloc = (\<lambda>_ _. 0), pl_split = (\<lambda>_ _. 0)\<rparr>"

definition bd_init :: "bdtab \<Rightarrow> bdtab" where
  "bd_init s = s\<lparr>bt_plist := (\<lambda>_. no_page), bt_links := heads_init (bt_links s) (cf_nsizes bd_cfg)\<rparr>"

definition bd_addpage :: "bdtab \<Rightarrow> u64 \<Rightarrow> bdtab kres" where
  "bd_addpage s p =
     (case find (\<lambda>i. pl_addr (bt_plist s i) = 0) [0..<cf_npages bd_cfg] of
        None \<Rightarrow> Panic ''[bd_addpage] cannot add new page''
      | Some i \<Rightarrow>
          let s1 = s\<lparr>bt_plist := (bt_plist s)(i := (bt_plist s i)\<lparr>pl_addr := p\<rparr>)\<rparr> in
          kbind (lst_push (bt_links s1) (Head (MAX_SIZE bd_cfg)) (Blk p)) (\<lambda>l. Ret (s1\<lparr>bt_links := l\<rparr>)))"

definition bd_alloc :: "bdtab \<Rightarrow> int \<Rightarrow> (u64 \<times> bdtab) kres" where
  "bd_alloc s nbytes = buddy_alloc bd_cfg s nbytes"

text \<open>An address that lies in no page makes the code use the entry \<open>-1\<close> of the page table.\<close>

definition bd_free :: "bdtab \<Rightarrow> u64 \<Rightarrow> bdtab kres" where
  "bd_free s p =
     (case get_page_index bd_cfg s p of
        None \<Rightarrow> Fault
      | Some pindex \<Rightarrow> buddy_free bd_cfg s p pindex (pl_addr (bt_plist s pindex)))"

end
