(* ===== verification/Blocks.thy ===== *)
theory Blocks
  imports Buddy
begin

text \<open>
  The invariant of the buddy allocators. A block is a triple of page, size class and index. The blocks of a page
  form a binary tree, whose inner nodes are the split blocks; the leaves are either allocated or free, and the
  free lists hold exactly the free leaves.
\<close>

type_synonym block = "nat \<times> nat \<times> nat"

definition cfg_ok :: "bdcfg \<Rightarrow> bool" where
  "cfg_ok c \<longleftrightarrow> 0 < cf_leaf c \<and> 0 < cf_nsizes c \<and> BLK_SIZE c (MAX_SIZE c) \<le> 2 ^ 20"

lemma cfg_ok_inst: "cfg_ok bd_cfg" "cfg_ok ufk_cfg"
  by (simp_all add: cfg_ok_def bd_cfg_def ufk_cfg_def BLK_SIZE_def MAX_SIZE_def)

subsection \<open>Bit maps as sets of blocks\<close>

definition alloc_bits :: "bdtab \<Rightarrow> block set" where
  "alloc_bits s = {(i, k, j). bit_isset (pl_alloc (bt_plist s i) k) j}"

text \<open>The map of split blocks of the smallest size is left out: such blocks are never split, and ufkalloc uses it as a
  mark of its own.\<close>

definition split_bits :: "bdtab \<Rightarrow> block set" where
  "split_bits s = {(i, k, j). 0 < k \<and> bit_isset (pl_split (bt_plist s i) k) j}"

definition page_addr :: "bdtab \<Rightarrow> nat \<Rightarrow> u64" where
  "page_addr s i = pl_addr (bt_plist s i)"

lemma bit_isset_bit: "bit_isset bm j \<longleftrightarrow> bit (bm (j div 8)) (j mod 8)"
proof -
  have e: "w AND push_bit n 1 = push_bit n 1 \<longleftrightarrow> bit w n" if "n < 8" for w :: u8 and n
  proof
    assume "w AND push_bit n 1 = push_bit n 1"
    then have "bit (w AND push_bit n 1) n = bit (push_bit n 1 :: u8) n" by simp
    then show "bit w n" using that by (simp add: bit_simps)
  next
    assume "bit w n"
    then show "w AND push_bit n 1 = push_bit n 1" by (intro bit_word_eqI) (auto simp: bit_simps)
  qed
  show ?thesis unfolding bit_isset_def Let_def by (rule e) simp
qed

lemma div_mod_8_eq: "(a :: nat) div 8 = b div 8 \<Longrightarrow> a mod 8 = b mod 8 \<longleftrightarrow> a = b"
  by (metis div_mult_mod_eq)

lemma bit_isset_set: "bit_isset (bit_set bm a) b \<longleftrightarrow> b = a \<or> bit_isset bm b"
  using div_mod_8_eq [of b a] by (auto simp: bit_isset_bit bit_set_def Let_def bit_simps)

lemma bit_isset_clear: "bit_isset (bit_clear bm a) b \<longleftrightarrow> b \<noteq> a \<and> bit_isset bm b"
  using div_mod_8_eq [of b a] by (auto simp: bit_isset_bit bit_clear_def Let_def bit_simps)

lemma upd_alloc_bits [simp]:
  "alloc_bits (upd_alloc bit_set s i k j) = insert (i, k, j) (alloc_bits s)"
  "alloc_bits (upd_alloc bit_clear s i k j) = alloc_bits s - {(i, k, j)}"
  "split_bits (upd_alloc f s i k j) = split_bits s" "page_addr (upd_alloc f s i k j) = page_addr s"
  "bt_links (upd_alloc f s i k j) = bt_links s"
  by (auto simp: alloc_bits_def split_bits_def page_addr_def upd_alloc_def fun_eq_iff bit_isset_set bit_isset_clear split: if_splits)

lemma upd_split_bits [simp]:
  "split_bits (upd_split bit_set s i (Suc k) j) = insert (i, Suc k, j) (split_bits s)"
  "split_bits (upd_split bit_clear s i k j) = split_bits s - {(i, k, j)}"
  "alloc_bits (upd_split f s i k j) = alloc_bits s" "page_addr (upd_split f s i k j) = page_addr s"
  "bt_links (upd_split f s i k j) = bt_links s"
  by (auto simp: alloc_bits_def split_bits_def page_addr_def upd_split_def fun_eq_iff bit_isset_set bit_isset_clear split: if_splits)

lemma links_bits [simp]:
  "alloc_bits (s\<lparr>bt_links := l\<rparr>) = alloc_bits s" "split_bits (s\<lparr>bt_links := l\<rparr>) = split_bits s" "page_addr (s\<lparr>bt_links := l\<rparr>) = page_addr s"
  by (simp_all add: alloc_bits_def split_bits_def page_addr_def fun_eq_iff)

subsection \<open>Addresses\<close>

text \<open>Pages lie in the upper half of the 32-bit addresses, where the kernel has its memory, and are aligned
  to their size.\<close>

definition pages_ok :: "bdcfg \<Rightarrow> (nat \<Rightarrow> u64) \<Rightarrow> bool" where
  "pages_ok c ad \<longleftrightarrow>
     (\<forall>i<cf_npages c. ad i \<noteq> 0 \<longrightarrow> 2 ^ 31 \<le> unat (ad i) \<and> unat (ad i) + BLK_SIZE c (MAX_SIZE c) \<le> 2 ^ 32 \<and>
        BLK_SIZE c (MAX_SIZE c) dvd unat (ad i)) \<and>
     (\<forall>i<cf_npages c. \<forall>i'<cf_npages c. ad i \<noteq> 0 \<longrightarrow> ad i = ad i' \<longrightarrow> i = i') \<and>
     (cf_stop c \<longrightarrow> (\<forall>i<cf_npages c. ad i \<noteq> 0 \<longrightarrow> (\<forall>i'<i. ad i' \<noteq> 0)))"

definition live :: "bdcfg \<Rightarrow> (nat \<Rightarrow> u64) \<Rightarrow> nat \<Rightarrow> bool" where
  "live c ad i \<longleftrightarrow> i < cf_npages c \<and> ad i \<noteq> 0"

fun baddr :: "bdcfg \<Rightarrow> (nat \<Rightarrow> u64) \<Rightarrow> block \<Rightarrow> u64" where
  "baddr c ad (i, k, j) = blk_addr c k j (ad i)"

text \<open>The bytes of a block.\<close>

fun brange :: "bdcfg \<Rightarrow> (nat \<Rightarrow> u64) \<Rightarrow> block \<Rightarrow> nat set" where
  "brange c ad (i, k, j) = {unat (ad i) + j * BLK_SIZE c k ..< unat (ad i) + j * BLK_SIZE c k + BLK_SIZE c k}"

lemma liveD:
  assumes "pages_ok c ad" "live c ad i"
  shows "2 ^ 31 \<le> unat (ad i)" "unat (ad i) + BLK_SIZE c (MAX_SIZE c) \<le> 2 ^ 32" "BLK_SIZE c (MAX_SIZE c) dvd unat (ad i)"
  using assms unfolding pages_ok_def live_def by blast+

lemma sint_small: "- 2147483648 \<le> x \<Longrightarrow> x < 2147483648 \<Longrightarrow> sint (word_of_int x :: 32 word) = x"
  by (simp add: sint_sbintrunc' signed_take_bit_int_eq_self)

lemma ptr_off_eq:
  assumes "unat p = x" "unat base = y" "- 2147483648 \<le> int x - int y" "int x - int y < 2147483648"
  shows "ptr_off p base = int x - int y"
proof -
  have u: "(ucast (p - base) :: 32 word) = word_of_int (int x - int y)"
  proof -
    have "p - base = word_of_int (int x - int y)" using assms(1,2) by auto
    moreover have "(ucast (word_of_int x :: u64) :: 32 word) = word_of_int x" for x
      by (intro bit_word_eqI) (simp add: bit_unsigned_iff bit_of_int_iff)
    ultimately show ?thesis by metis
  qed
  from sint_small [OF assms(3,4)] show ?thesis unfolding ptr_off_def u .
qed

text \<open>An address below \<open>2 ^ 32\<close> but in the upper half has a negative offset to the null page.\<close>

lemma ptr_off_null: "2 ^ 31 \<le> unat p \<Longrightarrow> unat p < 2 ^ 32 \<Longrightarrow> ptr_off p 0 < 0"
proof -
  assume p: "2 ^ 31 \<le> unat p" "unat p < 2 ^ 32"
  have u: "(ucast p :: 32 word) = word_of_int (int (unat p) - 2 ^ 32)"
  proof -
    have "word_of_int (int (unat p) - 2 ^ 32) = (word_of_int (int (unat p)) :: 32 word)" by (simp add: word_of_int_eq_iff take_bit_eq_mod)
    also have "\<dots> = ucast p" by simp
    finally show ?thesis ..
  qed
  have p': "2147483648 \<le> unat p" "unat p < 4294967296" using p by simp_all
  then have ip: "2147483648 \<le> int (unat p)" "int (unat p) < 4294967296" by linarith+
  have "sint (word_of_int (int (unat p) - 2 ^ 32) :: 32 word) = int (unat p) - 2 ^ 32" by (rule sint_small) (use ip in simp_all)
  then show ?thesis using ip unfolding ptr_off_def diff_0_right u by simp
qed

lemma in_live_page:
  assumes "pages_ok c ad" "live c ad i" "off < BLK_SIZE c (MAX_SIZE c)"
  shows "unat (ad i + of_nat off) = unat (ad i) + off" "unat (ad i + of_nat off) < 2 ^ 32"
proof -
  have "unat (ad i) + off < 2 ^ 64" using liveD(2) [OF assms(1,2)] assms(3) by simp
  then show "unat (ad i + of_nat off) = unat (ad i) + off" by (rule unat_add_of_nat)
  then show "unat (ad i + of_nat off) < 2 ^ 32" using liveD(2) [OF assms(1,2)] assms(3) by simp
qed

lemma ptr_off_page:
  assumes "cfg_ok c" "pages_ok c ad" "live c ad i" "live c ad i'" "off < BLK_SIZE c (MAX_SIZE c)"
  shows "ptr_off (ad i + of_nat off) (ad i') = int (unat (ad i) + off) - int (unat (ad i'))"
proof -
  note l = liveD(1,2) [OF assms(2,3)] liveD(1,2) [OF assms(2,4)]
  have n: "2147483648 \<le> x \<Longrightarrow> x + n \<le> 4294967296 \<Longrightarrow> 2147483648 \<le> y \<Longrightarrow> y + n \<le> 4294967296 \<Longrightarrow> o1 < n \<Longrightarrow>
    - 2147483648 \<le> int (x + o1) - int y \<and> int (x + o1) - int y < 2147483648" for x y n o1 :: nat by linarith
  have l': "2147483648 \<le> unat (ad i)" "unat (ad i) + BLK_SIZE c (MAX_SIZE c) \<le> 4294967296" "2147483648 \<le> unat (ad i')"
    "unat (ad i') + BLK_SIZE c (MAX_SIZE c) \<le> 4294967296" using l by simp_all
  note b = n [OF l' assms(5)]
  show ?thesis by (rule ptr_off_eq [OF in_live_page(1) [OF assms(2,3,5)] refl]) (use b in blast)+
qed

lemma aligned_pages_disjoint:
  assumes "(n :: nat) dvd a" "n dvd b" "a \<noteq> b"
  shows "a + n \<le> b \<or> b + n \<le> a"
proof -
  obtain x y where xy: "a = n * x" "b = n * y" using assms(1,2) by (auto simp: dvd_def)
  then have "x < y \<or> y < x" using assms(3) by auto
  then have "n * (x + 1) \<le> n * y \<or> n * (y + 1) \<le> n * x" using mult_le_mono2 [of "x + 1" y n] mult_le_mono2 [of "y + 1" x n] by linarith
  then show ?thesis using xy by (simp add: add.commute)
qed

lemma live_disjoint:
  assumes "pages_ok c ad" "live c ad i" "live c ad i'" "i \<noteq> i'"
  shows "unat (ad i) + BLK_SIZE c (MAX_SIZE c) \<le> unat (ad i') \<or> unat (ad i') + BLK_SIZE c (MAX_SIZE c) \<le> unat (ad i)"
proof -
  have "ad i \<noteq> ad i'" using assms unfolding pages_ok_def live_def by blast
  then have "unat (ad i) \<noteq> unat (ad i')" using word_unat_eq_iff [of "ad i" "ad i'"] by blast
  then show ?thesis by (rule aligned_pages_disjoint [OF liveD(3) [OF assms(1,2)] liveD(3) [OF assms(1,3)]])
qed

lemma get_page_index_live:
  assumes ok: "cfg_ok c" "pages_ok c (page_addr s)" "live c (page_addr s) i" and off: "off < BLK_SIZE c (MAX_SIZE c)"
  shows "get_page_index c s (page_addr s i + of_nat off) = Some i"
proof -
  let ?ad = "page_addr s" and ?PG = "BLK_SIZE c (MAX_SIZE c)"
  let ?p = "?ad i + of_nat off"
  have step: "get_page_loop c s ?p (i' # is) = (if i' = i then Some i else get_page_loop c s ?p is)" if i': "i' \<le> i" for i' "is"
  proof (cases "?ad i' = 0")
    case True
    have ne: "i' \<noteq> i" using ok(3) True by (auto simp: live_def)
    then have "i' < i" using i' by simp
    then have "\<not> cf_stop c" using ok(2,3) True unfolding pages_ok_def live_def by blast
    note st = this ne
    have "ptr_off ?p 0 < 0"
      using ptr_off_null [of ?p] in_live_page [OF ok(2,3) off] liveD [OF ok(2,3)] by simp
    then show ?thesis using True st by (simp add: page_addr_def)
  next
    case False
    have l: "live c ?ad i'" using False ok(3) i' by (simp add: live_def)
    have o: "ptr_off ?p (?ad i') = int (unat (?ad i) + off) - int (unat (?ad i'))" by (rule ptr_off_page [OF ok l off])
    show ?thesis
    proof (cases "i' = i")
      case True
      then show ?thesis using o off False by (simp add: page_addr_def)
    next
      case ne: False
      have n: "x + n \<le> y \<or> y + n \<le> x \<Longrightarrow> off < n \<Longrightarrow> \<not> (0 \<le> int (x + off) - int y \<and> int (x + off) - int y < int n)" for x y n
        by linarith
      have "\<not> (0 \<le> ptr_off ?p (?ad i') \<and> ptr_off ?p (?ad i') < int ?PG)"
        unfolding o by (rule n [OF live_disjoint [OF ok(2) ok(3) l] off]) (use ne in simp)
      then show ?thesis using ne False by (auto simp: page_addr_def Let_def)
    qed
  qed
  have "get_page_loop c s ?p [m..<cf_npages c] = Some i" if "m \<le> i" for m
    using that
  proof (induction "i - m" arbitrary: m)
    case 0
    then show ?case using step [of i "[Suc i..<cf_npages c]"] ok(3) by (simp add: upt_conv_Cons live_def)
  next
    case (Suc d)
    then have "m < cf_npages c" using ok(3) by (simp add: live_def)
    then show ?case using step [of m "[Suc m..<cf_npages c]"] Suc by (simp add: upt_conv_Cons)
  qed
  then show ?thesis by (simp add: get_page_index_def)
qed

lemma blk_index_off:
  assumes "cfg_ok c" "pages_ok c ad" "live c ad i" "off < BLK_SIZE c (MAX_SIZE c)"
  shows "blk_index c k (ad i + of_nat off) (ad i) = off div BLK_SIZE c k"
proof -
  have "ptr_off (ad i + of_nat off) (ad i) = int off" using ptr_off_page [OF assms(1-3,3,4)] by simp
  moreover have "int off sdiv int (BLK_SIZE c k) = int (off div BLK_SIZE c k)"
    by (simp add: signed_divide_int_def sgn_if zdiv_int)
  ultimately show ?thesis by (simp add: blk_index_def)
qed

subsection \<open>The tree of blocks\<close>

fun node :: "bdcfg \<Rightarrow> (nat \<Rightarrow> u64) \<Rightarrow> block set \<Rightarrow> block \<Rightarrow> bool" where
  "node c ad S (i, k, j) \<longleftrightarrow> live c ad i \<and> (k = MAX_SIZE c \<and> j = 0 \<or> k < MAX_SIZE c \<and> (i, Suc k, j div 2) \<in> S)"

definition tree_ok :: "bdcfg \<Rightarrow> (nat \<Rightarrow> u64) \<Rightarrow> block set \<Rightarrow> bool" where
  "tree_ok c ad S \<longleftrightarrow> cfg_ok c \<and> pages_ok c ad \<and> (\<forall>b\<in>S. node c ad S b \<and> 0 < fst (snd b))"

definition leaves :: "bdcfg \<Rightarrow> (nat \<Rightarrow> u64) \<Rightarrow> block set \<Rightarrow> block set" where
  "leaves c ad S = {b. node c ad S b \<and> b \<notin> S}"

lemma tree_okD:
  assumes "tree_ok c ad S"
  shows "cfg_ok c" "pages_ok c ad" "b \<in> S \<Longrightarrow> node c ad S b" "(i, k, j) \<in> S \<Longrightarrow> 0 < k"
  using assms by (auto simp: tree_ok_def)

lemma node_live: "node c ad S (i, k, j) \<Longrightarrow> live c ad i" "node c ad S (i, k, j) \<Longrightarrow> k \<le> MAX_SIZE c"
  by auto

lemma node_ancestor:
  assumes t: "tree_ok c ad S" and n: "node c ad S (i, k, j)" and d: "0 < d" "k + d \<le> MAX_SIZE c"
  shows "(i, k + d, j div 2 ^ d) \<in> S"
  using d
proof (induction d)
  case (Suc d)
  show ?case
  proof (cases "d = 0")
    case True
    then show ?thesis using n Suc.prems by auto
  next
    case False
    then have "(i, k + d, j div 2 ^ d) \<in> S" using Suc by simp
    then have "node c ad S (i, k + d, j div 2 ^ d)" using tree_okD(3) [OF t] by blast
    then have "(i, Suc (k + d), j div 2 ^ d div 2) \<in> S" using Suc.prems by auto
    then show ?thesis by (simp add: div_mult2_eq mult.commute [of 2])
  qed
qed simp

lemma node_bound:
  assumes "tree_ok c ad S" "node c ad S (i, k, j)"
  shows "j < 2 ^ (MAX_SIZE c - k)"
proof (cases "k = MAX_SIZE c")
  case True
  then show ?thesis using assms(2) by simp
next
  case False
  then have k: "k < MAX_SIZE c" using assms(2) by auto
  then have "(i, k + (MAX_SIZE c - k), j div 2 ^ (MAX_SIZE c - k)) \<in> S" by (intro node_ancestor [OF assms]) simp_all
  then have "(i, MAX_SIZE c, j div 2 ^ (MAX_SIZE c - k)) \<in> S" using k by simp
  then have "node c ad S (i, MAX_SIZE c, j div 2 ^ (MAX_SIZE c - k))" by (rule tree_okD(3) [OF assms(1)])
  then have "j div 2 ^ (MAX_SIZE c - k) = 0" by auto
  then show ?thesis by (simp add: div_eq_0_iff)
qed

lemma BLK_SIZE_add: "BLK_SIZE c (k + d) = 2 ^ d * BLK_SIZE c k"
  by (simp add: BLK_SIZE_def power_add)

lemma BLK_SIZE_pos: "cfg_ok c \<Longrightarrow> 0 < BLK_SIZE c k"
  by (simp add: BLK_SIZE_def cfg_ok_def)

lemma node_off:
  assumes "tree_ok c ad S" "node c ad S (i, k, j)"
  shows "j * BLK_SIZE c k + BLK_SIZE c k \<le> BLK_SIZE c (MAX_SIZE c)" "j * BLK_SIZE c k < BLK_SIZE c (MAX_SIZE c)"
proof -
  have k: "k \<le> MAX_SIZE c" using node_live(2) [OF assms(2)] .
  have "BLK_SIZE c (MAX_SIZE c) = 2 ^ (MAX_SIZE c - k) * BLK_SIZE c k" using BLK_SIZE_add [of c k "MAX_SIZE c - k"] k by simp
  moreover have "Suc j * BLK_SIZE c k \<le> 2 ^ (MAX_SIZE c - k) * BLK_SIZE c k"
    using node_bound [OF assms] by (intro mult_le_mono1) simp
  ultimately show "j * BLK_SIZE c k + BLK_SIZE c k \<le> BLK_SIZE c (MAX_SIZE c)" by simp
  then show "j * BLK_SIZE c k < BLK_SIZE c (MAX_SIZE c)" using BLK_SIZE_pos [OF tree_okD(1) [OF assms(1)], of k] by simp
qed

lemma node_addr:
  assumes "tree_ok c ad S" "node c ad S (i, k, j)"
  shows "unat (baddr c ad (i, k, j)) = unat (ad i) + j * BLK_SIZE c k" "baddr c ad (i, k, j) \<noteq> 0"
proof -
  have l: "live c ad i" using node_live(1) [OF assms(2)] .
  show u: "unat (baddr c ad (i, k, j)) = unat (ad i) + j * BLK_SIZE c k"
    using in_live_page(1) [OF tree_okD(2) [OF assms(1)] l node_off(2) [OF assms]] by (simp add: blk_addr_def)
  then have "0 < unat (baddr c ad (i, k, j))" using liveD(1) [OF tree_okD(2) [OF assms(1)] l] by simp
  then show "baddr c ad (i, k, j) \<noteq> 0" by (metis less_irrefl unat_0)
qed

lemma node_index:
  assumes "tree_ok c ad S" "node c ad S (i, k, j)"
  shows "blk_index c k' (baddr c ad (i, k, j)) (ad i) = j * BLK_SIZE c k div BLK_SIZE c k'"
  using blk_index_off [OF tree_okD(1,2) [OF assms(1)] node_live(1) [OF assms(2)] node_off(2) [OF assms]] by (simp add: blk_addr_def)

lemma brange_addr:
  assumes "tree_ok c ad S" "node c ad S b"
  shows "unat (baddr c ad b) \<in> brange c ad b"
  using assms node_addr(1) [OF assms(1)] BLK_SIZE_pos [OF tree_okD(1) [OF assms(1)]] by (cases b) auto

text \<open>Two different leaves share no byte.\<close>

lemma overlap_index:
  assumes "j * b < (j' * 2 ^ d + 2 ^ d) * b" "j' * 2 ^ d * b < (j + 1) * (b :: nat)"
  shows "j div 2 ^ d = j'"
proof -
  have "j < j' * 2 ^ d + 2 ^ d" "j' * 2 ^ d < j + 1" using assms by (simp_all only: mult_less_cancel2)
  then show ?thesis by (intro div_nat_eqI) (simp_all add: mult.commute)
qed

lemma leaf_overlap:
  assumes t: "tree_ok c ad S" and b: "(i, k, j) \<in> leaves c ad S" and b': "(i, k', j') \<in> leaves c ad S" and k: "k \<le> k'"
    and x: "x \<in> brange c ad (i, k, j)" "x \<in> brange c ad (i, k', j')"
  shows "(i, k, j) = (i, k', j')"
proof -
  obtain d where d: "k' = k + d" using k le_Suc_ex by blast
  have "j * BLK_SIZE c k < (j' * 2 ^ d + 2 ^ d) * BLK_SIZE c k" "j' * 2 ^ d * BLK_SIZE c k < (j + 1) * BLK_SIZE c k"
    using x BLK_SIZE_add [of c k d] by (auto simp: d algebra_simps)
  then have e: "j div 2 ^ d = j'" by (rule overlap_index)
  have n: "node c ad S (i, k, j)" "node c ad S (i, k', j')" "(i, k', j') \<notin> S" using b b' by (simp_all add: leaves_def)
  have "d = 0"
  proof (rule ccontr)
    assume "d \<noteq> 0"
    then have "(i, k + d, j div 2 ^ d) \<in> S" using node_live(2) [OF n(2)] d by (intro node_ancestor [OF t n(1)]) simp_all
    then show False using n(3) e d by simp
  qed
  then show ?thesis using d e by simp
qed

lemma page_range:
  assumes "tree_ok c ad S" "node c ad S (i, k, j)"
  shows "brange c ad (i, k, j) \<subseteq> {unat (ad i) ..< unat (ad i) + BLK_SIZE c (MAX_SIZE c)}"
  using node_off(1) [OF assms] by auto

lemma leaves_disjoint:
  assumes t: "tree_ok c ad S" and b: "b \<in> leaves c ad S" "b' \<in> leaves c ad S" "b \<noteq> b'"
  shows "brange c ad b \<inter> brange c ad b' = {}"
proof (rule ccontr)
  assume "\<not> ?thesis"
  then obtain x where x: "x \<in> brange c ad b" "x \<in> brange c ad b'" by blast
  obtain i k j i' k' j' where e: "b = (i, k, j)" "b' = (i', k', j')" by (cases b, cases b')
  have n: "node c ad S (i, k, j)" "node c ad S (i', k', j')" using b e by (simp_all add: leaves_def)
  show False
  proof (cases "i = i'")
    case True
    have bb: "(i, k, j) \<in> leaves c ad S" "(i, k', j') \<in> leaves c ad S" "x \<in> brange c ad (i, k, j)" "x \<in> brange c ad (i, k', j')"
      using b x e True by simp_all
    have "(i, k, j) = (i, k', j')"
      using leaf_overlap [OF t bb(1,2) _ bb(3,4)] leaf_overlap [OF t bb(2,1) _ bb(4,3)] by (metis nat_le_linear)
    then show ?thesis using b(3) e True by simp
  next
    case False
    have "x \<in> {unat (ad i) ..< unat (ad i) + BLK_SIZE c (MAX_SIZE c)}" "x \<in> {unat (ad i') ..< unat (ad i') + BLK_SIZE c (MAX_SIZE c)}"
      using page_range [OF t n(1)] page_range [OF t n(2)] x e by blast+
    then show ?thesis using live_disjoint [OF tree_okD(2) [OF t] node_live(1) [OF n(1)] node_live(1) [OF n(2)] False] by auto
  qed
qed

lemma leaves_inj: "tree_ok c ad S \<Longrightarrow> inj_on (baddr c ad) (leaves c ad S)"
proof (rule inj_onI)
  fix b b'
  assume t: "tree_ok c ad S" and b: "b \<in> leaves c ad S" "b' \<in> leaves c ad S" and e: "baddr c ad b = baddr c ad b'"
  have "unat (baddr c ad b) \<in> brange c ad b \<inter> brange c ad b'"
    using brange_addr [OF t, of b] brange_addr [OF t, of b'] b e by (simp add: leaves_def)
  then show "b = b'" using leaves_disjoint [OF t b] by blast
qed

subsection \<open>The free lists\<close>

definition at_level :: "block set \<Rightarrow> nat \<Rightarrow> block set" where
  "at_level F k = {b \<in> F. fst (snd b) = k}"

definition listed :: "bdcfg \<Rightarrow> (nat \<Rightarrow> u64) \<Rightarrow> links \<Rightarrow> block set \<Rightarrow> bool" where
  "listed c ad l F \<longleftrightarrow> (\<exists>L. rings l (cf_nsizes c) L \<and> (\<forall>k<cf_nsizes c. set (L k) = baddr c ad ` at_level F k))"

lemma at_level_insert: "at_level (insert (i, k, j) F) k' = (if k' = k then insert (i, k, j) (at_level F k') else at_level F k')"
  by (auto simp: at_level_def)

lemma at_level_remove: "at_level (F - {(i, k, j)}) k' = (if k' = k then at_level F k' - {(i, k, j)} else at_level F k')"
  by (auto simp: at_level_def)

lemma at_level_sub: "at_level F k \<subseteq> F"
  by (auto simp: at_level_def)

lemma listed_push:
  assumes l: "listed c ad l F" and k: "k < cf_nsizes c" and b: "(i, k, j) \<notin> F" "baddr c ad (i, k, j) \<noteq> 0"
    and inj: "inj_on (baddr c ad) (insert (i, k, j) F)"
  shows "\<exists>l'. lst_push l (Head k) (Blk (baddr c ad (i, k, j))) = Ret l' \<and> listed c ad l' (insert (i, k, j) F)"
proof -
  let ?b = "(i, k, j)"
  obtain L where L: "rings l (cf_nsizes c) L" "\<And>k'. k' < cf_nsizes c \<Longrightarrow> set (L k') = baddr c ad ` at_level F k'"
    using l by (auto simp: listed_def)
  have "baddr c ad ?b \<notin> baddr c ad ` F" using inj b(1) by (simp del: baddr.simps)
  then have "baddr c ad ?b \<notin> set (L k')" if "k' < cf_nsizes c" for k' using L(2) [OF that] at_level_sub [of F k'] by blast
  then obtain l' where l': "lst_push l (Head k) (Blk (baddr c ad ?b)) = Ret l'" "rings l' (cf_nsizes c) (L(k := baddr c ad ?b # L k))"
    using lst_push_rings [OF L(1) k b(2)] by blast
  have "set ((L(k := baddr c ad ?b # L k)) k') = baddr c ad ` at_level (insert ?b F) k'" if "k' < cf_nsizes c" for k'
    using L(2) [OF that] L(2) [OF k] by (simp add: at_level_insert del: baddr.simps)
  then show ?thesis using l' unfolding listed_def by blast
qed

lemma image_remove:
  assumes "inj_on f F" "A \<subseteq> F" "b \<in> F"
  shows "f ` (A - {b}) = f ` A - {f b}"
  using assms inj_on_image_set_diff [of f F A "{b}"] by auto

lemma listed_remove:
  assumes l: "listed c ad l F" and k: "k < cf_nsizes c" and b: "(i, k, j) \<in> F" and inj: "inj_on (baddr c ad) F"
  shows "\<exists>l'. lst_remove l (Blk (baddr c ad (i, k, j))) = Ret l' \<and> listed c ad l' (F - {(i, k, j)})"
proof -
  let ?b = "(i, k, j)"
  obtain L where L: "rings l (cf_nsizes c) L" "\<And>k'. k' < cf_nsizes c \<Longrightarrow> set (L k') = baddr c ad ` at_level F k'"
    using l by (auto simp: listed_def)
  have "?b \<in> at_level F k" using b by (simp add: at_level_def)
  then have "baddr c ad ?b \<in> set (L k)" using L(2) [OF k] by blast
  then obtain l' where l': "lst_remove l (Blk (baddr c ad ?b)) = Ret l'" "rings l' (cf_nsizes c) (L(k := remove1 (baddr c ad ?b) (L k)))"
    using lst_remove_rings [OF L(1) k] by blast
  have "set ((L(k := remove1 (baddr c ad ?b) (L k))) k') = baddr c ad ` at_level (F - {?b}) k'" if "k' < cf_nsizes c" for k'
    using L(2) [OF that] L(2) [OF k] ringsD(3) [OF L(1) k] image_remove [OF inj at_level_sub b, of k]
    by (simp add: at_level_remove del: baddr.simps)
  then show ?thesis using l' unfolding listed_def by blast
qed

lemma listed_empty:
  assumes "listed c ad l F" "k < cf_nsizes c"
  shows "lst_empty l (Head k) \<longleftrightarrow> at_level F k = {}"
proof -
  obtain L where L: "rings l (cf_nsizes c) L" "\<And>k'. k' < cf_nsizes c \<Longrightarrow> set (L k') = baddr c ad ` at_level F k'"
    using assms(1) by (auto simp: listed_def)
  show ?thesis using lst_empty_rings [OF L(1) assms(2)] L(2) [OF assms(2)] by (metis image_is_empty set_empty)
qed

lemma listed_pop:
  assumes l: "listed c ad l F" and k: "k < cf_nsizes c" and ne: "at_level F k \<noteq> {}" and inj: "inj_on (baddr c ad) F"
  shows "\<exists>i j l'. lst_pop l (Head k) = Ret (Blk (baddr c ad (i, k, j)), l') \<and> (i, k, j) \<in> F \<and> listed c ad l' (F - {(i, k, j)})"
proof -
  obtain L where L: "rings l (cf_nsizes c) L" "\<And>k'. k' < cf_nsizes c \<Longrightarrow> set (L k') = baddr c ad ` at_level F k'"
    using l by (auto simp: listed_def)
  have "L k \<noteq> []" using L(2) [OF k] ne by auto
  then obtain p ps where ps: "L k = p # ps" by (cases "L k") auto
  then have "p \<in> baddr c ad ` at_level F k" using L(2) [OF k] by auto
  then obtain i j where b: "p = baddr c ad (i, k, j)" "(i, k, j) \<in> F" by (auto simp: at_level_def)
  obtain l' where l': "lst_pop l (Head k) = Ret (Blk p, l')" "rings l' (cf_nsizes c) (L(k := ps))"
    using lst_pop_rings [OF L(1) k] ps by auto
  have d: "p \<notin> set ps" using ringsD(3) [OF L(1) k] ps by simp
  have "set ((L(k := ps)) k') = baddr c ad ` at_level (F - {(i, k, j)}) k'" if "k' < cf_nsizes c" for k'
    using L(2) [OF that] L(2) [OF k] ps d b(1) image_remove [OF inj at_level_sub b(2), of k]
    by (cases "k' = k") (auto simp: at_level_remove simp del: baddr.simps)
  then show ?thesis using l' b unfolding listed_def by blast
qed

subsection \<open>Splitting and merging\<close>

lemma half_cases: "m div 2 = j \<longleftrightarrow> m = 2 * j \<or> m = 2 * j + (1 :: nat)"
  by presburger

lemma tree_split:
  assumes t: "tree_ok c ad S" and b: "(i, Suc k, j) \<in> leaves c ad S"
  shows "tree_ok c ad (insert (i, Suc k, j) S)"
    "leaves c ad (insert (i, Suc k, j) S) = leaves c ad S - {(i, Suc k, j)} \<union> {(i, k, 2 * j), (i, k, 2 * j + 1)}"
proof -
  let ?b = "(i, Suc k, j)"
  have n: "node c ad S ?b" "?b \<notin> S" using b by (simp_all add: leaves_def)
  have up: "node c ad (insert ?b S) x \<longleftrightarrow> node c ad S x \<or> x = (i, k, 2 * j) \<or> x = (i, k, 2 * j + 1)" for x
    using n half_cases [of _ j] by (cases x) auto
  have ch: "(i, k, 2 * j) \<notin> S" "(i, k, 2 * j + 1) \<notin> S"
    using tree_okD(3) [OF t, of "(i, k, 2 * j)"] tree_okD(3) [OF t, of "(i, k, 2 * j + 1)"] n by auto
  show "tree_ok c ad (insert ?b S)" using t n(1) unfolding tree_ok_def up by auto
  have "?b \<noteq> (i, k, 2 * j)" "?b \<noteq> (i, k, 2 * j + 1)" by simp_all
  then show "leaves c ad (insert ?b S) = leaves c ad S - {?b} \<union> {(i, k, 2 * j), (i, k, 2 * j + 1)}"
    using ch by (auto simp: leaves_def up simp del: node.simps)
qed

lemma tree_merge:
  assumes t: "tree_ok c ad S" and b: "(i, Suc k, j) \<in> S" and ch: "(i, k, 2 * j) \<notin> S" "(i, k, 2 * j + 1) \<notin> S"
  shows "tree_ok c ad (S - {(i, Suc k, j)})"
    "leaves c ad (S - {(i, Suc k, j)}) = leaves c ad S - {(i, k, 2 * j), (i, k, 2 * j + 1)} \<union> {(i, Suc k, j)}"
proof -
  let ?b = "(i, Suc k, j)"
  have n: "node c ad S ?b" using tree_okD(3) [OF t b] .
  have up: "node c ad (S - {?b}) x \<longleftrightarrow> node c ad S x \<and> x \<noteq> (i, k, 2 * j) \<and> x \<noteq> (i, k, 2 * j + 1)" for x
    using n half_cases [of _ j] by (cases x) auto
  show "tree_ok c ad (S - {?b})" using t ch unfolding tree_ok_def up by auto
  have "?b \<noteq> (i, k, 2 * j)" "?b \<noteq> (i, k, 2 * j + 1)" by simp_all
  then show "leaves c ad (S - {?b}) = leaves c ad S - {(i, k, 2 * j), (i, k, 2 * j + 1)} \<union> {?b}"
    using n b ch by (auto simp: leaves_def up simp del: node.simps)
qed

subsection \<open>The invariant\<close>

text \<open>\<open>U\<close> is the set of the blocks in use. The map of allocated blocks is exact below the largest size, where the code
  never reads it; and of two buddies at least one is in use, directly or in part.\<close>

definition marked :: "bdcfg \<Rightarrow> block set \<Rightarrow> block set \<Rightarrow> bool" where
  "marked c A B \<longleftrightarrow> (\<forall>i k j. k < MAX_SIZE c \<longrightarrow> ((i, k, j) \<in> A \<longleftrightarrow> (i, k, j) \<in> B))"

definition coalesced :: "block set \<Rightarrow> block set \<Rightarrow> bool" where
  "coalesced S B \<longleftrightarrow> (\<forall>i k j. (i, Suc k, j) \<in> S \<longrightarrow> (i, k, 2 * j) \<in> B \<or> (i, k, 2 * j + 1) \<in> B)"

definition bd_ok :: "bdcfg \<Rightarrow> (nat \<Rightarrow> u64) \<Rightarrow> block set \<Rightarrow> block set \<Rightarrow> links \<Rightarrow> block set \<Rightarrow> bool" where
  "bd_ok c ad A S l U \<longleftrightarrow>
     tree_ok c ad S \<and> U \<subseteq> leaves c ad S \<and> marked c A (S \<union> U) \<and> coalesced S (S \<union> U) \<and> listed c ad l (leaves c ad S - U)"

lemma bd_okD:
  assumes "bd_ok c ad A S l U"
  shows "tree_ok c ad S" "U \<subseteq> leaves c ad S" "marked c A (S \<union> U)" "coalesced S (S \<union> U)" "listed c ad l (leaves c ad S - U)"
    "inj_on (baddr c ad) (leaves c ad S)" "cfg_ok c" "pages_ok c ad"
  using assms tree_okD(1,2) [of c ad S] leaves_inj [of c ad S] unfolding bd_ok_def by blast+

lemma leaf_level:
  assumes "bd_ok c ad A S l U" "(i, k, j) \<in> leaves c ad S"
  shows "k < cf_nsizes c" "live c ad i" "node c ad S (i, k, j)" "baddr c ad (i, k, j) \<noteq> 0"
proof -
  show n: "node c ad S (i, k, j)" using assms(2) by (simp add: leaves_def)
  show "k < cf_nsizes c" using node_live(2) [OF n] bd_okD(7) [OF assms(1)] unfolding cfg_ok_def MAX_SIZE_def by linarith
  show "live c ad i" by (rule node_live(1) [OF n])
  show "baddr c ad (i, k, j) \<noteq> 0" by (rule node_addr(2) [OF bd_okD(1) [OF assms(1)] n])
qed

text \<open>Taking a free block off its list.\<close>

lemma bd_ok_take:
  assumes "bd_ok c ad A S l U" "b \<in> leaves c ad S" "listed c ad l' (leaves c ad S - U - {b})"
  shows "bd_ok c ad (insert b A) S l' (insert b U)"
proof -
  note d = bd_okD [OF assms(1)]
  have "leaves c ad S - U - {b} = leaves c ad S - insert b U" by blast
  then have "listed c ad l' (leaves c ad S - insert b U)" using assms(3) by (simp only:)
  moreover have "marked c (insert b A) (S \<union> insert b U)" using d(3) unfolding marked_def by auto
  moreover have "coalesced S (S \<union> insert b U)" using d(4) unfolding coalesced_def by blast
  ultimately show ?thesis using d(1,2) assms(2) unfolding bd_ok_def by blast
qed

lemma bd_ok_split:
  assumes ok: "bd_ok c ad A S l U" and b: "(i, Suc k, j) \<in> U"
  shows "\<exists>l'. lst_push l (Head k) (Blk (baddr c ad (i, k, 2 * j + 1))) = Ret l' \<and>
     bd_ok c ad (insert (i, k, 2 * j) A) (insert (i, Suc k, j) S) l' (insert (i, k, 2 * j) (U - {(i, Suc k, j)}))"
proof -
  let ?b = "(i, Suc k, j)" and ?x = "(i, k, 2 * j)" and ?y = "(i, k, 2 * j + 1)"
  let ?S = "insert ?b S" and ?U = "insert ?x (U - {?b})"
  note d = bd_okD [OF ok]
  have lf: "?b \<in> leaves c ad S" using b d(2) by blast
  note t = tree_split [OF d(1) lf]
  have nb: "?b \<notin> S" and node: "node c ad S ?b" using lf by (simp_all add: leaves_def)
  have ch: "?x \<notin> leaves c ad S" "?y \<notin> leaves c ad S" "?x \<noteq> ?y" "?b \<noteq> ?x" "?b \<noteq> ?y" using nb node_live(2) [OF node] by (auto simp: leaves_def)
  have S: "?x \<notin> S" "?y \<notin> S" using tree_okD(3) [OF d(1), of ?x] tree_okD(3) [OF d(1), of ?y] nb node_live(2) [OF node] by auto
  have free: "leaves c ad ?S - ?U = insert ?y (leaves c ad S - U)" unfolding t(2) using ch b d(2) by auto
  have y: "?y \<in> leaves c ad ?S" unfolding t(2) by simp
  have k: "k < cf_nsizes c" using leaf_level(1) [OF ok lf] by simp
  have "node c ad ?S ?y" using y by (simp add: leaves_def)
  then have y0: "baddr c ad ?y \<noteq> 0" by (rule node_addr(2) [OF t(1)])
  have inj: "inj_on (baddr c ad) (insert ?y (leaves c ad S - U))"
    using leaves_inj [OF t(1)] unfolding free [symmetric] by (rule inj_on_subset) blast
  obtain l' where l': "lst_push l (Head k) (Blk (baddr c ad ?y)) = Ret l'" "listed c ad l' (insert ?y (leaves c ad S - U))"
    using listed_push [OF d(5) k _ y0 inj] ch(2) by blast
  have "?U \<subseteq> leaves c ad ?S" unfolding t(2) using d(2) by blast
  moreover have "marked c (insert ?x A) (?S \<union> ?U)" using d(3) b unfolding marked_def by auto
  moreover have "coalesced ?S (?S \<union> ?U)" using d(4) b unfolding coalesced_def by auto
  ultimately have "bd_ok c ad (insert ?x A) ?S l' ?U" using t(1) l'(2) unfolding bd_ok_def free by simp
  then show ?thesis using l'(1) by blast
qed

definition buddy_of :: "nat \<Rightarrow> nat" where
  "buddy_of j = (if j mod 2 = 0 then j + 1 else j - 1)"

lemma buddy_pair: "{j, buddy_of j} = {2 * (j div 2), 2 * (j div 2) + 1}" "buddy_of j \<noteq> j" "buddy_of j div 2 = j div 2"
  by (auto simp: buddy_of_def) presburger+

lemma bd_ok_merge:
  assumes ok: "bd_ok c ad A S l U" and b: "(i, k, j) \<in> U" and k: "k < MAX_SIZE c" and bud: "(i, k, buddy_of j) \<notin> A"
  defines "pb \<equiv> (i, Suc k, j div 2)"
  shows "\<exists>l'. lst_remove l (Blk (baddr c ad (i, k, buddy_of j))) = Ret l' \<and>
     bd_ok c ad (insert pb (A - {(i, k, j)})) (S - {pb}) l' (insert pb (U - {(i, k, j)}))"
proof -
  let ?b = "(i, k, j)" and ?y = "(i, k, buddy_of j)"
  let ?S = "S - {pb}" and ?U = "insert pb (U - {?b})"
  note d = bd_okD [OF ok]
  have lf: "?b \<in> leaves c ad S" using b d(2) by blast
  have nb: "?b \<notin> S" and node: "node c ad S ?b" using lf by (simp_all add: leaves_def)
  have p: "pb \<in> S" and lv: "live c ad i" using node k by (auto simp: pb_def)
  have yn: "?y \<notin> S" "?y \<notin> U" using d(3) k bud unfolding marked_def by auto
  have "node c ad S ?y" using p lv k buddy_pair(3) [of j] by (simp add: pb_def)
  then have yl: "?y \<in> leaves c ad S" using yn(1) by (simp add: leaves_def)
  have two: "{?b, ?y} = {(i, k, 2 * (j div 2)), (i, k, 2 * (j div 2) + 1)}" using buddy_pair(1) [of j] by (auto simp: doubleton_eq_iff)
  have "{?b, ?y} \<inter> S = {}" using nb yn(1) by blast
  then have ch: "(i, k, 2 * (j div 2)) \<notin> S" "(i, k, 2 * (j div 2) + 1) \<notin> S" unfolding two by simp_all
  note t = tree_merge [OF d(1) p [unfolded pb_def] ch, folded pb_def, folded two]
  have pl: "pb \<notin> leaves c ad S" "pb \<notin> U" "pb \<noteq> ?b" "pb \<noteq> ?y" using p d(2) by (auto simp: leaves_def pb_def)
  have free: "leaves c ad ?S - ?U = leaves c ad S - U - {?y}" unfolding t(2) using pl b yn(2) by auto
  have "inj_on (baddr c ad) (leaves c ad S - U)" using d(6) by (rule inj_on_subset) blast
  then obtain l' where l': "lst_remove l (Blk (baddr c ad ?y)) = Ret l'" "listed c ad l' (leaves c ad S - U - {?y})"
    using listed_remove [OF d(5) leaf_level(1) [OF ok yl]] yl yn(2) by blast
  have "?U \<subseteq> leaves c ad ?S" unfolding t(2) using d(2) yn(2) by auto
  moreover have "marked c (insert pb (A - {?b})) (?S \<union> ?U)" using d(3) nb unfolding marked_def by auto
  moreover have "coalesced ?S (?S \<union> ?U)"
  proof -
    have "(i', k', 2 * j') \<in> ?S \<union> ?U \<or> (i', k', 2 * j' + 1) \<in> ?S \<union> ?U" if a: "(i', Suc k', j') \<in> ?S" for i' k' j'
    proof -
      have "?b \<noteq> (i', k', 2 * j')" "?b \<noteq> (i', k', 2 * j' + 1)" using a by (auto simp: pb_def)
      then show ?thesis using d(4) a unfolding coalesced_def by blast
    qed
    then show ?thesis by (simp add: coalesced_def)
  qed
  ultimately have "bd_ok c ad (insert pb (A - {?b})) ?S l' ?U" using t(1) l'(2) unfolding bd_ok_def free by simp
  then show ?thesis using l'(1) by blast
qed

lemma bd_ok_release:
  assumes ok: "bd_ok c ad A S l U" and b: "(i, k, j) \<in> U" and bud: "k < MAX_SIZE c \<Longrightarrow> (i, k, buddy_of j) \<in> A"
  shows "\<exists>l'. lst_push l (Head k) (Blk (baddr c ad (i, k, j))) = Ret l' \<and> bd_ok c ad (A - {(i, k, j)}) S l' (U - {(i, k, j)})"
proof -
  let ?b = "(i, k, j)"
  note d = bd_okD [OF ok]
  have lf: "?b \<in> leaves c ad S" using b d(2) by blast
  note lev = leaf_level [OF ok lf]
  have nb: "?b \<notin> S" using lf by (simp add: leaves_def)
  have free: "leaves c ad S - (U - {?b}) = insert ?b (leaves c ad S - U)" using lf by blast
  have inj: "inj_on (baddr c ad) (insert ?b (leaves c ad S - U))" using d(6) by (rule inj_on_subset) (use lf in blast)
  obtain l' where l': "lst_push l (Head k) (Blk (baddr c ad ?b)) = Ret l'" "listed c ad l' (insert ?b (leaves c ad S - U))"
    using listed_push [OF d(5) lev(1) _ lev(4) inj] b by blast
  have "coalesced S (S \<union> (U - {?b}))"
  proof -
    have "(i', k', 2 * j') \<in> S \<union> (U - {?b}) \<or> (i', k', 2 * j' + 1) \<in> S \<union> (U - {?b})" if a: "(i', Suc k', j') \<in> S" for i' k' j'
    proof (cases "i' = i \<and> k' = k \<and> j div 2 = j'")
      case True
      then have "Suc k \<le> MAX_SIZE c" using a tree_okD(3) [OF d(1)] node_live(2) by blast
      then have k: "k < MAX_SIZE c" by simp
      then have "(i, k, buddy_of j) \<in> S \<union> U" using bud [OF k] d(3) unfolding marked_def by blast
      moreover have "(i, k, buddy_of j) \<noteq> ?b" using buddy_pair(2) [of j] by simp
      moreover have "buddy_of j = 2 * j' \<or> buddy_of j = 2 * j' + 1" using buddy_pair(1) [of j] True by (auto simp: doubleton_eq_iff)
      ultimately show ?thesis using True by auto
    next
      case False
      have "?b \<noteq> (i', k', 2 * j')" "?b \<noteq> (i', k', 2 * j' + 1)" using False by auto
      then show ?thesis using d(4) a unfolding coalesced_def by blast
    qed
    then show ?thesis by (simp add: coalesced_def)
  qed
  moreover have "marked c (A - {?b}) (S \<union> (U - {?b}))" using d(3) nb unfolding marked_def by auto
  ultimately have "bd_ok c ad (A - {?b}) S l' (U - {?b})" using d(1,2) l'(2) unfolding bd_ok_def free by blast
  then show ?thesis using l'(1) by blast
qed

end
