(* ===== verification/Buddyalloc.thy ===== *)
theory Buddyalloc
  imports Blocks
begin

text \<open>
  Correctness of the buddy allocators: the operations keep the invariant of Blocks, an allocation hands out a block
  of the right size class that shares no byte with the blocks in use, and a release merges
  buddies as far as possible, so that a page whose blocks are all returned is whole again.
\<close>

definition bd_inv :: "bdcfg \<Rightarrow> bdtab \<Rightarrow> block set \<Rightarrow> bool" where
  "bd_inv c s U \<longleftrightarrow> bd_ok c (page_addr s) (alloc_bits s) (split_bits s) (bt_links s) U"

subsection \<open>Size classes\<close>

lemma firstk_loop_least:
  assumes "2 ^ k \<le> sz" "sz < 2 ^ 31" "n \<le> 2 ^ 30" "31 \<le> fuel + k" "0 < fuel"
  shows "\<exists>d. firstk_loop fuel n k (of_nat sz) = Ret (k + d) \<and> n \<le> int (sz * 2 ^ d) \<and> (\<forall>e<d. int (sz * 2 ^ e) < n)"
  using assms
proof (induction fuel arbitrary: k sz)
  case (Suc fuel)
  have si: "sint (of_nat sz :: 32 word) = int sz" using Suc.prems(2) sint_small [of "int sz"] by simp
  show ?case
  proof (cases "int sz < n")
    case False
    then show ?thesis using si by (intro exI [of _ 0]) simp
  next
    case True
    then have "int sz < 2 ^ 30" using Suc.prems(3) by (rule less_le_trans)
    then have sz: "sz < 2 ^ 30" by simp
    then have "(2 :: nat) ^ k < 2 ^ 30" using Suc.prems(1) by (rule le_less_trans [rotated])
    then have "k < 30" by (rule power_less_imp_less_exp [rotated]) simp
    then have f: "0 < fuel" "31 \<le> fuel + Suc k" using Suc.prems(4) by simp_all
    have "2 ^ Suc k \<le> sz * 2" "sz * 2 < 2 ^ 31" using Suc.prems(1) sz by simp_all
    from Suc.IH [OF this Suc.prems(3) f(2,1)]
    obtain d where d: "firstk_loop fuel n (Suc k) (of_nat (sz * 2)) = Ret (Suc k + d)" "n \<le> int (sz * 2 * 2 ^ d)"
      "\<forall>e<d. int (sz * 2 * 2 ^ e) < n" by blast
    have "\<forall>e<Suc d. int (sz * 2 ^ e) < n"
    proof (intro allI impI)
      fix e
      assume "e < Suc d"
      then show "int (sz * 2 ^ e) < n" using d(3) True by (cases e) (auto simp: algebra_simps)
    qed
    then show ?thesis using d(1,2) si True by (intro exI [of _ "Suc d"]) (simp add: algebra_simps)
  qed
qed simp

lemma firstk_least:
  assumes "0 < cf_leaf c" "cf_leaf c < 2 ^ 31" "n \<le> 2 ^ 30"
  shows "\<exists>k. firstk c n = Ret k \<and> n \<le> int (BLK_SIZE c k) \<and> (\<forall>e<k. int (BLK_SIZE c e) < n)"
  using firstk_loop_least [of 0 "cf_leaf c" n 40] assms by (auto simp: firstk_def BLK_SIZE_def mult.commute)

lemma cfg_leaf: "cfg_ok c \<Longrightarrow> 0 < cf_leaf c \<and> cf_leaf c < 2 ^ 31"
proof -
  assume c: "cfg_ok c"
  have "1 * cf_leaf c \<le> 2 ^ MAX_SIZE c * cf_leaf c" by (intro mult_le_mono1) simp
  then have "cf_leaf c \<le> 2 ^ 20" using c unfolding cfg_ok_def BLK_SIZE_def by linarith
  then show ?thesis using c by (simp add: cfg_ok_def)
qed

subsection \<open>Halves\<close>

lemma baddr_half:
  "baddr c ad (i, k, 2 * j) = baddr c ad (i, Suc k, j)"
  "baddr c ad (i, k, 2 * j + 1) = baddr c ad (i, Suc k, j) + of_nat (BLK_SIZE c k)"
  by (simp_all add: blk_addr_def BLK_SIZE_def algebra_simps)

lemma brange_half: "brange c ad (i, k, 2 * j) \<subseteq> brange c ad (i, Suc k, j)"
  by (auto simp: BLK_SIZE_def)

lemma index_same:
  assumes "bd_ok c ad A S l U" "(i, k, j) \<in> leaves c ad S"
  shows "blk_index c k (baddr c ad (i, k, j)) (ad i) = j" "blk_index c (Suc k) (baddr c ad (i, k, j)) (ad i) = j div 2"
    "blk_index c m (baddr c ad (i, k, j)) (ad i) = j * BLK_SIZE c k div BLK_SIZE c m"
proof -
  note n = node_index [OF bd_okD(1) [OF assms(1)] leaf_level(3) [OF assms]]
  show "blk_index c m (baddr c ad (i, k, j)) (ad i) = j * BLK_SIZE c k div BLK_SIZE c m" by (rule n)
  have p: "0 < BLK_SIZE c k" by (rule BLK_SIZE_pos [OF bd_okD(7) [OF assms(1)]])
  then show "blk_index c k (baddr c ad (i, k, j)) (ad i) = j" unfolding n by simp
  have "BLK_SIZE c (Suc k) = 2 * BLK_SIZE c k" by (simp add: BLK_SIZE_def)
  then show "blk_index c (Suc k) (baddr c ad (i, k, j)) (ad i) = j div 2" unfolding n using p by simp
qed

subsection \<open>Allocation\<close>

lemma split_turn:
  assumes inv: "bd_inv c s U" and b: "(i, Suc k, j) \<in> U"
  defines "p \<equiv> baddr c (page_addr s) (i, Suc k, j)" and "pb \<equiv> page_addr s i"
  shows "\<exists>s'. page_addr s' = page_addr s \<and> bd_inv c s' (insert (i, k, 2 * j) (U - {(i, Suc k, j)})) \<and>
     (\<forall>fk. fk < Suc k \<longrightarrow> split_down c s i p pb fk (Suc k) = split_down c s' i p pb fk k)"
proof -
  note ok = inv [unfolded bd_inv_def]
  have lf: "(i, Suc k, j) \<in> leaves c (page_addr s) (split_bits s)" using b bd_okD(2) [OF ok] by blast
  obtain l' where l': "lst_push (bt_links s) (Head k) (Blk (baddr c (page_addr s) (i, k, 2 * j + 1))) = Ret l'"
    "bd_ok c (page_addr s) (insert (i, k, 2 * j) (alloc_bits s)) (insert (i, Suc k, j) (split_bits s)) l' (insert (i, k, 2 * j) (U - {(i, Suc k, j)}))"
    using bd_ok_split [OF ok b] by blast
  have ix: "blk_index c (Suc k) p pb = j" "blk_index c k p pb = 2 * j"
  proof -
    show "blk_index c (Suc k) p pb = j" unfolding p_def pb_def by (rule index_same(1) [OF ok lf])
    have e: "j * BLK_SIZE c (Suc k) = 2 * j * BLK_SIZE c k" by (simp add: BLK_SIZE_def)
    show "blk_index c k p pb = 2 * j" unfolding p_def pb_def index_same(3) [OF ok lf] e
      using BLK_SIZE_pos [OF bd_okD(7) [OF ok], of k] by simp
  qed
  define s' where "s' = (upd_alloc bit_set (upd_split bit_set s i (Suc k) j) i k (2 * j))\<lparr>bt_links := l'\<rparr>"
  have "page_addr s' = page_addr s" "bd_inv c s' (insert (i, k, 2 * j) (U - {(i, Suc k, j)}))" using l'(2) by (simp_all add: s'_def bd_inv_def)
  moreover have "split_down c s i p pb fk (Suc k) = split_down c s' i p pb fk k" if "fk < Suc k" for fk
    using l'(1) that ix unfolding baddr_half p_def [symmetric] by (simp add: s'_def Let_def)
  ultimately show ?thesis by blast
qed

lemma split_down_ok:
  assumes "bd_inv c s U" "(i, k, j) \<in> U" "fk \<le> k"
  shows "\<exists>s' j'. split_down c s i (baddr c (page_addr s) (i, k, j)) (page_addr s i) fk k = Ret s' \<and> page_addr s' = page_addr s \<and>
     bd_inv c s' (insert (i, fk, j') (U - {(i, k, j)})) \<and> baddr c (page_addr s) (i, fk, j') = baddr c (page_addr s) (i, k, j) \<and>
     brange c (page_addr s) (i, fk, j') \<subseteq> brange c (page_addr s) (i, k, j)"
  using assms
proof (induction k arbitrary: s U j)
  case 0
  then show ?case by (intro exI [of _ s] exI [of _ j]) (simp add: insert_absorb)
next
  case (Suc k)
  show ?case
  proof (cases "fk = Suc k")
    case True
    then show ?thesis using Suc.prems by (intro exI [of _ s] exI [of _ j]) (simp add: insert_absorb)
  next
    case False
    then have fk: "fk < Suc k" "fk \<le> k" using Suc.prems(3) by simp_all
    obtain s1 where s1: "page_addr s1 = page_addr s" "bd_inv c s1 (insert (i, k, 2 * j) (U - {(i, Suc k, j)}))"
      "split_down c s i (baddr c (page_addr s) (i, Suc k, j)) (page_addr s i) fk (Suc k) =
       split_down c s1 i (baddr c (page_addr s) (i, Suc k, j)) (page_addr s i) fk k"
      using split_turn [OF Suc.prems(1,2)] fk(1) by blast
    obtain s' j' where s': "split_down c s1 i (baddr c (page_addr s1) (i, k, 2 * j)) (page_addr s1 i) fk k = Ret s'" "page_addr s' = page_addr s1"
      "bd_inv c s' (insert (i, fk, j') (insert (i, k, 2 * j) (U - {(i, Suc k, j)}) - {(i, k, 2 * j)}))"
      "baddr c (page_addr s1) (i, fk, j') = baddr c (page_addr s1) (i, k, 2 * j)"
      "brange c (page_addr s1) (i, fk, j') \<subseteq> brange c (page_addr s1) (i, k, 2 * j)"
      using Suc.IH [OF s1(2) _ fk(2), of "2 * j"] by blast
    have nu: "(i, k, 2 * j) \<notin> U"
    proof
      assume "(i, k, 2 * j) \<in> U"
      then have "node c (page_addr s) (split_bits s) (i, k, 2 * j)" "(i, Suc k, j) \<notin> split_bits s"
        using bd_okD(2) [OF Suc.prems(1) [unfolded bd_inv_def]] Suc.prems(2) by (auto simp: leaves_def)
      moreover have "Suc k \<le> MAX_SIZE c" using node_live(2) bd_okD(2) [OF Suc.prems(1) [unfolded bd_inv_def]] Suc.prems(2) by (fastforce simp: leaves_def)
      ultimately show False by simp
    qed
    have ue: "insert (i, k, 2 * j) (U - {(i, Suc k, j)}) - {(i, k, 2 * j)} = U - {(i, Suc k, j)}" using nu by blast
    note s'' = s' [unfolded s1(1) baddr_half ue]
    show ?thesis
    proof (intro exI conjI)
      show "split_down c s i (baddr c (page_addr s) (i, Suc k, j)) (page_addr s i) fk (Suc k) = Ret s'" unfolding s1(3) by (rule s''(1))
      show "brange c (page_addr s) (i, fk, j') \<subseteq> brange c (page_addr s) (i, Suc k, j)" using s''(5) brange_half by (rule order_trans)
    qed (rule s'')+
  qed
qed

lemma find_upt_SomeD: "find P [a..<n] = Some k \<Longrightarrow> P k \<and> a \<le> k \<and> k < n \<and> (\<forall>m. a \<le> m \<and> m < k \<longrightarrow> \<not> P m)"
proof -
  assume "find P [a..<n] = Some k"
  then obtain x where x: "x < n - a" "P (a + x)" "k = a + x" "\<forall>y<x. \<not> P ([a..<n] ! y)" by (auto simp: find_Some_iff)
  have "\<not> P m" if "a \<le> m" "m < k" for m using x(4) [rule_format, of "m - a"] that x(1,3) by simp
  then show ?thesis using x by auto
qed

lemma find_uptI: "P k \<Longrightarrow> a \<le> k \<Longrightarrow> k < n \<Longrightarrow> (\<And>m. a \<le> m \<Longrightarrow> m < k \<Longrightarrow> \<not> P m) \<Longrightarrow> find P [a..<n] = Some k"
  by (auto simp: find_Some_iff intro!: exI [of _ "k - a"])

lemma at_level_free: "at_level F k = {} \<longleftrightarrow> (\<forall>i j. (i, k, j) \<notin> F)"
  by (auto simp: at_level_def)

text \<open>What an allocation promises: on success a block of the smallest class that holds the bytes, disjoint from all
  blocks in use; on failure no free block of that class or a larger one.\<close>

definition free_blocks :: "bdcfg \<Rightarrow> bdtab \<Rightarrow> block set \<Rightarrow> block set" where
  "free_blocks c s U = leaves c (page_addr s) (split_bits s) - U"

definition size_class :: "bdcfg \<Rightarrow> int \<Rightarrow> nat \<Rightarrow> bool" where
  "size_class c n fk \<longleftrightarrow> n \<le> int (BLK_SIZE c fk) \<and> (\<forall>e<fk. int (BLK_SIZE c e) < n)"

lemma buddy_alloc_some:
  assumes inv: "bd_inv c s U" and fk: "firstk c n = Ret fk"
    and k: "find (\<lambda>k. \<not> lst_empty (bt_links s) (Head k)) [fk..<cf_nsizes c] = Some k"
  shows "\<exists>p s' i j. buddy_alloc c s n = Ret (p, s') \<and> p \<noteq> 0 \<and> p = baddr c (page_addr s) (i, fk, j) \<and> page_addr s' = page_addr s \<and>
     bd_inv c s' (insert (i, fk, j) U) \<and> (\<forall>b\<in>U. brange c (page_addr s) b \<inter> brange c (page_addr s) (i, fk, j) = {})"
proof -
  note ok = inv [unfolded bd_inv_def]
  note d = bd_okD [OF ok]
  let ?ad = "page_addr s"
  let ?F = "leaves c ?ad (split_bits s) - U"
  have kk: "\<not> lst_empty (bt_links s) (Head k)" "fk \<le> k" "k < cf_nsizes c" using find_upt_SomeD [OF k] by simp_all
  have ne: "at_level ?F k \<noteq> {}" using kk(1) listed_empty [OF d(5) kk(3)] by simp
  have "inj_on (baddr c ?ad) ?F" using d(6) by (rule inj_on_subset) blast
  then obtain i j l where b: "lst_pop (bt_links s) (Head k) = Ret (Blk (baddr c ?ad (i, k, j)), l)" "(i, k, j) \<in> ?F"
    "listed c ?ad l (?F - {(i, k, j)})"
    using listed_pop [OF d(5) kk(3) ne] by blast
  let ?b = "(i, k, j)"
  let ?p = "baddr c ?ad ?b"
  have lf: "?b \<in> leaves c ?ad (split_bits s)" "?b \<notin> U" using b(2) by blast+
  note lev = leaf_level [OF ok lf(1)]
  let ?s1 = "s\<lparr>bt_links := l\<rparr>"
  have pi: "get_page_index c ?s1 ?p = Some i"
    using get_page_index_live [of c ?s1 i "j * BLK_SIZE c k"] d(7,8) lev(2) node_off(2) [OF d(1) lev(3)] by (simp add: blk_addr_def)
  have ix: "blk_index c k ?p (?ad i) = j" by (rule index_same(1) [OF ok lf(1)])
  define s2 where "s2 = upd_alloc bit_set ?s1 i k j"
  have s2: "page_addr s2 = ?ad" "bd_inv c s2 (insert ?b U)"
    using bd_ok_take [OF ok lf(1) b(3)] by (simp_all add: s2_def bd_inv_def)
  obtain s' j' where s': "split_down c s2 i (baddr c (page_addr s2) ?b) (page_addr s2 i) fk k = Ret s'" "page_addr s' = page_addr s2"
    "bd_inv c s' (insert (i, fk, j') (insert ?b U - {?b}))" "baddr c (page_addr s2) (i, fk, j') = baddr c (page_addr s2) ?b"
    "brange c (page_addr s2) (i, fk, j') \<subseteq> brange c (page_addr s2) ?b"
    using split_down_ok [OF s2(2) _ kk(2), of i j] by blast
  have "insert ?b U - {?b} = U" using lf(2) by blast
  note s'' = s' [unfolded s2(1) this]
  have "buddy_alloc c s n = Ret (?p, s')"
    using fk k b(1) lev(4) pi ix s''(1) unfolding buddy_alloc_def buddy_take_def by (simp add: Let_def page_addr_def s2_def del: baddr.simps)
  moreover have "brange c ?ad u \<inter> brange c ?ad (i, fk, j') = {}" if "u \<in> U" for u
    using leaves_disjoint [OF d(1), of u ?b] d(2) that lf s''(5) by blast
  ultimately show ?thesis using s''(2,3,4) lev(4) by metis
qed

lemma buddy_alloc_none:
  assumes inv: "bd_inv c s U" and fk: "firstk c n = Ret fk"
    and no: "find (\<lambda>k. \<not> lst_empty (bt_links s) (Head k)) [fk..<cf_nsizes c] = None"
  shows "buddy_alloc c s n = Ret (0, s)" "(i, k, j) \<in> free_blocks c s U \<Longrightarrow> k < fk"
proof -
  show "buddy_alloc c s n = Ret (0, s)" using fk no by (simp add: buddy_alloc_def)
  note ok = inv [unfolded bd_inv_def]
  assume f: "(i, k, j) \<in> free_blocks c s U"
  show "k < fk"
  proof (rule ccontr)
    assume "\<not> k < fk"
    moreover have k: "k < cf_nsizes c" using leaf_level(1) [OF ok, of i k j] f by (simp add: free_blocks_def)
    ultimately have "lst_empty (bt_links s) (Head k)" using no by (simp add: find_None_iff)
    then show False using listed_empty [OF bd_okD(5) [OF ok] k] f unfolding at_level_free free_blocks_def by blast
  qed
qed

lemma buddy_alloc_ok:
  assumes inv: "bd_inv c s U" and n: "n \<le> 2 ^ 30"
  shows "\<exists>p s' fk. buddy_alloc c s n = Ret (p, s') \<and> page_addr s' = page_addr s \<and> size_class c n fk \<and>
     (if p = 0 then s' = s \<and> (\<forall>(i, k, j)\<in>free_blocks c s U. k < fk)
      else \<exists>i j. p = baddr c (page_addr s) (i, fk, j) \<and> bd_inv c s' (insert (i, fk, j) U) \<and>
        (\<forall>b\<in>U. brange c (page_addr s) b \<inter> brange c (page_addr s) (i, fk, j) = {}))"
proof -
  have c: "cfg_ok c" using bd_okD(7) inv by (simp add: bd_inv_def)
  obtain fk where fk: "firstk c n = Ret fk" "size_class c n fk" using firstk_least [of c n] cfg_leaf [OF c] n by (auto simp: size_class_def)
  show ?thesis
  proof (cases "find (\<lambda>k. \<not> lst_empty (bt_links s) (Head k)) [fk..<cf_nsizes c]")
    case None
    then show ?thesis using buddy_alloc_none [OF inv fk(1) None] fk(2) by (intro exI [of _ 0] exI [of _ s] exI [of _ fk]) auto
  next
    case (Some k)
    obtain p s' i j where "buddy_alloc c s n = Ret (p, s')" "p \<noteq> 0" "p = baddr c (page_addr s) (i, fk, j)" "page_addr s' = page_addr s"
     "bd_inv c s' (insert (i, fk, j) U)" "\<forall>b\<in>U. brange c (page_addr s) b \<inter> brange c (page_addr s) (i, fk, j) = {}"
      using buddy_alloc_some [OF inv fk(1) Some] by blast
    then show ?thesis using fk(2) by (intro exI [of _ p] exI [of _ s'] exI [of _ fk] conjI) (simp_all only: if_False, blast)
  qed
qed

subsection \<open>Release\<close>

lemma blk_size_used:
  assumes inv: "bd_inv c s U" and b: "(i, k, j) \<in> U"
  shows "blk_size c s (baddr c (page_addr s) (i, k, j)) i (page_addr s i) = k"
proof -
  note ok = inv [unfolded bd_inv_def]
  note d = bd_okD [OF ok]
  let ?S = "split_bits s" and ?p = "baddr c (page_addr s) (i, k, j)"
  have lf: "(i, k, j) \<in> leaves c (page_addr s) ?S" using b d(2) by blast
  have nS: "(i, k, j) \<notin> ?S" and node: "node c (page_addr s) ?S (i, k, j)" using lf by (simp_all add: leaves_def)
  define P where "P m \<longleftrightarrow> bit_isset (pl_split (bt_plist s i) (m + 1)) (blk_index c (m + 1) ?p (page_addr s i))" for m
  have P: "P m \<longleftrightarrow> (i, Suc m, j * BLK_SIZE c k div BLK_SIZE c (Suc m)) \<in> ?S" for m
    unfolding P_def by (simp add: split_bits_def index_same(3) [OF ok lf] del: baddr.simps)
  have below: "\<not> P m" if m: "m < k" for m
  proof
    assume "P m"
    define e where "e = k - Suc m"
    have e: "k = Suc m + e" using m by (simp add: e_def)
    have "j * BLK_SIZE c k div BLK_SIZE c (Suc m) = j * 2 ^ e"
      using BLK_SIZE_pos [OF d(7), of "Suc m"] unfolding e BLK_SIZE_add by simp
    then have a: "(i, Suc m, j * 2 ^ e) \<in> ?S" using \<open>P m\<close> P by simp
    show False
    proof (cases "e = 0")
      case True
      then show ?thesis using a e nS by simp
    next
      case False
      have "(i, Suc m + e, j * 2 ^ e div 2 ^ e) \<in> ?S"
        using node_ancestor [OF d(1) tree_okD(3) [OF d(1) a], of e] False node_live(2) [OF node] e by simp
      then show ?thesis using nS e by simp
    qed
  qed
  have bs: "blk_size c s ?p i (page_addr s i) = (case find P [0..<cf_nsizes c - 1] of Some k \<Rightarrow> k | None \<Rightarrow> cf_nsizes c - 1)"
    unfolding blk_size_def P_def by (rule refl)
  show ?thesis
  proof (cases "k = MAX_SIZE c")
    case True
    have "find P [0..<cf_nsizes c - 1] = None" using below True by (auto simp: find_None_iff MAX_SIZE_def)
    then show ?thesis using bs True by (simp add: MAX_SIZE_def)
  next
    case False
    then have k: "k < MAX_SIZE c" and pS: "(i, Suc k, j div 2) \<in> ?S" using node by auto
    have "BLK_SIZE c (Suc k) = BLK_SIZE c k * 2" by (simp add: BLK_SIZE_def)
    then have "P k" using pS P [of k] BLK_SIZE_pos [OF d(7), of k] by simp
    then have "find P [0..<cf_nsizes c - 1] = Some k" using k below by (intro find_uptI) (simp_all add: MAX_SIZE_def)
    then show ?thesis using bs by simp
  qed
qed

lemma merge_turn_stop:
  assumes ok: "bd_ok c (page_addr s) (insert (i, k, j) (alloc_bits s)) (split_bits s) (bt_links s) U" and b: "(i, k, j) \<in> U"
    and bud: "(i, k, buddy_of j) \<in> alloc_bits s"
  shows "merge_turn c s i (page_addr s i) (baddr c (page_addr s) (i, k, j)) k = Ret (False, upd_alloc bit_clear s i k j, baddr c (page_addr s) (i, k, j))"
proof -
  have lf: "(i, k, j) \<in> leaves c (page_addr s) (split_bits s)" using b bd_okD(2) [OF ok] by blast
  have "bit_isset (pl_alloc (bt_plist (upd_alloc bit_clear s i k j) i) k) (buddy_of j)"
    using bud buddy_pair(2) [of j] by (simp add: alloc_bits_def upd_alloc_def bit_isset_clear)
  then show ?thesis unfolding merge_turn_def index_same(1) [OF ok lf] buddy_of_def [symmetric] by (simp add: Let_def)
qed

lemma merge_turn_go:
  assumes ok: "bd_ok c (page_addr s) (insert (i, k, j) (alloc_bits s)) (split_bits s) (bt_links s) U" and b: "(i, k, j) \<in> U"
    and bud: "(i, k, buddy_of j) \<notin> alloc_bits s" and k: "k < MAX_SIZE c"
  shows "\<exists>s'. merge_turn c s i (page_addr s i) (baddr c (page_addr s) (i, k, j)) k = Ret (True, s', baddr c (page_addr s) (i, Suc k, j div 2)) \<and>
     page_addr s' = page_addr s \<and>
     bd_ok c (page_addr s') (insert (i, Suc k, j div 2) (alloc_bits s')) (split_bits s') (bt_links s') (insert (i, Suc k, j div 2) (U - {(i, k, j)}))"
proof -
  let ?ad = "page_addr s" and ?b = "(i, k, j)" and ?y = "(i, k, buddy_of j)" and ?pb = "(i, Suc k, j div 2)"
  have lf: "?b \<in> leaves c ?ad (split_bits s)" using b bd_okD(2) [OF ok] by blast
  have yb: "?y \<notin> insert ?b (alloc_bits s)" using bud buddy_pair(2) [of j] by simp
  obtain l' where l': "lst_remove (bt_links s) (Blk (baddr c ?ad ?y)) = Ret l'"
    "bd_ok c ?ad (insert ?pb (insert ?b (alloc_bits s) - {?b})) (split_bits s - {?pb}) l' (insert ?pb (U - {?b}))"
    using bd_ok_merge [OF ok b k yb] by blast
  have nb: "\<not> bit_isset (pl_alloc (bt_plist (upd_alloc bit_clear s i k j) i) k) (buddy_of j)"
    using bud by (simp add: alloc_bits_def upd_alloc_def bit_isset_clear)
  have p1: "(if buddy_of j mod 2 = 0 then blk_addr c k (buddy_of j) (?ad i) else baddr c ?ad ?b) = baddr c ?ad ?pb"
  proof -
    have "2 * (j div 2) = (if buddy_of j mod 2 = 0 then buddy_of j else j)" by (auto simp: buddy_of_def) presburger+
    then show ?thesis unfolding baddr_half(1) [of c ?ad i k "j div 2", symmetric] by simp
  qed
  define s' where "s' = upd_split bit_clear (upd_alloc bit_clear ((upd_alloc bit_clear s i k j)\<lparr>bt_links := l'\<rparr>) i (Suc k) (j div 2)) i (Suc k) (j div 2)"
  have pl: "?pb \<in> leaves c ?ad (split_bits s - {?pb})" using bd_okD(2) [OF l'(2)] by blast
  have ix: "blk_index c (Suc k) (baddr c ?ad ?pb) (?ad i) = j div 2" by (rule index_same(1) [OF l'(2) pl])
  have "merge_turn c s i (?ad i) (baddr c ?ad ?b) k = Ret (True, s', baddr c ?ad ?pb)"
    using l'(1) nb ix unfolding merge_turn_def index_same(1) [OF ok lf] buddy_of_def [symmetric] Let_def p1
    by (simp add: s'_def del: baddr.simps) (simp add: baddr.simps)
  moreover have "insert ?pb (alloc_bits s') = insert ?pb (insert ?b (alloc_bits s) - {?b})" by (auto simp: s'_def)
  moreover have "page_addr s' = ?ad" "split_bits s' = split_bits s - {?pb}" "bt_links s' = l'" by (simp_all add: s'_def)
  ultimately show ?thesis using l'(2) by metis
qed

lemma merge_push:
  assumes "bd_ok c (page_addr s) (insert (i, k, j) (alloc_bits s)) (split_bits s) (bt_links s) U" "(i, k, j) \<in> U" "k + d = MAX_SIZE c"
  shows "\<exists>s'. kbind (merge_up c d s i (page_addr s i) (baddr c (page_addr s) (i, k, j)) k)
        (\<lambda>(s1, p1, k1). kbind (lst_push (bt_links s1) (Head k1) (Blk p1)) (\<lambda>l. Ret (s1\<lparr>bt_links := l\<rparr>))) = Ret s' \<and>
     page_addr s' = page_addr s \<and> bd_inv c s' (U - {(i, k, j)})"
  using assms
proof (induction d arbitrary: s k j U)
  case 0
  let ?b = "(i, k, j)"
  obtain l' where l': "lst_push (bt_links s) (Head k) (Blk (baddr c (page_addr s) ?b)) = Ret l'"
    "bd_ok c (page_addr s) (insert ?b (alloc_bits s) - {?b}) (split_bits s) l' (U - {?b})"
    using bd_ok_release [OF 0(1,2)] 0(3) by auto
  have "bd_ok c (page_addr s) (alloc_bits s) (split_bits s) l' (U - {?b})"
    using l'(2) 0(3) unfolding bd_ok_def marked_def by auto
  then show ?case using l'(1) by (intro exI [of _ "s\<lparr>bt_links := l'\<rparr>"]) (simp add: bd_inv_def del: baddr.simps)
next
  case (Suc d)
  let ?b = "(i, k, j)"
  show ?case
  proof (cases "(i, k, buddy_of j) \<in> alloc_bits s")
    case True
    obtain l' where l': "lst_push (bt_links s) (Head k) (Blk (baddr c (page_addr s) ?b)) = Ret l'"
      "bd_ok c (page_addr s) (insert ?b (alloc_bits s) - {?b}) (split_bits s) l' (U - {?b})"
      using bd_ok_release [OF Suc.prems(1,2)] True by auto
    have "insert ?b (alloc_bits s) - {?b} = alloc_bits s - {?b}" by blast
    then show ?thesis using l' merge_turn_stop [OF Suc.prems(1,2) True]
      by (intro exI [of _ "(upd_alloc bit_clear s i k j)\<lparr>bt_links := l'\<rparr>"]) (simp add: bd_inv_def del: baddr.simps)
  next
    case False
    have k: "k < MAX_SIZE c" using Suc.prems(3) by simp
    let ?pb = "(i, Suc k, j div 2)"
    obtain s1 where s1: "merge_turn c s i (page_addr s i) (baddr c (page_addr s) ?b) k = Ret (True, s1, baddr c (page_addr s) ?pb)"
      "page_addr s1 = page_addr s"
      "bd_ok c (page_addr s1) (insert ?pb (alloc_bits s1)) (split_bits s1) (bt_links s1) (insert ?pb (U - {?b}))"
      using merge_turn_go [OF Suc.prems(1,2) False k] by blast
    have "?pb \<in> split_bits s"
      using bd_okD(2) [OF Suc.prems(1)] Suc.prems(2) k by (auto simp: leaves_def)
    then have nu: "?pb \<notin> U" using bd_okD(2) [OF Suc.prems(1)] by (auto simp: leaves_def)
    then have u: "insert ?pb (U - {?b}) - {?pb} = U - {?b}" by blast
    have dd: "Suc k + d = MAX_SIZE c" using Suc.prems(3) by simp
    from Suc.IH [OF s1(3) insertI1 dd] show ?thesis unfolding u s1(2) using s1(1) by (simp del: baddr.simps)
  qed
qed

lemma buddy_free_ok:
  assumes inv: "bd_inv c s U" and b: "(i, k, j) \<in> U"
  shows "\<exists>s'. buddy_free c s (baddr c (page_addr s) (i, k, j)) i (page_addr s i) = Ret s' \<and> page_addr s' = page_addr s \<and> bd_inv c s' (U - {(i, k, j)})"
proof -
  let ?b = "(i, k, j)"
  note ok = inv [unfolded bd_inv_def]
  have lf: "?b \<in> leaves c (page_addr s) (split_bits s)" using b bd_okD(2) [OF ok] by blast
  have "bd_ok c (page_addr s) (insert ?b (alloc_bits s)) (split_bits s) (bt_links s) U"
    using ok b unfolding bd_ok_def marked_def by auto
  moreover have "k + (MAX_SIZE c - k) = MAX_SIZE c" using node_live(2) leaf_level(3) [OF ok lf] by auto
  ultimately show ?thesis using merge_push b unfolding buddy_free_def blk_size_used [OF inv b] Let_def by blast
qed

text \<open>When nothing is in use, no block is split: every page is one free block again.\<close>

lemma all_free_whole:
  assumes "bd_ok c ad A S l {}"
  shows "S = {}"
proof -
  have "(i, k, j) \<notin> S" for i k j
  proof (induction k arbitrary: j)
    case 0
    then show ?case using tree_okD(4) [OF bd_okD(1) [OF assms]] by blast
  next
    case (Suc k)
    then show ?case using bd_okD(4) [OF assms] unfolding coalesced_def by blast
  qed
  then show ?thesis by auto
qed

end
