(* ===== verification/Ufkalloc.thy ===== *)
theory Ufkalloc
  imports Buddyalloc
begin

text \<open>
  The kernel allocator of kernel/lib/ufkalloc.c: requests of a page and more are served by the page allocator, smaller
  ones by the small-block allocator, which gets its pages, two at a time, from the page allocator. The leaf
  block they come from is marked in the otherwise unused map of split blocks of the smallest size, and
  \<^verbatim>\<open>ufkfree\<close> tells the two kinds of blocks apart by this mark. Each of the two tables has its
  own list cells in the model: their free blocks lie in different memory.
\<close>

record ufk =
  uf_tab :: bdtab
  uf_bd :: bdtab
  uf_allocated :: "32 word"

definition PGSZ :: nat where "PGSZ = 4096"
definition BIGPG_SIZE :: nat where "BIGPG_SIZE = BLK_SIZE ufk_cfg (MAX_SIZE ufk_cfg)"
definition PHYSTOP :: u64 where "PHYSTOP = 0x80000000 + 128 * 1024 * 1024"

definition BIGPGROUNDUP :: "u64 \<Rightarrow> u64" where
  "BIGPGROUNDUP sz = (sz + of_nat BIGPG_SIZE - 1) AND NOT (of_nat BIGPG_SIZE - 1)"

text \<open>The loop of \<^verbatim>\<open>table_init\<close>, over at most \<open>pa_end / BIGPG_SIZE\<close> areas.\<close>

fun table_fill :: "nat \<Rightarrow> bdtab \<Rightarrow> nat \<Rightarrow> u64 \<Rightarrow> u64 \<Rightarrow> bdtab kres" where
  "table_fill 0 s i p pa_end = Diverge"
| "table_fill (Suc fuel) s i p pa_end =
     (if p + of_nat BIGPG_SIZE \<le> pa_end then
        (if cf_npages ufk_cfg \<le> i then Fault
         else
           kbind (lst_push (bt_links s) (Head (MAX_SIZE ufk_cfg)) (Blk p)) (\<lambda>l.
           table_fill fuel (s\<lparr>bt_plist := (bt_plist s)(i := (bt_plist s i)\<lparr>pl_addr := p\<rparr>), bt_links := l\<rparr>) (Suc i) (p + of_nat BIGPG_SIZE) pa_end))
      else Ret s)"

definition table_init :: "bdtab \<Rightarrow> u64 \<Rightarrow> u64 \<Rightarrow> bdtab kres" where
  "table_init s pa_start pa_end =
     table_fill (unat pa_end div BIGPG_SIZE + 1)
       (s\<lparr>bt_plist := (\<lambda>_. no_page), bt_links := heads_init (bt_links s) (cf_nsizes ufk_cfg)\<rparr>) 0 (BIGPGROUNDUP pa_start) pa_end"

definition ufkinit :: "ufk \<Rightarrow> u64 \<Rightarrow> ufk kres" where
  "ufkinit u kend =
     kbind (table_init (uf_tab u) kend PHYSTOP) (\<lambda>t. Ret (u\<lparr>uf_tab := t, uf_bd := bd_init (uf_bd u)\<rparr>))"

definition ufk_get_pageindex :: "bdtab \<Rightarrow> u64 \<Rightarrow> nat option" where
  "ufk_get_pageindex s p = get_page_index ufk_cfg s p"

definition ufkalloc_core :: "bdtab \<Rightarrow> int \<Rightarrow> (u64 \<times> bdtab) kres" where
  "ufkalloc_core s nbytes = buddy_alloc ufk_cfg s nbytes"

text \<open>A request that is not smaller than a page.\<close>

definition ufkalloc_big :: "ufk \<Rightarrow> int \<Rightarrow> (u64 \<times> ufk) kres" where
  "ufkalloc_big u nbytes =
     (let u1 = u\<lparr>uf_allocated := uf_allocated u + 1\<rparr> in
      kbind (ufkalloc_core (uf_tab u1) nbytes) (\<lambda>(p, t).
      if p = 0 then Panic ''[ufkalloc] could not allocate'' else Ret (p, u1\<lparr>uf_tab := t\<rparr>)))"

text \<open>Two new pages for the small-block allocator.\<close>

definition ufk_grow :: "ufk \<Rightarrow> ufk kres" where
  "ufk_grow u =
     kbind (ufkalloc_big u (int PGSZ)) (\<lambda>(p, u1).
     case ufk_get_pageindex (uf_tab u1) p of
       None \<Rightarrow> Panic ''[ufkalloc] cannot get page index''
     | Some pindex \<Rightarrow>
         let pbase = pl_addr (bt_plist (uf_tab u1) pindex);
             t1 = upd_split bit_set (uf_tab u1) pindex 0 (blk_index ufk_cfg 0 p pbase) in
         kbind (bd_addpage (uf_bd u1) p) (\<lambda>b1.
         kbind (bd_addpage b1 (p + of_nat PGSZ)) (\<lambda>b2.
         Ret (u1\<lparr>uf_tab := t1, uf_bd := b2\<rparr>))))"

definition ufkalloc :: "ufk \<Rightarrow> int \<Rightarrow> (u64 \<times> ufk) kres" where
  "ufkalloc u nbytes =
     (if nbytes < int PGSZ then
        let u1 = u\<lparr>uf_allocated := uf_allocated u + 1\<rparr> in
        kbind (bd_alloc (uf_bd u1) nbytes) (\<lambda>(p, b).
        if p = 0 then
          kbind (ufk_grow (u1\<lparr>uf_bd := b\<rparr>)) (\<lambda>u2.
          kbind (bd_alloc (uf_bd u2) nbytes) (\<lambda>(p, b).
          if p = 0 then Panic ''[ufkalloc] cannot alloc...'' else Ret (p, u2\<lparr>uf_bd := b\<rparr>)))
        else Ret (p, u1\<lparr>uf_bd := b\<rparr>))
      else ufkalloc_big u nbytes)"

definition ufkfree_core :: "bdtab \<Rightarrow> u64 \<Rightarrow> nat \<Rightarrow> u64 \<Rightarrow> bdtab kres" where
  "ufkfree_core s p pindex pbase = buddy_free ufk_cfg s p pindex pbase"

definition ufkfree :: "ufk \<Rightarrow> u64 \<Rightarrow> ufk kres" where
  "ufkfree u p =
     (let u1 = u\<lparr>uf_allocated := uf_allocated u - 1\<rparr> in
      case ufk_get_pageindex (uf_tab u1) p of
        None \<Rightarrow> Panic ''[uffree] cannot get page index''
      | Some pindex \<Rightarrow>
          let pbase = pl_addr (bt_plist (uf_tab u1) pindex) in
          if bit_isset (pl_split (bt_plist (uf_tab u1) pindex) 0) (blk_index ufk_cfg 0 p pbase)
          then kbind (bd_free (uf_bd u1) p) (\<lambda>b. Ret (u1\<lparr>uf_bd := b\<rparr>))
          else kbind (ufkfree_core (uf_tab u1) p pindex pbase) (\<lambda>t. Ret (u1\<lparr>uf_tab := t\<rparr>)))"

subsection \<open>The marks of the pages given to the small-block allocator\<close>

definition marks :: "bdtab \<Rightarrow> (nat \<times> nat) set" where
  "marks s = {(i, j). bit_isset (pl_split (bt_plist s i) 0) j}"

lemma marks_upd [simp]:
  "marks (upd_alloc f s i k j) = marks s" "marks (s\<lparr>bt_links := l\<rparr>) = marks s" "0 < k \<Longrightarrow> marks (upd_split f s i k j) = marks s"
  "marks (upd_split bit_set s i 0 j) = insert (i, j) (marks s)"
  by (auto simp: marks_def upd_alloc_def upd_split_def bit_isset_set split: if_splits)

lemma split_down_marks: "split_down c s i p pb fk k = Ret s' \<Longrightarrow> marks s' = marks s"
  by (induction k arbitrary: s) (auto simp: kbind_Ret_iff Let_def split: if_splits)

lemma merge_turn_marks: "merge_turn c s i pb p k = Ret (go, s', p') \<Longrightarrow> marks s' = marks s"
  by (auto simp: merge_turn_def Let_def kbind_Ret_iff split: if_splits)

lemma merge_up_marks: "merge_up c d s i pb p k = Ret (s', p', k') \<Longrightarrow> marks s' = marks s"
  by (induction d arbitrary: s p k) (auto simp: kbind_Ret_iff dest!: merge_turn_marks split: if_splits)

lemma buddy_take_marks:
  assumes "buddy_take c s p k fk = Ret (q, s')"
  shows "marks s' = marks s"
proof (cases "get_page_index c s p")
  case None
  then show ?thesis using assms by (cases "cf_nopage c") (simp_all add: buddy_take_def)
next
  case (Some i)
  then have "split_down c (upd_alloc bit_set s i k (blk_index c k p (pl_addr (bt_plist s i)))) i p (pl_addr (bt_plist s i)) fk k = Ret s'"
    using assms by (auto simp: buddy_take_def kbind_Ret_iff Let_def)
  then show ?thesis using split_down_marks by fastforce
qed

lemma buddy_alloc_marks:
  assumes "buddy_alloc c s n = Ret (p, s')"
  shows "marks s' = marks s"
proof -
  obtain fk where fk: "firstk c n = Ret fk" using assms by (cases "firstk c n") (simp_all add: buddy_alloc_def)
  show ?thesis
  proof (cases "find (\<lambda>k. \<not> lst_empty (bt_links s) (Head k)) [fk..<cf_nsizes c]")
    case None
    then show ?thesis using assms fk by (simp add: buddy_alloc_def)
  next
    case (Some k)
    obtain e l where e: "lst_pop (bt_links s) (Head k) = Ret (e, l)"
      using assms fk Some by (cases "lst_pop (bt_links s) (Head k)") (auto simp: buddy_alloc_def)
    obtain q where q: "e = Blk q" using assms fk Some e by (cases e) (simp_all add: buddy_alloc_def)
    have "buddy_take c (s\<lparr>bt_links := l\<rparr>) q k fk = Ret (p, s')" using assms fk Some e q by (simp add: buddy_alloc_def split: if_splits)
    then show ?thesis using buddy_take_marks by fastforce
  qed
qed

lemma buddy_free_marks:
  assumes "buddy_free c s p i pb = Ret s'"
  shows "marks s' = marks s"
proof -
  let ?k = "blk_size c s p i pb"
  obtain s1 p1 k1 where m: "merge_up c (MAX_SIZE c - ?k) s i pb p ?k = Ret (s1, p1, k1)"
    using assms by (cases "merge_up c (MAX_SIZE c - ?k) s i pb p ?k") (auto simp: buddy_free_def Let_def)
  obtain l where "lst_push (bt_links s1) (Head k1) (Blk p1) = Ret l" "s' = s1\<lparr>bt_links := l\<rparr>"
    using assms m by (auto simp: buddy_free_def Let_def kbind_Ret_iff)
  then show ?thesis using merge_up_marks [OF m] by simp
qed

end
