(* ===== verification/Kheap.thy ===== *)
theory Kheap
  imports Ufkalloc "HOL-Library.Multiset"
begin

text \<open>
  Correctness of the kernel allocator: initialisation, the growth of the small-block allocator, and the contract of
  \<^verbatim>\<open>ufkalloc\<close> and \<^verbatim>\<open>ufkfree\<close> for their clients.
\<close>

subsection \<open>A new page\<close>

lemma listed_cong:
  assumes "listed c ad l F" "\<And>b. b \<in> F \<Longrightarrow> baddr c ad' b = baddr c ad b"
  shows "listed c ad' l F"
proof -
  have "baddr c ad' ` at_level F k = baddr c ad ` at_level F k" for k
    using assms(2) at_level_sub [of F k] by (intro image_cong) auto
  then show ?thesis using assms(1) by (simp add: listed_def)
qed

lemma bd_ok_add_page:
  assumes ok: "bd_ok c ad A S l U" and i: "i < cf_npages c" "ad i = 0" and p: "p \<noteq> 0" "pages_ok c (ad(i := p))"
  shows "\<exists>l'. lst_push l (Head (MAX_SIZE c)) (Blk p) = Ret l' \<and> bd_ok c (ad(i := p)) A S l' U"
proof -
  let ?ad = "ad(i := p)" and ?b = "(i, MAX_SIZE c, 0)"
  note d = bd_okD [OF ok]
  have off: "i' \<noteq> i" if "node c ad S (i', k, j)" for i' k j using node_live(1) [OF that] i(2) by (auto simp: live_def)
  have noS: "(i, k, j) \<notin> S" for k j using tree_okD(3) [OF d(1), of "(i, k, j)"] off by blast
  have up: "node c ?ad S b \<longleftrightarrow> node c ad S b \<or> b = ?b" for b
  proof (cases b)
    case (fields i' k j)
    then show ?thesis using noS [of "Suc k" "j div 2"] i p(1) by (cases "i' = i") (auto simp: live_def)
  qed
  have t: "tree_ok c ?ad S" using d(1) p(2) unfolding tree_ok_def up by auto
  have lv: "leaves c ?ad S = insert ?b (leaves c ad S)" using noS by (auto simp: leaves_def up simp del: node.simps)
  have nl: "?b \<notin> leaves c ad S" using off by (auto simp: leaves_def simp del: node.simps)
  have same: "baddr c ?ad b = baddr c ad b" if "b \<in> leaves c ad S" for b
    using off that by (cases b) (auto simp: leaves_def simp del: node.simps)
  have free: "leaves c ?ad S - U = insert ?b (leaves c ad S - U)" using lv nl d(2) by blast
  have "listed c ?ad l (leaves c ad S - U)" by (rule listed_cong [OF d(5)]) (use same in blast)
  moreover have "inj_on (baddr c ?ad) (insert ?b (leaves c ad S - U))"
    using leaves_inj [OF t] unfolding lv by (rule inj_on_subset) blast
  moreover have "MAX_SIZE c < cf_nsizes c" using d(7) by (simp add: cfg_ok_def MAX_SIZE_def)
  moreover have pb: "baddr c ?ad ?b = p" by (simp add: blk_addr_def)
  ultimately obtain l' where "lst_push l (Head (MAX_SIZE c)) (Blk p) = Ret l'" "listed c ?ad l' (insert ?b (leaves c ad S - U))"
    using listed_push [of c ?ad l "leaves c ad S - U" "MAX_SIZE c" i 0] nl p(1) by (auto simp del: baddr.simps)
  moreover from this have "bd_ok c ?ad A S l' U" using t d(2-4) lv unfolding bd_ok_def free by blast
  ultimately show ?thesis by blast
qed

lemma bd_ok_no_pages: "cfg_ok c \<Longrightarrow> bd_ok c (\<lambda>_. 0) {} {} (heads_init l (cf_nsizes c)) {}"
proof -
  assume c: "cfg_ok c"
  have n: "\<not> node c (\<lambda>_. 0) {} b" for b by (cases b) (simp add: live_def)
  then have "leaves c (\<lambda>_. 0) {} = {}" by (simp add: leaves_def)
  moreover have "listed c (\<lambda>_. 0) (heads_init l (cf_nsizes c)) {}"
    using heads_init_rings [of l "cf_nsizes c"] by (auto simp: listed_def at_level_def)
  ultimately show ?thesis using c by (simp add: bd_ok_def tree_ok_def pages_ok_def marked_def coalesced_def)
qed

lemma no_page_bits: "alloc_bits (s\<lparr>bt_plist := \<lambda>_. no_page\<rparr>) = {}" "split_bits (s\<lparr>bt_plist := \<lambda>_. no_page\<rparr>) = {}"
  "page_addr (s\<lparr>bt_plist := \<lambda>_. no_page\<rparr>) = (\<lambda>_. 0)" "marks (s\<lparr>bt_plist := \<lambda>_. no_page\<rparr>) = {}"
  by (auto simp: alloc_bits_def split_bits_def page_addr_def marks_def no_page_def bit_isset_bit)

definition set_page :: "bdtab \<Rightarrow> nat \<Rightarrow> u64 \<Rightarrow> bdtab" where
  "set_page s i p = s\<lparr>bt_plist := (bt_plist s)(i := (bt_plist s i)\<lparr>pl_addr := p\<rparr>)\<rparr>"

lemma set_page_bits [simp]: "alloc_bits (set_page s i p) = alloc_bits s" "split_bits (set_page s i p) = split_bits s"
  "page_addr (set_page s i p) = (page_addr s)(i := p)" "bt_links (set_page s i p) = bt_links s" "marks (set_page s i p) = marks s"
  by (auto simp: set_page_def alloc_bits_def split_bits_def page_addr_def marks_def fun_eq_iff split: if_splits)

lemma bd_addpage_ok:
  assumes inv: "bd_inv bd_cfg s V" and i: "find (\<lambda>i. pl_addr (bt_plist s i) = 0) [0..<cf_npages bd_cfg] = Some i"
    and p: "p \<noteq> 0" "pages_ok bd_cfg ((page_addr s)(i := p))"
  shows "\<exists>s'. bd_addpage s p = Ret s' \<and> bd_inv bd_cfg s' V \<and> page_addr s' = (page_addr s)(i := p)"
proof -
  have f: "i < cf_npages bd_cfg" "page_addr s i = 0" using find_upt_SomeD [OF i] by (simp_all add: page_addr_def)
  obtain l' where l': "lst_push (bt_links s) (Head (MAX_SIZE bd_cfg)) (Blk p) = Ret l'"
    "bd_ok bd_cfg ((page_addr s)(i := p)) (alloc_bits s) (split_bits s) l' V"
    using bd_ok_add_page [OF inv [unfolded bd_inv_def] f p] by blast
  let ?s = "(set_page s i p)\<lparr>bt_links := l'\<rparr>"
  have "bd_addpage s p = Ret ?s" using i l'(1) by (simp add: bd_addpage_def Let_def set_page_def)
  moreover have "bd_inv bd_cfg ?s V" using l'(2) by (simp add: bd_inv_def)
  moreover have "page_addr ?s = (page_addr s)(i := p)" by simp
  ultimately show ?thesis by blast
qed

subsection \<open>Initialisation\<close>

lemma BIG: "BIGPG_SIZE = 524288" "BLK_SIZE ufk_cfg (MAX_SIZE ufk_cfg) = 524288"
  by (simp_all add: BIGPG_SIZE_def BLK_SIZE_def MAX_SIZE_def ufk_cfg_def)

definition areas :: "nat \<Rightarrow> nat \<Rightarrow> nat \<Rightarrow> u64" where
  "areas base n i = (if i < n then of_nat (base + i * BIGPG_SIZE) else 0)"

lemma unat_area: "base + n * BIGPG_SIZE \<le> 2 ^ 32 \<Longrightarrow> i < n \<Longrightarrow> unat (areas base n i) = base + i * BIGPG_SIZE"
proof -
  assume a: "base + n * BIGPG_SIZE \<le> 2 ^ 32" "i < n"
  then have "i * BIGPG_SIZE \<le> n * BIGPG_SIZE" by (intro mult_le_mono1) simp
  then have "base + i * BIGPG_SIZE \<le> 2 ^ 32" using a(1) by linarith
  then have "base + i * BIGPG_SIZE < 2 ^ 64" by (rule le_less_trans) simp
  moreover have "unat (of_nat m :: u64) = m" if "m < 2 ^ 64" for m using that by (simp add: unat_of_nat)
  ultimately show ?thesis using a(2) unfolding areas_def by (simp only: if_True)
qed

lemma areas_ok:
  assumes "2 ^ 31 \<le> base" "BIGPG_SIZE dvd base" "base + n * BIGPG_SIZE \<le> 2 ^ 32"
  shows "pages_ok ufk_cfg (areas base n)"
proof -
  have lt: "i < n" if "areas base n i \<noteq> 0" for i using that by (auto simp: areas_def split: if_splits)
  have u: "unat (areas base n i) = base + i * BIGPG_SIZE" if "i < n" for i using unat_area [OF assms(3) that] .
  have nz: "areas base n i \<noteq> 0" if "i < n" for i
  proof
    assume "areas base n i = 0"
    then have "unat (areas base n i) = 0" by simp
    then show False using u [OF that] assms(1) by simp
  qed
  have "unat (areas base n i) + BIGPG_SIZE \<le> 2 ^ 32" if "i < n" for i
  proof -
    have "Suc i * BIGPG_SIZE \<le> n * BIGPG_SIZE" using that by (intro mult_le_mono1) simp
    then show ?thesis using u [OF that] assms(3) by simp
  qed
  moreover have "BIGPG_SIZE dvd unat (areas base n i)" "2 ^ 31 \<le> unat (areas base n i)" if "i < n" for i
    using u [OF that] assms(1,2) by simp_all
  moreover have "i = i'" if "areas base n i \<noteq> 0" "areas base n i = areas base n i'" for i i'
  proof -
    have "i' < n" using lt [of i'] that by simp
    then have "base + i * BIGPG_SIZE = base + i' * BIGPG_SIZE"
      using u [OF lt [OF that(1)]] u [of i'] unfolding that(2) by linarith
    then show ?thesis by (simp add: BIG)
  qed
  moreover have "areas base n i' \<noteq> 0" if "areas base n i \<noteq> 0" "i' < i" for i i' using lt [OF that(1)] that(2) nz by simp
  ultimately show ?thesis unfolding pages_ok_def BIGPG_SIZE_def [symmetric] using lt by blast
qed

lemma areas_Suc: "(areas base n)(n := of_nat (base + n * BIGPG_SIZE)) = areas base (Suc n)"
  by (auto simp: areas_def fun_eq_iff)

lemma unat_of_nat64: "m < 2 ^ 64 \<Longrightarrow> unat (of_nat m :: u64) = m"
  by (simp add: unat_of_nat)

lemma table_fill_ok:
  assumes base: "2 ^ 31 \<le> base" "BIGPG_SIZE dvd base" "base \<le> e" and e: "e \<le> 2 ^ 32 - BIGPG_SIZE"
    and N: "N = (e - base) div BIGPG_SIZE" "N \<le> cf_npages ufk_cfg"
    and s: "bd_inv ufk_cfg s {}" "page_addr s = areas base n" "marks s = {}" and n: "n \<le> N" "N < fuel + n"
  shows "\<exists>s'. table_fill fuel s n (of_nat (base + n * BIGPG_SIZE)) (of_nat e) = Ret s' \<and> bd_inv ufk_cfg s' {} \<and>
     page_addr s' = areas base N \<and> marks s' = {}"
  using s n
proof (induction fuel arbitrary: s n)
  case (Suc fuel)
  have NB: "N * BIGPG_SIZE \<le> e - base" unfolding N(1) by (rule div_times_less_eq_dividend)
  have e64: "e < 2 ^ 64" using e by (rule le_less_trans) simp
  have ns: "(of_nat (base + n * BIGPG_SIZE) :: u64) + of_nat BIGPG_SIZE = of_nat (base + Suc n * BIGPG_SIZE)" by (simp add: algebra_simps)
  have nb: "n * BIGPG_SIZE \<le> N * BIGPG_SIZE" using Suc.prems(4) by (rule mult_le_mono1)
  then have "base + Suc n * BIGPG_SIZE \<le> 2 ^ 32" using NB base(3) e by (simp add: BIG)
  then have s64: "base + Suc n * BIGPG_SIZE < 2 ^ 64" by (rule le_less_trans) simp
  have cond: "(of_nat (base + n * BIGPG_SIZE) :: u64) + of_nat BIGPG_SIZE \<le> of_nat e \<longleftrightarrow> n < N"
  proof -
    have "(of_nat (base + n * BIGPG_SIZE) :: u64) + of_nat BIGPG_SIZE \<le> of_nat e \<longleftrightarrow> base + Suc n * BIGPG_SIZE \<le> e"
      unfolding ns word_le_nat_alt unat_of_nat64 [OF s64] unat_of_nat64 [OF e64] ..
    also have "\<dots> \<longleftrightarrow> Suc n * BIGPG_SIZE \<le> e - base" using base(3) by linarith
    also have "\<dots> \<longleftrightarrow> Suc n \<le> N" unfolding N(1) by (subst less_eq_div_iff_mult_less_eq) (simp_all add: BIG)
    finally show ?thesis by (simp add: Suc_le_eq)
  qed
  show ?case
  proof (cases "n < N")
    case False
    then show ?thesis using cond Suc.prems by (intro exI [of _ s]) simp
  next
    case True
    let ?p = "of_nat (base + n * BIGPG_SIZE) :: u64"
    have sn: "base + Suc n * BIGPG_SIZE \<le> 2 ^ 32"
      using \<open>base + Suc n * BIGPG_SIZE \<le> 2 ^ 32\<close> .
    have np: "n < cf_npages ufk_cfg" using True N(2) by simp
    have a0: "page_addr s n = 0" using Suc.prems(2) by (simp add: areas_def)
    have pn: "?p = areas base (Suc n) n" by (simp add: areas_def)
    have "unat ?p = base + n * BIGPG_SIZE" unfolding pn by (rule unat_area [OF sn]) simp
    then have p0: "?p \<noteq> 0" using base(1) by (metis add_is_0 not_numeral_le_zero power_not_zero le_zero_eq unat_0 zero_neq_numeral)
    have ap: "(page_addr s)(n := ?p) = areas base (Suc n)" unfolding Suc.prems(2) by (rule areas_Suc)
    have "pages_ok ufk_cfg ((page_addr s)(n := ?p))" unfolding ap by (rule areas_ok [OF base(1,2) sn])
    then obtain l' where l': "lst_push (bt_links s) (Head (MAX_SIZE ufk_cfg)) (Blk ?p) = Ret l'"
      "bd_ok ufk_cfg ((page_addr s)(n := ?p)) (alloc_bits s) (split_bits s) l' {}"
      using bd_ok_add_page [OF Suc.prems(1) [unfolded bd_inv_def] np a0 p0] by blast
    let ?s = "(set_page s n ?p)\<lparr>bt_links := l'\<rparr>"
    have st: "table_fill (Suc fuel) s n ?p (of_nat e) = table_fill fuel ?s (Suc n) (of_nat (base + Suc n * BIGPG_SIZE)) (of_nat e)"
      using cond True np l'(1) ns by (simp add: set_page_def del: of_nat_add of_nat_mult)
    have "bd_inv ufk_cfg ?s {}" "page_addr ?s = areas base (Suc n)" "marks ?s = {}"
      using l'(2) ap Suc.prems(3) by (simp_all add: bd_inv_def)
    then show ?thesis unfolding st using True Suc.prems(5) by (intro Suc.IH) simp_all
  qed
qed simp

subsection \<open>The invariant of the kernel allocator\<close>

text \<open>The blocks the clients hold, of either kind.\<close>

datatype ublk = Big block | Small block

fun uaddr :: "ufk \<Rightarrow> ublk \<Rightarrow> u64" where
  "uaddr u (Big b) = baddr ufk_cfg (page_addr (uf_tab u)) b"
| "uaddr u (Small b) = baddr bd_cfg (page_addr (uf_bd u)) b"

fun urange :: "ufk \<Rightarrow> ublk \<Rightarrow> nat set" where
  "urange u (Big b) = brange ufk_cfg (page_addr (uf_tab u)) b"
| "urange u (Small b) = brange bd_cfg (page_addr (uf_bd u)) b"

fun usize :: "ublk \<Rightarrow> nat" where
  "usize (Big (i, k, j)) = BLK_SIZE ufk_cfg k"
| "usize (Small (i, k, j)) = BLK_SIZE bd_cfg k"

definition mleaves :: "ufk \<Rightarrow> block set" where
  "mleaves u = {(i, 0, j) | i j. (i, j) \<in> marks (uf_tab u)}"

text \<open>Every page of the small-block allocator is one half of a marked leaf block.\<close>

definition halves :: "ufk \<Rightarrow> bool" where
  "halves u \<longleftrightarrow> (\<forall>i'. live bd_cfg (page_addr (uf_bd u)) i' \<longrightarrow>
     (\<exists>b\<in>mleaves u. \<exists>h<2. page_addr (uf_bd u) i' = baddr ufk_cfg (page_addr (uf_tab u)) b + of_nat (h * PGSZ)))"

definition ufk_inv :: "ufk \<Rightarrow> ublk set \<Rightarrow> bool" where
  "ufk_inv u W \<longleftrightarrow>
     bd_inv ufk_cfg (uf_tab u) ({b. Big b \<in> W} \<union> mleaves u) \<and> {b. Big b \<in> W} \<inter> mleaves u = {} \<and>
     bd_inv bd_cfg (uf_bd u) {b. Small b \<in> W} \<and> halves u"

lemma ufk_invD:
  assumes "ufk_inv u W"
  shows "bd_inv ufk_cfg (uf_tab u) ({b. Big b \<in> W} \<union> mleaves u)" "{b. Big b \<in> W} \<inter> mleaves u = {}"
    "bd_inv bd_cfg (uf_bd u) {b. Small b \<in> W}" "halves u"
  using assms by (simp_all add: ufk_inv_def)

lemma sizes: "BLK_SIZE ufk_cfg 0 = 2 * PGSZ" "BLK_SIZE bd_cfg (MAX_SIZE bd_cfg) = PGSZ" "MAX_SIZE bd_cfg = 7"
  by (simp_all add: BLK_SIZE_def MAX_SIZE_def bd_cfg_def ufk_cfg_def PGSZ_def)

text \<open>A page of the small-block allocator lies in a leaf block of the page allocator.\<close>

lemma small_page:
  assumes inv: "ufk_inv u W" and i: "live bd_cfg (page_addr (uf_bd u)) i'"
  shows "\<exists>i j. \<exists>h<2. (i, j) \<in> marks (uf_tab u) \<and> (i, 0, j) \<in> leaves ufk_cfg (page_addr (uf_tab u)) (split_bits (uf_tab u)) \<and>
     page_addr (uf_bd u) i' = page_addr (uf_tab u) i + of_nat (j * BLK_SIZE ufk_cfg 0 + h * PGSZ) \<and>
     {unat (page_addr (uf_bd u) i') ..< unat (page_addr (uf_bd u) i') + PGSZ} \<subseteq> brange ufk_cfg (page_addr (uf_tab u)) (i, 0, j)"
proof -
  obtain i j h where b: "(i, j) \<in> marks (uf_tab u)" "h < 2"
    "page_addr (uf_bd u) i' = baddr ufk_cfg (page_addr (uf_tab u)) (i, 0, j) + of_nat (h * PGSZ)"
    using ufk_invD(4) [OF inv] i unfolding halves_def mleaves_def by blast
  note ok = ufk_invD(1) [OF inv, unfolded bd_inv_def]
  have lf: "(i, 0, j) \<in> leaves ufk_cfg (page_addr (uf_tab u)) (split_bits (uf_tab u))"
    using bd_okD(2) [OF ok] b(1) unfolding mleaves_def by blast
  note lev = leaf_level [OF ok lf]
  have h: "h * PGSZ + PGSZ \<le> BLK_SIZE ufk_cfg 0" using b(2) by (simp add: sizes)
  have e: "page_addr (uf_bd u) i' = page_addr (uf_tab u) i + of_nat (j * BLK_SIZE ufk_cfg 0 + h * PGSZ)"
    using b(3) by (simp add: blk_addr_def)
  have "j * BLK_SIZE ufk_cfg 0 + h * PGSZ < BLK_SIZE ufk_cfg (MAX_SIZE ufk_cfg)"
    using node_off(1) [OF bd_okD(1) [OF ok] lev(3)] h by (simp add: PGSZ_def)
  then have "unat (page_addr (uf_bd u) i') = unat (page_addr (uf_tab u) i) + (j * BLK_SIZE ufk_cfg 0 + h * PGSZ)"
    unfolding e by (rule in_live_page(1) [OF bd_okD(8) [OF ok] lev(2)])
  then have "{unat (page_addr (uf_bd u) i') ..< unat (page_addr (uf_bd u) i') + PGSZ} \<subseteq> brange ufk_cfg (page_addr (uf_tab u)) (i, 0, j)"
    using h by auto
  then show ?thesis using b(1,2) lf e by blast
qed

lemma used_leaf:
  assumes "ufk_inv u W"
  shows "Big b \<in> W \<Longrightarrow> b \<in> leaves ufk_cfg (page_addr (uf_tab u)) (split_bits (uf_tab u))"
    "Small b \<in> W \<Longrightarrow> b \<in> leaves bd_cfg (page_addr (uf_bd u)) (split_bits (uf_bd u))"
  using bd_okD(2) [OF ufk_invD(1) [OF assms, unfolded bd_inv_def]] bd_okD(2) [OF ufk_invD(3) [OF assms, unfolded bd_inv_def]] by blast+

lemma small_block_in_page:
  assumes inv: "ufk_inv u W" and b: "Small (i', k, j) \<in> W"
  shows "live bd_cfg (page_addr (uf_bd u)) i'"
    "brange bd_cfg (page_addr (uf_bd u)) (i', k, j) \<subseteq> {unat (page_addr (uf_bd u) i') ..< unat (page_addr (uf_bd u) i') + PGSZ}"
proof -
  note ok = ufk_invD(3) [OF inv, unfolded bd_inv_def]
  note lev = leaf_level [OF ok used_leaf(2) [OF inv b]]
  show "live bd_cfg (page_addr (uf_bd u)) i'" by (rule lev(2))
  show "brange bd_cfg (page_addr (uf_bd u)) (i', k, j) \<subseteq> {unat (page_addr (uf_bd u) i') ..< unat (page_addr (uf_bd u) i') + PGSZ}"
    using page_range [OF bd_okD(1) [OF ok] lev(3)] unfolding sizes(2) .
qed

lemma big_small_disjoint:
  assumes inv: "ufk_inv u W" and b: "Big b \<in> W" and s: "Small b' \<in> W"
  shows "urange u (Big b) \<inter> urange u (Small b') = {}"
proof -
  obtain i' k' j' where e: "b' = (i', k', j')" by (cases b')
  note p = small_block_in_page [OF inv s [unfolded e]]
  obtain i j where l: "(i, j) \<in> marks (uf_tab u)" "(i, 0, j) \<in> leaves ufk_cfg (page_addr (uf_tab u)) (split_bits (uf_tab u))"
    "{unat (page_addr (uf_bd u) i') ..< unat (page_addr (uf_bd u) i') + PGSZ} \<subseteq> brange ufk_cfg (page_addr (uf_tab u)) (i, 0, j)"
    using small_page [OF inv p(1)] by blast
  have "b \<noteq> (i, 0, j)" using ufk_invD(2) [OF inv] b l(1) by (auto simp: mleaves_def)
  then have "brange ufk_cfg (page_addr (uf_tab u)) b \<inter> brange ufk_cfg (page_addr (uf_tab u)) (i, 0, j) = {}"
    by (rule leaves_disjoint [OF bd_okD(1) [OF ufk_invD(1) [OF inv, unfolded bd_inv_def]] used_leaf(1) [OF inv b] l(2)])
  then show ?thesis using l(3) p(2) unfolding e urange.simps by blast
qed

lemma used_disjoint:
  assumes inv: "ufk_inv u W" and w: "w \<in> W" "w' \<in> W" "w \<noteq> w'"
  shows "urange u w \<inter> urange u w' = {}"
proof (cases w)
  case b: (Big b)
  show ?thesis
  proof (cases w')
    case (Big b')
    then show ?thesis using leaves_disjoint [OF bd_okD(1) [OF ufk_invD(1) [OF inv, unfolded bd_inv_def]], of b b'] used_leaf(1) [OF inv] b w by simp
  next
    case (Small b')
    then show ?thesis using big_small_disjoint [OF inv, of b b'] b w by simp
  qed
next
  case b: (Small b)
  show ?thesis
  proof (cases w')
    case (Big b')
    then show ?thesis using big_small_disjoint [OF inv, of b' b] b w by (simp add: Int_commute)
  next
    case (Small b')
    then show ?thesis using leaves_disjoint [OF bd_okD(1) [OF ufk_invD(3) [OF inv, unfolded bd_inv_def]], of b b'] used_leaf(2) [OF inv] b w by simp
  qed
qed

subsection \<open>Requests of a page and more\<close>

lemma brange_nonempty: "cfg_ok c \<Longrightarrow> brange c ad b \<noteq> {}"
  using BLK_SIZE_pos [of c] by (cases b) auto

text \<open>No free block is large enough for \<open>n\<close> bytes.\<close>

definition no_room :: "ufk \<Rightarrow> ublk set \<Rightarrow> int \<Rightarrow> bool" where
  "no_room u W n \<longleftrightarrow> (\<exists>fk. size_class ufk_cfg n fk \<and>
     (\<forall>(i, k, j)\<in>free_blocks ufk_cfg (uf_tab u) ({b. Big b \<in> W} \<union> mleaves u). k < fk))"

lemma ufkalloc_big_ok:
  assumes inv: "ufk_inv u W" and n: "n \<le> 2 ^ 30"
  shows "(\<exists>b fk u'. ufkalloc_big u n = Ret (uaddr u (Big b), u') \<and> size_class ufk_cfg n fk \<and> fst (snd b) = fk \<and>
       Big b \<notin> W \<and> b \<notin> mleaves u \<and> uaddr u (Big b) \<noteq> 0 \<and> ufk_inv u' (insert (Big b) W) \<and>
       page_addr (uf_tab u') = page_addr (uf_tab u) \<and> uf_bd u' = uf_bd u \<and> marks (uf_tab u') = marks (uf_tab u)) \<or>
     ufkalloc_big u n = Panic ''[ufkalloc] could not allocate'' \<and> no_room u W n"
proof -
  let ?U = "{b. Big b \<in> W} \<union> mleaves u"
  note I = ufk_invD [OF inv]
  obtain p t fk where a: "buddy_alloc ufk_cfg (uf_tab u) n = Ret (p, t)" "page_addr t = page_addr (uf_tab u)" "size_class ufk_cfg n fk"
    "if p = 0 then t = uf_tab u \<and> (\<forall>(i, k, j)\<in>free_blocks ufk_cfg (uf_tab u) ?U. k < fk)
      else \<exists>i j. p = baddr ufk_cfg (page_addr (uf_tab u)) (i, fk, j) \<and> bd_inv ufk_cfg t (insert (i, fk, j) ?U) \<and>
        (\<forall>b\<in>?U. brange ufk_cfg (page_addr (uf_tab u)) b \<inter> brange ufk_cfg (page_addr (uf_tab u)) (i, fk, j) = {})"
    using buddy_alloc_ok [OF I(1) n] by (elim exE conjE) (rule that)
  let ?u = "u\<lparr>uf_allocated := uf_allocated u + 1, uf_tab := t\<rparr>"
  show ?thesis
  proof (cases "p = 0")
    case True
    then have "no_room u W n" using a(3,4) unfolding no_room_def by auto
    then show ?thesis using True a(1) by (simp add: ufkalloc_big_def ufkalloc_core_def)
  next
    case False
    then obtain i j where b: "p = baddr ufk_cfg (page_addr (uf_tab u)) (i, fk, j)" "bd_inv ufk_cfg t (insert (i, fk, j) ?U)"
      "\<forall>b\<in>?U. brange ufk_cfg (page_addr (uf_tab u)) b \<inter> brange ufk_cfg (page_addr (uf_tab u)) (i, fk, j) = {}"
      using a(4) by auto
    let ?b = "(i, fk, j)"
    have "?b \<notin> ?U" using b(3) brange_nonempty [OF cfg_ok_inst(2)] by blast
    then have nb: "Big ?b \<notin> W" "?b \<notin> mleaves u" by auto
    have m: "marks t = marks (uf_tab u)" by (rule buddy_alloc_marks [OF a(1)])
    have ml: "mleaves ?u = mleaves u" using m by (simp add: mleaves_def)
    have "insert ?b ?U = {b. Big b \<in> insert (Big ?b) W} \<union> mleaves u" by auto
    then have "ufk_inv ?u (insert (Big ?b) W)"
      using b(2) I(2-4) nb a(2) ml by (auto simp: ufk_inv_def halves_def)
    moreover have "ufkalloc_big u n = Ret (uaddr u (Big ?b), ?u)"
      using a(1) False b(1) by (simp add: ufkalloc_big_def ufkalloc_core_def)
    ultimately show ?thesis using nb a(2,3) b(1) False m by (intro disjI1 exI [of _ ?b] exI [of _ fk] exI [of _ ?u]) auto
  qed
qed

lemma block_page_index:
  assumes ok: "bd_inv c s U" and b: "(i, k, j) \<in> leaves c (page_addr s) (split_bits s)" and o: "off < BLK_SIZE c k"
  shows "get_page_index c s (baddr c (page_addr s) (i, k, j) + of_nat off) = Some i"
    "blk_index c k (baddr c (page_addr s) (i, k, j) + of_nat off) (page_addr s i) = j"
proof -
  note o' = ok [unfolded bd_inv_def]
  note lev = leaf_level [OF o' b]
  have lt: "j * BLK_SIZE c k + off < BLK_SIZE c (MAX_SIZE c)" using node_off(1) [OF bd_okD(1) [OF o'] lev(3)] o by linarith
  have e: "baddr c (page_addr s) (i, k, j) + of_nat off = page_addr s i + of_nat (j * BLK_SIZE c k + off)" by (simp add: blk_addr_def)
  show "get_page_index c s (baddr c (page_addr s) (i, k, j) + of_nat off) = Some i"
    unfolding e by (rule get_page_index_live [OF bd_okD(7,8) [OF o'] lev(2) lt])
  show "blk_index c k (baddr c (page_addr s) (i, k, j) + of_nat off) (page_addr s i) = j"
    unfolding e blk_index_off [OF bd_okD(7,8) [OF o'] lev(2) lt] using o by (simp add: div_mult_self3)
qed

subsection \<open>Growth of the small-block allocator\<close>

lemma pages_ok_add:
  assumes "pages_ok bd_cfg ad" "2 ^ 31 \<le> unat p" "unat p + PGSZ \<le> 2 ^ 32" "PGSZ dvd unat p" "\<And>i'. live bd_cfg ad i' \<Longrightarrow> ad i' \<noteq> p"
  shows "pages_ok bd_cfg (ad(i := p))"
proof -
  have st: "\<not> cf_stop bd_cfg" by (simp add: bd_cfg_def)
  show ?thesis using assms st unfolding pages_ok_def sizes(2) live_def by (auto split: if_splits)
qed

lemma bd_addpage_cases:
  assumes inv: "bd_inv bd_cfg s V" and p: "2 ^ 31 \<le> unat p" "unat p + PGSZ \<le> 2 ^ 32" "PGSZ dvd unat p"
    "\<And>i'. live bd_cfg (page_addr s) i' \<Longrightarrow> page_addr s i' \<noteq> p"
  shows "bd_addpage s p = Panic ''[bd_addpage] cannot add new page'' \<and> (\<forall>i<cf_npages bd_cfg. page_addr s i \<noteq> 0) \<or>
     (\<exists>s' i. bd_addpage s p = Ret s' \<and> bd_inv bd_cfg s' V \<and> i < cf_npages bd_cfg \<and> page_addr s i = 0 \<and> page_addr s' = (page_addr s)(i := p) \<and>
        (i, MAX_SIZE bd_cfg, 0) \<in> free_blocks bd_cfg s' V)"
proof (cases "find (\<lambda>i. pl_addr (bt_plist s i) = 0) [0..<cf_npages bd_cfg]")
  case None
  then have "\<forall>i<cf_npages bd_cfg. page_addr s i \<noteq> 0" by (simp add: find_None_iff page_addr_def)
  moreover have "bd_addpage s p = Panic ''[bd_addpage] cannot add new page''" using None by (simp add: bd_addpage_def)
  ultimately show ?thesis by blast
next
  case (Some i)
  have i: "i < cf_npages bd_cfg" "page_addr s i = 0" using find_upt_SomeD [OF Some] by (simp_all add: page_addr_def)
  have p0: "p \<noteq> 0" using p(1) by auto
  have ok: "pages_ok bd_cfg ((page_addr s)(i := p))" using pages_ok_add [OF bd_okD(8) [OF inv [unfolded bd_inv_def]] p] .
  obtain s' where s': "bd_addpage s p = Ret s'" "bd_inv bd_cfg s' V" "page_addr s' = (page_addr s)(i := p)"
    using bd_addpage_ok [OF inv Some p0 ok] by blast
  have off: "\<not> live bd_cfg (page_addr s) i" using i(2) by (simp add: live_def)
  have sb: "split_bits s' = split_bits s"
    using s'(1) Some by (auto simp: bd_addpage_def Let_def kbind_Ret_iff simp flip: set_page_def)
  have nS: "(i, k, j) \<notin> split_bits s" for k j
    using tree_okD(3) [OF bd_okD(1) [OF inv [unfolded bd_inv_def]]] node_live(1) off by blast
  have "(i, MAX_SIZE bd_cfg, 0) \<notin> V" using bd_okD(2) [OF inv [unfolded bd_inv_def]] off by (auto simp: leaves_def)
  then have "(i, MAX_SIZE bd_cfg, 0) \<in> free_blocks bd_cfg s' V"
    using s'(3) nS i(1) p0 by (simp add: free_blocks_def leaves_def sb live_def)
  then show ?thesis using s' i by blast
qed

lemma split_bits_mark [simp]: "split_bits (upd_split f s i 0 j) = split_bits s"
  by (auto simp: split_bits_def upd_split_def split: if_splits)

lemma half_addr:
  assumes inv: "ufk_inv u W" and b: "(i, 0, j) \<in> leaves ufk_cfg (page_addr (uf_tab u)) (split_bits (uf_tab u))" and h: "h < 2"
  defines "p \<equiv> baddr ufk_cfg (page_addr (uf_tab u)) (i, 0, j) + of_nat (h * PGSZ)"
  shows "2 ^ 31 \<le> unat p" "unat p + PGSZ \<le> 2 ^ 32" "PGSZ dvd unat p" "unat p \<in> brange ufk_cfg (page_addr (uf_tab u)) (i, 0, j)"
    "unat p = unat (page_addr (uf_tab u) i) + (j * BLK_SIZE ufk_cfg 0 + h * PGSZ)"
proof -
  note ok = ufk_invD(1) [OF inv, unfolded bd_inv_def]
  note lev = leaf_level [OF ok b]
  note L = liveD [OF bd_okD(8) [OF ok] lev(2)]
  have hp: "h * PGSZ + PGSZ \<le> BLK_SIZE ufk_cfg 0" using h by (simp add: sizes)
  have off: "j * BLK_SIZE ufk_cfg 0 + h * PGSZ + PGSZ \<le> BLK_SIZE ufk_cfg (MAX_SIZE ufk_cfg)"
    using node_off(1) [OF bd_okD(1) [OF ok] lev(3)] hp by linarith
  have e: "p = page_addr (uf_tab u) i + of_nat (j * BLK_SIZE ufk_cfg 0 + h * PGSZ)" by (simp add: p_def blk_addr_def)
  show u: "unat p = unat (page_addr (uf_tab u) i) + (j * BLK_SIZE ufk_cfg 0 + h * PGSZ)"
    unfolding e by (rule in_live_page(1) [OF bd_okD(8) [OF ok] lev(2)]) (use off in \<open>simp add: PGSZ_def\<close>)
  show "2 ^ 31 \<le> unat p" using u L(1) by simp
  show "unat p + PGSZ \<le> 2 ^ 32" using u L(2) off by simp
  have "PGSZ dvd BLK_SIZE ufk_cfg (MAX_SIZE ufk_cfg)" by (simp add: BIG PGSZ_def)
  then have "PGSZ dvd unat (page_addr (uf_tab u) i)" using L(3) dvd_trans by blast
  then show "PGSZ dvd unat p" unfolding u sizes(1) by simp
  show "unat p \<in> brange ufk_cfg (page_addr (uf_tab u)) (i, 0, j)" using u hp by (simp add: PGSZ_def)
qed

lemma half_new:
  assumes inv: "ufk_inv u W" and b: "(i, 0, j) \<in> leaves ufk_cfg (page_addr (uf_tab u)) (split_bits (uf_tab u))" "(i, 0, j) \<notin> mleaves u"
    and h: "h < 2" and l: "live bd_cfg (page_addr (uf_bd u)) i'"
  shows "page_addr (uf_bd u) i' \<noteq> baddr ufk_cfg (page_addr (uf_tab u)) (i, 0, j) + of_nat (h * PGSZ)"
proof
  assume e: "page_addr (uf_bd u) i' = baddr ufk_cfg (page_addr (uf_tab u)) (i, 0, j) + of_nat (h * PGSZ)"
  note ok = ufk_invD(1) [OF inv, unfolded bd_inv_def]
  obtain i2 j2 where b2: "(i2, j2) \<in> marks (uf_tab u)" "(i2, 0, j2) \<in> leaves ufk_cfg (page_addr (uf_tab u)) (split_bits (uf_tab u))"
    "{unat (page_addr (uf_bd u) i') ..< unat (page_addr (uf_bd u) i') + PGSZ} \<subseteq> brange ufk_cfg (page_addr (uf_tab u)) (i2, 0, j2)"
    using small_page [OF inv l] by blast
  have "(i, 0, j) \<noteq> (i2, 0, j2)" using b(2) b2(1) by (auto simp: mleaves_def)
  then have dj: "brange ufk_cfg (page_addr (uf_tab u)) (i, 0, j) \<inter> brange ufk_cfg (page_addr (uf_tab u)) (i2, 0, j2) = {}"
    by (rule leaves_disjoint [OF bd_okD(1) [OF ok] b(1) b2(2)])
  have "unat (page_addr (uf_bd u) i') \<in> brange ufk_cfg (page_addr (uf_tab u)) (i2, 0, j2)" using b2(3) by (rule subsetD) (simp add: PGSZ_def)
  moreover have "unat (page_addr (uf_bd u) i') \<in> brange ufk_cfg (page_addr (uf_tab u)) (i, 0, j)" unfolding e by (rule half_addr(4) [OF inv b(1) h])
  ultimately show False using dj by blast
qed

text \<open>Fewer than two entries are left for pages of the small-block allocator.\<close>

definition small_full :: "ufk \<Rightarrow> bool" where
  "small_full u \<longleftrightarrow> (\<exists>i1. \<forall>i<cf_npages bd_cfg. i \<noteq> i1 \<longrightarrow> page_addr (uf_bd u) i \<noteq> 0)"

lemma ufk_grow_ok:
  assumes inv: "ufk_inv u W"
  shows "(\<exists>u'. ufk_grow u = Ret u' \<and> ufk_inv u' W \<and> page_addr (uf_tab u') = page_addr (uf_tab u) \<and>
       (\<forall>i'. live bd_cfg (page_addr (uf_bd u)) i' \<longrightarrow> page_addr (uf_bd u') i' = page_addr (uf_bd u) i') \<and>
       (\<exists>i. (i, MAX_SIZE bd_cfg, 0) \<in> free_blocks bd_cfg (uf_bd u') {b. Small b \<in> W})) \<or>
     ufk_grow u = Panic ''[ufkalloc] could not allocate'' \<and> no_room u W (int PGSZ) \<or>
     ufk_grow u = Panic ''[bd_addpage] cannot add new page'' \<and> small_full u"
proof (cases "ufkalloc_big u (int PGSZ) = Panic ''[ufkalloc] could not allocate'' \<and> no_room u W (int PGSZ)")
  case True
  then show ?thesis by (simp add: ufk_grow_def)
next
  case False
  have "int PGSZ \<le> 2 ^ 30" by (simp add: PGSZ_def)
  from ufkalloc_big_ok [OF inv this] False
  obtain b fk u1 where a: "ufkalloc_big u (int PGSZ) = Ret (uaddr u (Big b), u1)" "size_class ufk_cfg (int PGSZ) fk" "fst (snd b) = fk"
    "Big b \<notin> W" "b \<notin> mleaves u" "ufk_inv u1 (insert (Big b) W)" "page_addr (uf_tab u1) = page_addr (uf_tab u)" "uf_bd u1 = uf_bd u"
    "marks (uf_tab u1) = marks (uf_tab u)" by (elim disjE exE conjE) (rule that, assumption+, simp)
  have "fk = 0" using a(2) unfolding size_class_def by (metis sizes(1) PGSZ_def gr_zeroI mult_2 of_nat_less_iff le_add1 not_less)
  then obtain i j where b: "b = (i, 0, j)" using a(3) by (cases b) auto
  let ?ad = "page_addr (uf_tab u)"
  let ?p = "baddr ufk_cfg ?ad (i, 0, j)"
  let ?V = "{b. Small b \<in> W}"
  note I1 = ufk_invD [OF a(6)]
  have lf: "(i, 0, j) \<in> leaves ufk_cfg (page_addr (uf_tab u1)) (split_bits (uf_tab u1))" using used_leaf(1) [OF a(6)] b by simp
  have nm: "(i, 0, j) \<notin> mleaves u1" using a(5,9) b by (simp add: mleaves_def)
  have ix: "ufk_get_pageindex (uf_tab u1) ?p = Some i" "blk_index ufk_cfg 0 ?p (page_addr (uf_tab u1) i) = j"
    using block_page_index [OF I1(1) lf, of 0] a(7) BLK_SIZE_pos [OF cfg_ok_inst(2), of 0] by (simp_all add: ufk_get_pageindex_def)
  define t1 where "t1 = upd_split bit_set (uf_tab u1) i 0 j"
  have g: "ufk_grow u = kbind (bd_addpage (uf_bd u) ?p) (\<lambda>b1. kbind (bd_addpage b1 (?p + of_nat PGSZ)) (\<lambda>b2. Ret (u1\<lparr>uf_tab := t1, uf_bd := b2\<rparr>)))"
    using a(1,8) ix b unfolding ufk_grow_def by (simp add: Let_def page_addr_def t1_def del: baddr.simps)
  have V: "bd_inv bd_cfg (uf_bd u) ?V" using ufk_invD(3) [OF inv] .
  have h0: "2 ^ 31 \<le> unat ?p" "unat ?p + PGSZ \<le> 2 ^ 32" "PGSZ dvd unat ?p" "unat ?p = unat (?ad i) + j * BLK_SIZE ufk_cfg 0"
    using half_addr [OF a(6) lf, of 0] a(7) by (simp_all del: baddr.simps brange.simps)
  have h1: "2 ^ 31 \<le> unat (?p + of_nat PGSZ)" "unat (?p + of_nat PGSZ) + PGSZ \<le> 2 ^ 32" "PGSZ dvd unat (?p + of_nat PGSZ)"
    "unat (?p + of_nat PGSZ) = unat (?ad i) + (j * BLK_SIZE ufk_cfg 0 + PGSZ)"
    using half_addr [OF a(6) lf, of 1] a(7) by (simp_all del: baddr.simps brange.simps)
  have ne: "?p \<noteq> ?p + of_nat PGSZ" using h0(4) h1(4) by (metis add_left_cancel add.assoc add.right_neutral PGSZ_def zero_neq_numeral)
  note new = half_new [OF a(6) lf nm, unfolded a(7,8)]
  have new0: "page_addr (uf_bd u) i' \<noteq> ?p" if "live bd_cfg (page_addr (uf_bd u)) i'" for i' using new [of 0 i'] that by simp
  have new1: "page_addr (uf_bd u) i' \<noteq> ?p + of_nat PGSZ" if "live bd_cfg (page_addr (uf_bd u)) i'" for i' using new [of 1 i'] that by simp
  consider (none0) "bd_addpage (uf_bd u) ?p = Panic ''[bd_addpage] cannot add new page''" "\<forall>i<cf_npages bd_cfg. page_addr (uf_bd u) i \<noteq> 0"
    | (some0) b1 i1 where "bd_addpage (uf_bd u) ?p = Ret b1" "bd_inv bd_cfg b1 ?V" "page_addr (uf_bd u) i1 = 0" "page_addr b1 = (page_addr (uf_bd u))(i1 := ?p)"
    using bd_addpage_cases [OF V h0(1-3) new0] by blast
  then show ?thesis
  proof cases
    case none0
    then have "small_full u" by (auto simp: small_full_def)
    then show ?thesis using none0(1) unfolding g by simp
  next
    case some0
    have n1: "page_addr b1 i' \<noteq> ?p + of_nat PGSZ" if "live bd_cfg (page_addr b1) i'" for i'
      using new1 [of i'] that ne some0(4) by (cases "i' = i1") (auto simp: live_def simp del: baddr.simps)
    consider (none1) "bd_addpage b1 (?p + of_nat PGSZ) = Panic ''[bd_addpage] cannot add new page''" "\<forall>i<cf_npages bd_cfg. page_addr b1 i \<noteq> 0"
      | (some1) b2 i2 where "bd_addpage b1 (?p + of_nat PGSZ) = Ret b2" "bd_inv bd_cfg b2 ?V" "page_addr b1 i2 = 0"
        "page_addr b2 = (page_addr b1)(i2 := ?p + of_nat PGSZ)" "(i2, MAX_SIZE bd_cfg, 0) \<in> free_blocks bd_cfg b2 ?V"
      using bd_addpage_cases [OF some0(2) h1(1-3) n1] by blast
    then show ?thesis
    proof cases
      case none1
      then have "small_full u" using some0(4) unfolding small_full_def by (intro exI [of _ i1]) auto
      then show ?thesis using none1(1) unfolding g some0(1) by simp
    next
      case some1
      let ?u = "u1\<lparr>uf_tab := t1, uf_bd := b2\<rparr>"
      have ml: "mleaves ?u = insert (i, 0, j) (mleaves u1)" by (auto simp: mleaves_def t1_def)
      have "bd_inv ufk_cfg t1 ({x. Big x \<in> insert (Big b) W} \<union> mleaves u1)" using I1(1) by (simp add: bd_inv_def t1_def)
      moreover have "{x. Big x \<in> insert (Big b) W} \<union> mleaves u1 = {x. Big x \<in> W} \<union> mleaves ?u" unfolding ml b by auto
      moreover have "{x. Big x \<in> W} \<inter> mleaves ?u = {}" using I1(2) a(4) b unfolding ml by auto
      moreover have "halves ?u"
      proof -
        have "\<exists>x\<in>mleaves ?u. \<exists>h<2. page_addr b2 i' = baddr ufk_cfg ?ad x + of_nat (h * PGSZ)" if l: "live bd_cfg (page_addr b2) i'" for i'
        proof -
          consider "i' = i2" | "i' = i1" "i' \<noteq> i2" | "i' \<noteq> i1" "i' \<noteq> i2" by blast
          then show ?thesis
          proof cases
            case 1
            then have "page_addr b2 i' = baddr ufk_cfg ?ad (i, 0, j) + of_nat (1 * PGSZ)" using some1(4) by (simp del: baddr.simps)
            then show ?thesis unfolding ml by (intro bexI [of _ "(i, 0, j)"] exI [of _ 1]) simp_all
          next
            case 2
            then have "page_addr b2 i' = baddr ufk_cfg ?ad (i, 0, j) + of_nat (0 * PGSZ)" using some1(4) some0(4) by (simp del: baddr.simps)
            then show ?thesis unfolding ml by (intro bexI [of _ "(i, 0, j)"] exI [of _ 0]) simp_all
          next
            case 3
            then have e: "page_addr b2 i' = page_addr (uf_bd u) i'" using some1(4) some0(4) by simp
            then have "live bd_cfg (page_addr (uf_bd u1)) i'" using l a(8) by (simp add: live_def)
            then show ?thesis using I1(4) e a(7,8) unfolding halves_def ml by auto
          qed
        qed
        then show ?thesis using a(7) by (simp add: halves_def t1_def)
      qed
      ultimately have "ufk_inv ?u W" using some1(2) by (simp add: ufk_inv_def)
      moreover have "page_addr b2 i' = page_addr (uf_bd u) i'" if "live bd_cfg (page_addr (uf_bd u)) i'" for i'
        using that some0(3,4) some1(3,4) by (auto simp: live_def split: if_splits)
      moreover have "ufk_grow u = Ret ?u" unfolding g some0(1) kbind.simps some1(1) ..
      ultimately show ?thesis using some1(5) a(7) by (intro disjI1 exI [of _ ?u]) (auto simp: t1_def)
    qed
  qed
qed

subsection \<open>The contract of ufkalloc\<close>

text \<open>The addresses of the blocks in use do not change.\<close>

definition keeps :: "ufk \<Rightarrow> ufk \<Rightarrow> ublk set \<Rightarrow> bool" where
  "keeps u u' W \<longleftrightarrow> (\<forall>w\<in>W. uaddr u' w = uaddr u w \<and> urange u' w = urange u w)"

lemma keepsI:
  assumes inv: "ufk_inv u W" and t: "page_addr (uf_tab u') = page_addr (uf_tab u)"
    and b: "\<And>i'. live bd_cfg (page_addr (uf_bd u)) i' \<Longrightarrow> page_addr (uf_bd u') i' = page_addr (uf_bd u) i'"
  shows "keeps u u' W"
proof -
  have "uaddr u' w = uaddr u w \<and> urange u' w = urange u w" if w: "w \<in> W" for w
  proof (cases w)
    case (Big b)
    then show ?thesis using t by simp
  next
    case (Small x)
    obtain i k j where x: "x = (i, k, j)" by (cases x)
    have "live bd_cfg (page_addr (uf_bd u)) i" using small_block_in_page(1) [OF inv] w Small x by blast
    then show ?thesis using b [of i] Small x by simp
  qed
  then show ?thesis by (simp add: keeps_def)
qed

lemma size_class_bd: "size_class bd_cfg n fk \<Longrightarrow> n < int PGSZ \<Longrightarrow> fk \<le> 7"
proof (rule ccontr)
  assume a: "size_class bd_cfg n fk" "n < int PGSZ" "\<not> fk \<le> 7"
  then have "int (BLK_SIZE bd_cfg 7) < n" unfolding size_class_def by simp
  then show False using a(2) sizes(2,3) by simp
qed

lemma bd_alloc_used:
  assumes inv: "ufk_inv u W" and n: "n < int PGSZ"
  shows "\<exists>p b. bd_alloc (uf_bd u) n = Ret (p, b) \<and>
     (if p = 0 then b = uf_bd u \<and> (\<forall>(i, k, j)\<in>free_blocks bd_cfg (uf_bd u) {b. Small b \<in> W}. k < 7)
      else \<exists>x. Small x \<notin> W \<and> p = baddr bd_cfg (page_addr (uf_bd u)) x \<and> n \<le> int (usize (Small x)) \<and>
        page_addr b = page_addr (uf_bd u) \<and> ufk_inv (u\<lparr>uf_bd := b\<rparr>) (insert (Small x) W))"
proof -
  note I = ufk_invD [OF inv]
  let ?V = "{b. Small b \<in> W}"
  have n30: "n \<le> 2 ^ 30" using n by (simp add: PGSZ_def)
  obtain p t fk where a: "buddy_alloc bd_cfg (uf_bd u) n = Ret (p, t)" "page_addr t = page_addr (uf_bd u)" "size_class bd_cfg n fk"
    "if p = 0 then t = uf_bd u \<and> (\<forall>(i, k, j)\<in>free_blocks bd_cfg (uf_bd u) ?V. k < fk)
      else \<exists>i j. p = baddr bd_cfg (page_addr (uf_bd u)) (i, fk, j) \<and> bd_inv bd_cfg t (insert (i, fk, j) ?V) \<and>
        (\<forall>b\<in>?V. brange bd_cfg (page_addr (uf_bd u)) b \<inter> brange bd_cfg (page_addr (uf_bd u)) (i, fk, j) = {})"
    using buddy_alloc_ok [OF I(3) n30] by (elim exE conjE) (rule that)
  show ?thesis
  proof (cases "p = 0")
    case True
    then show ?thesis using a(1,4) size_class_bd [OF a(3) n] by (fastforce simp: bd_alloc_def)
  next
    case False
    then obtain i j where x: "p = baddr bd_cfg (page_addr (uf_bd u)) (i, fk, j)" "bd_inv bd_cfg t (insert (i, fk, j) ?V)"
      "\<forall>b\<in>?V. brange bd_cfg (page_addr (uf_bd u)) b \<inter> brange bd_cfg (page_addr (uf_bd u)) (i, fk, j) = {}" using a(4) by auto
    let ?x = "(i, fk, j)" and ?u = "u\<lparr>uf_bd := t\<rparr>"
    have nb: "Small ?x \<notin> W" using x(3) brange_nonempty [OF cfg_ok_inst(1)] by blast
    have ml: "mleaves ?u = mleaves u" by (simp add: mleaves_def)
    have "insert ?x ?V = {b. Small b \<in> insert (Small ?x) W}" by auto
    then have "ufk_inv ?u (insert (Small ?x) W)" using x(2) I(1,2,4) a(2) ml by (simp add: ufk_inv_def halves_def)
    moreover have "n \<le> int (usize (Small ?x))" using a(3) by (simp add: size_class_def)
    ultimately show ?thesis using a(1,2) x(1) nb False
      by (intro exI [of _ p] exI [of _ t]) (auto simp: bd_alloc_def simp del: baddr.simps usize.simps intro!: exI [of _ ?x])
  qed
qed

lemma ufkalloc_ok:
  assumes inv: "ufk_inv u W" and n: "n \<le> 2 ^ 30"
  shows "(\<exists>w u'. ufkalloc u n = Ret (uaddr u' w, u') \<and> w \<notin> W \<and> n \<le> int (usize w) \<and> ufk_inv u' (insert w W) \<and> keeps u u' W) \<or>
     ufkalloc u n = Panic ''[ufkalloc] could not allocate'' \<and> no_room u W (max n (int PGSZ)) \<or>
     ufkalloc u n = Panic ''[bd_addpage] cannot add new page'' \<and> n < int PGSZ \<and> small_full u"
proof (cases "n < int PGSZ")
  case False
  then have e: "ufkalloc u n = ufkalloc_big u n" by (simp add: ufkalloc_def)
  from ufkalloc_big_ok [OF inv n] show ?thesis
  proof (elim disjE exE conjE)
    fix b fk u'
    assume a: "ufkalloc_big u n = Ret (uaddr u (Big b), u')" "size_class ufk_cfg n fk" "fst (snd b) = fk" "Big b \<notin> W"
      "ufk_inv u' (insert (Big b) W)" "page_addr (uf_tab u') = page_addr (uf_tab u)" "uf_bd u' = uf_bd u"
    have "n \<le> int (usize (Big b))" using a(2,3) by (cases b) (simp add: size_class_def)
    moreover have "keeps u u' W" by (rule keepsI [OF inv a(6)]) (simp add: a(7))
    moreover have "uaddr u' (Big b) = uaddr u (Big b)" using a(6) by simp
    ultimately show ?thesis using a(1,4,5) e by metis
  qed (use False in \<open>simp add: e max_def\<close>)
next
  case True
  let ?u1 = "u\<lparr>uf_allocated := uf_allocated u + 1\<rparr>"
  have i1: "ufk_inv ?u1 W" using inv by (simp add: ufk_inv_def mleaves_def halves_def)
  have ub: "uf_bd ?u1 = uf_bd u" by simp
  obtain p b where p: "bd_alloc (uf_bd u) n = Ret (p, b)"
    "if p = 0 then b = uf_bd u \<and> (\<forall>(i, k, j)\<in>free_blocks bd_cfg (uf_bd u) {b. Small b \<in> W}. k < 7)
     else \<exists>x. Small x \<notin> W \<and> p = baddr bd_cfg (page_addr (uf_bd u)) x \<and> n \<le> int (usize (Small x)) \<and>
        page_addr b = page_addr (uf_bd u) \<and> ufk_inv (?u1\<lparr>uf_bd := b\<rparr>) (insert (Small x) W)"
    using bd_alloc_used [OF i1 True, unfolded ub] by (elim exE conjE) (rule that)
  show ?thesis
  proof (cases "p = 0")
    case False
    then obtain x where x: "Small x \<notin> W" "p = baddr bd_cfg (page_addr (uf_bd u)) x" "n \<le> int (usize (Small x))"
      "page_addr b = page_addr (uf_bd u)" "ufk_inv (?u1\<lparr>uf_bd := b\<rparr>) (insert (Small x) W)" using p(2) by auto
    have "ufkalloc u n = Ret (uaddr (?u1\<lparr>uf_bd := b\<rparr>) (Small x), ?u1\<lparr>uf_bd := b\<rparr>)"
      using True p(1) False x(2,4) by (simp add: ufkalloc_def Let_def)
    moreover have "keeps u (?u1\<lparr>uf_bd := b\<rparr>) W" by (rule keepsI [OF inv]) (simp_all add: x(4))
    ultimately show ?thesis using x(1,3,5) by blast
  next
    case p0: True
    then have b: "b = uf_bd u" using p(2) by simp
    have e: "ufkalloc u n = kbind (ufk_grow ?u1) (\<lambda>u2. kbind (bd_alloc (uf_bd u2) n) (\<lambda>(p, b).
        if p = 0 then Panic ''[ufkalloc] cannot alloc...'' else Ret (p, u2\<lparr>uf_bd := b\<rparr>)))"
      using True p(1) p0 b by (simp add: ufkalloc_def Let_def)
    from ufk_grow_ok [OF i1] show ?thesis
    proof (elim disjE exE conjE)
      fix u2 i
      assume g: "ufk_grow ?u1 = Ret u2" "ufk_inv u2 W" "page_addr (uf_tab u2) = page_addr (uf_tab ?u1)"
        "\<forall>i'. live bd_cfg (page_addr (uf_bd ?u1)) i' \<longrightarrow> page_addr (uf_bd u2) i' = page_addr (uf_bd ?u1) i'"
        "(i, MAX_SIZE bd_cfg, 0) \<in> free_blocks bd_cfg (uf_bd u2) {b. Small b \<in> W}"
      obtain q b2 where q: "bd_alloc (uf_bd u2) n = Ret (q, b2)"
        "if q = 0 then b2 = uf_bd u2 \<and> (\<forall>(i, k, j)\<in>free_blocks bd_cfg (uf_bd u2) {b. Small b \<in> W}. k < 7)
         else \<exists>x. Small x \<notin> W \<and> q = baddr bd_cfg (page_addr (uf_bd u2)) x \<and> n \<le> int (usize (Small x)) \<and>
            page_addr b2 = page_addr (uf_bd u2) \<and> ufk_inv (u2\<lparr>uf_bd := b2\<rparr>) (insert (Small x) W)"
        using bd_alloc_used [OF g(2) True] by (elim exE conjE) (rule that)
      have "q \<noteq> 0" using q(2) g(5) sizes(3) by auto
      then obtain x where x: "Small x \<notin> W" "q = baddr bd_cfg (page_addr (uf_bd u2)) x" "n \<le> int (usize (Small x))"
        "page_addr b2 = page_addr (uf_bd u2)" "ufk_inv (u2\<lparr>uf_bd := b2\<rparr>) (insert (Small x) W)" using q(2) by auto
      have "ufkalloc u n = Ret (uaddr (u2\<lparr>uf_bd := b2\<rparr>) (Small x), u2\<lparr>uf_bd := b2\<rparr>)"
        unfolding e g(1) using q(1) \<open>q \<noteq> 0\<close> x(2,4) by simp
      moreover have "keeps u (u2\<lparr>uf_bd := b2\<rparr>) W" by (rule keepsI [OF inv]) (use g(3,4) x(4) in simp_all)
      ultimately show ?thesis using x(1,3,5) by blast
    next
      assume "ufk_grow ?u1 = Panic ''[ufkalloc] could not allocate''" "no_room ?u1 W (int PGSZ)"
      moreover from this have "no_room u W (max n (int PGSZ))" using True by (simp add: no_room_def mleaves_def max_def)
      ultimately show ?thesis by (simp add: e)
    next
      assume "ufk_grow ?u1 = Panic ''[bd_addpage] cannot add new page''" "small_full ?u1"
      then show ?thesis using True by (simp add: e small_full_def)
    qed
  qed
qed

subsection \<open>The contract of ufkfree\<close>

lemma big_not_marked:
  assumes inv: "ufk_inv u W" and b: "Big (i, k, j) \<in> W"
  shows "(i, blk_index ufk_cfg 0 (uaddr u (Big (i, k, j))) (page_addr (uf_tab u) i)) \<notin> marks (uf_tab u)"
proof
  let ?ad = "page_addr (uf_tab u)" and ?S = "split_bits (uf_tab u)"
  note ok = ufk_invD(1) [OF inv, unfolded bd_inv_def]
  note t = bd_okD(1) [OF ok]
  have lf: "(i, k, j) \<in> leaves ufk_cfg ?ad ?S" by (rule used_leaf(1) [OF inv b])
  have ix: "blk_index ufk_cfg 0 (uaddr u (Big (i, k, j))) (?ad i) = j * 2 ^ k"
    using node_index [OF t leaf_level(3) [OF ok lf], of 0] BLK_SIZE_pos [OF cfg_ok_inst(2), of 0] BLK_SIZE_add [of ufk_cfg 0 k]
    by (simp del: baddr.simps)
  assume "(i, blk_index ufk_cfg 0 (uaddr u (Big (i, k, j))) (?ad i)) \<in> marks (uf_tab u)"
  then have m: "(i, 0, j * 2 ^ k) \<in> mleaves u" unfolding ix by (simp add: mleaves_def)
  then have lm: "(i, 0, j * 2 ^ k) \<in> leaves ufk_cfg ?ad ?S" using bd_okD(2) [OF ok] by blast
  have "unat (?ad i) + j * BLK_SIZE ufk_cfg k \<in> brange ufk_cfg ?ad (i, 0, j * 2 ^ k)" "unat (?ad i) + j * BLK_SIZE ufk_cfg k \<in> brange ufk_cfg ?ad (i, k, j)"
    using BLK_SIZE_pos [OF cfg_ok_inst(2)] BLK_SIZE_add [of ufk_cfg 0 k] by simp_all
  then have "(i, 0, j * 2 ^ k) = (i, k, j)" using leaves_disjoint [OF t lm lf] by blast
  then show False using m ufk_invD(2) [OF inv] b by auto
qed

lemma ufkfree_big:
  assumes inv: "ufk_inv u W" and b: "Big (i, k, j) \<in> W"
  shows "\<exists>u'. ufkfree u (uaddr u (Big (i, k, j))) = Ret u' \<and> ufk_inv u' (W - {Big (i, k, j)}) \<and> keeps u u' W"
proof -
  let ?b = "(i, k, j)" and ?U = "{b. Big b \<in> W} \<union> mleaves u"
  let ?p = "uaddr u (Big ?b)"
  note I = ufk_invD [OF inv]
  obtain t where t: "buddy_free ufk_cfg (uf_tab u) ?p i (page_addr (uf_tab u) i) = Ret t" "page_addr t = page_addr (uf_tab u)"
    "bd_inv ufk_cfg t (?U - {?b})"
    using buddy_free_ok [OF I(1), of i k j] b by auto
  have pi: "ufk_get_pageindex (uf_tab u) ?p = Some i"
    using block_page_index(1) [OF I(1) used_leaf(1) [OF inv b], of 0] BLK_SIZE_pos [OF cfg_ok_inst(2), of k]
    by (simp add: ufk_get_pageindex_def del: baddr.simps)
  have nm: "\<not> bit_isset (pl_split (bt_plist (uf_tab u) i) 0) (blk_index ufk_cfg 0 ?p (page_addr (uf_tab u) i))"
    using big_not_marked [OF inv b] by (simp add: marks_def del: uaddr.simps)
  let ?u = "u\<lparr>uf_allocated := uf_allocated u - 1, uf_tab := t\<rparr>"
  have "ufkfree u ?p = Ret ?u"
    using pi nm t(1) by (simp add: ufkfree_def Let_def ufkfree_core_def page_addr_def del: uaddr.simps)
  moreover have ml: "mleaves ?u = mleaves u" using buddy_free_marks [OF t(1)] by (simp add: mleaves_def)
  moreover have "?U - {?b} = {b. Big b \<in> W - {Big ?b}} \<union> mleaves u" using I(2) b by auto
  then have "ufk_inv ?u (W - {Big ?b})" using t(2,3) I(2-4) ml by (auto simp: ufk_inv_def halves_def)
  moreover have "keeps u ?u W" by (rule keepsI [OF inv]) (simp_all add: t(2))
  ultimately show ?thesis by blast
qed

lemma ufkfree_small:
  assumes inv: "ufk_inv u W" and b: "Small (i', k, j) \<in> W"
  shows "\<exists>u'. ufkfree u (uaddr u (Small (i', k, j))) = Ret u' \<and> ufk_inv u' (W - {Small (i', k, j)}) \<and> keeps u u' W"
proof -
  let ?b = "(i', k, j)" and ?V = "{b. Small b \<in> W}"
  let ?p = "uaddr u (Small ?b)"
  note I = ufk_invD [OF inv]
  note ok = I(3) [unfolded bd_inv_def]
  have lf: "?b \<in> leaves bd_cfg (page_addr (uf_bd u)) (split_bits (uf_bd u))" by (rule used_leaf(2) [OF inv b])
  obtain i2 j2 h where m: "h < 2" "(i2, j2) \<in> marks (uf_tab u)" "(i2, 0, j2) \<in> leaves ufk_cfg (page_addr (uf_tab u)) (split_bits (uf_tab u))"
    "page_addr (uf_bd u) i' = page_addr (uf_tab u) i2 + of_nat (j2 * BLK_SIZE ufk_cfg 0 + h * PGSZ)"
    using small_page [OF inv small_block_in_page(1) [OF inv b]] by blast
  have off: "j * BLK_SIZE bd_cfg k < PGSZ" using node_off(2) [OF bd_okD(1) [OF ok] leaf_level(3) [OF ok lf]] by (simp only: sizes(2))
  have h1: "h \<le> 1" using m(1) by simp
  then have "h * PGSZ \<le> PGSZ" using mult_le_mono1 [of h 1 PGSZ] by simp
  then have o2: "h * PGSZ + j * BLK_SIZE bd_cfg k < BLK_SIZE ufk_cfg 0" using off unfolding sizes by linarith
  have p: "?p = baddr ufk_cfg (page_addr (uf_tab u)) (i2, 0, j2) + of_nat (h * PGSZ + j * BLK_SIZE bd_cfg k)"
    using m(4) by (simp add: blk_addr_def)
  have pi: "ufk_get_pageindex (uf_tab u) ?p = Some i2" "blk_index ufk_cfg 0 ?p (page_addr (uf_tab u) i2) = j2"
    using block_page_index [OF I(1) m(3) o2] unfolding p ufk_get_pageindex_def by simp_all
  obtain t where t: "buddy_free bd_cfg (uf_bd u) ?p i' (page_addr (uf_bd u) i') = Ret t" "page_addr t = page_addr (uf_bd u)"
    "bd_inv bd_cfg t (?V - {?b})"
    using buddy_free_ok [OF I(3), of i' k j] b by auto
  have "get_page_index bd_cfg (uf_bd u) ?p = Some i'"
    using block_page_index(1) [OF I(3) lf, of 0] BLK_SIZE_pos [OF cfg_ok_inst(1), of k] by (simp del: baddr.simps)
  then have f: "bd_free (uf_bd u) ?p = Ret t" using t(1) by (simp add: bd_free_def page_addr_def del: uaddr.simps)
  let ?u = "u\<lparr>uf_allocated := uf_allocated u - 1, uf_bd := t\<rparr>"
  have "ufkfree u ?p = Ret ?u"
    using pi m(2) f by (simp add: ufkfree_def Let_def marks_def page_addr_def del: uaddr.simps)
  moreover have "?V - {?b} = {b. Small b \<in> W - {Small ?b}}" by auto
  then have "ufk_inv ?u (W - {Small ?b})" using t(2,3) I(1,2,4) by (simp add: ufk_inv_def halves_def mleaves_def)
  moreover have "keeps u ?u W" by (rule keepsI [OF inv]) (simp_all add: t(2))
  ultimately show ?thesis by blast
qed

lemma ufkfree_ok:
  assumes "ufk_inv u W" "w \<in> W"
  shows "\<exists>u'. ufkfree u (uaddr u w) = Ret u' \<and> ufk_inv u' (W - {w}) \<and> keeps u u' W"
proof (cases w)
  case (Big b)
  then show ?thesis using ufkfree_big [OF assms(1)] assms(2) by (cases b) simp
next
  case (Small b)
  then show ?thesis using ufkfree_small [OF assms(1)] assms(2) by (cases b) simp
qed

subsection \<open>The allocator after boot\<close>

definition first_area :: "u64 \<Rightarrow> nat" where
  "first_area kend = (unat kend + (BIGPG_SIZE - 1)) div BIGPG_SIZE * BIGPG_SIZE"

definition n_areas :: "u64 \<Rightarrow> nat" where
  "n_areas kend = (unat PHYSTOP - first_area kend) div BIGPG_SIZE"

lemma PHYSTOP_unat: "unat PHYSTOP = 2281701376" "PHYSTOP = of_nat 2281701376"
  by (simp_all add: PHYSTOP_def)

lemma first_area_bounds:
  assumes "2 ^ 31 \<le> unat kend" "kend \<le> PHYSTOP"
  shows "2 ^ 31 \<le> first_area kend" "first_area kend \<le> 2281701376" "BIGPG_SIZE dvd first_area kend" "unat kend \<le> first_area kend"
proof -
  have k: "unat kend \<le> 2281701376" using assms(2) by (simp add: word_le_nat_alt PHYSTOP_unat)
  show d: "BIGPG_SIZE dvd first_area kend" by (simp add: first_area_def)
  have "(unat kend + (BIGPG_SIZE - 1)) div BIGPG_SIZE \<le> (2281701376 + (BIGPG_SIZE - 1)) div BIGPG_SIZE" using k by (intro div_le_mono) simp
  then have "first_area kend \<le> (2281701376 + (BIGPG_SIZE - 1)) div BIGPG_SIZE * BIGPG_SIZE" unfolding first_area_def by (rule mult_le_mono1)
  then show "first_area kend \<le> 2281701376" by (simp add: BIG)
  show u: "unat kend \<le> first_area kend"
    using div_mult_mod_eq [of "unat kend + (BIGPG_SIZE - 1)" BIGPG_SIZE] mod_less_divisor [of BIGPG_SIZE "unat kend + (BIGPG_SIZE - 1)"]
    unfolding first_area_def BIG by simp
  then show "2 ^ 31 \<le> first_area kend" using assms(1) by simp
qed

lemma unat_BIGPGROUNDUP:
  assumes "kend \<le> PHYSTOP"
  shows "BIGPGROUNDUP kend = of_nat (first_area kend)"
proof -
  let ?a = "kend + 524287 :: u64"
  have k: "unat kend \<le> 2281701376" using assms by (simp add: word_le_nat_alt PHYSTOP_unat)
  have "BIGPGROUNDUP kend = ?a AND NOT (mask 19)" by (simp add: BIGPGROUNDUP_def BIG mask_eq_exp_minus_1 add.commute)
  also have "\<dots> = push_bit 19 (drop_bit 19 ?a)" by (rule bit_word_eqI) (auto simp: bit_simps)
  finally have "unat (BIGPGROUNDUP kend) = (unat ?a div 524288 * 524288) mod 2 ^ 64"
    by (simp only: unsigned_push_bit_eq unat_drop) (simp add: take_bit_eq_mod push_bit_eq_mult)
  moreover have ua: "unat ?a = unat kend + 524287" using unat_add_of_nat [of kend 524287] k by simp
  moreover have "(unat kend + 524287) div 524288 * 524288 < 2 ^ 64"
    using div_times_less_eq_dividend [of "unat kend + 524287" 524288] k by simp
  ultimately have "unat (BIGPGROUNDUP kend) = first_area kend" by (simp add: first_area_def BIG)
  then have "(of_nat (unat (BIGPGROUNDUP kend)) :: u64) = of_nat (first_area kend)" by (simp only:)
  then show ?thesis by simp
qed

lemma ufkinit_ok:
  assumes "2 ^ 31 \<le> unat kend" "kend \<le> PHYSTOP"
  shows "\<exists>u'. ufkinit u kend = Ret u' \<and> ufk_inv u' {} \<and> page_addr (uf_tab u') = areas (first_area kend) (n_areas kend) \<and>
     mleaves u' = {} \<and> page_addr (uf_bd u') = (\<lambda>_. 0)"
proof -
  note f = first_area_bounds [OF assms]
  let ?s = "(uf_tab u)\<lparr>bt_plist := (\<lambda>_. no_page), bt_links := heads_init (bt_links (uf_tab u)) (cf_nsizes ufk_cfg)\<rparr>"
  have n: "n_areas kend = (2281701376 - first_area kend) div BIGPG_SIZE" by (simp add: n_areas_def PHYSTOP_unat)
  have "n_areas kend \<le> 2281701376 div BIGPG_SIZE" unfolding n by (intro div_le_mono) simp
  moreover have "(2281701376 - first_area kend) div BIGPG_SIZE \<le> (2281701376 - 2 ^ 31) div BIGPG_SIZE" using f(1) by (intro div_le_mono) linarith
  then have "n_areas kend \<le> cf_npages ufk_cfg" unfolding n by (simp add: BIG ufk_cfg_def)
  moreover have "areas (first_area kend) 0 = (\<lambda>_. 0)" by (simp add: areas_def fun_eq_iff)
  then have "bd_inv ufk_cfg ?s {}" "page_addr ?s = areas (first_area kend) 0" "marks ?s = {}"
    using bd_ok_no_pages [OF cfg_ok_inst(2), of "bt_links (uf_tab u)"] no_page_bits [of "uf_tab u"] by (simp_all add: bd_inv_def)
  ultimately obtain t where t: "table_fill (unat PHYSTOP div BIGPG_SIZE + 1) ?s 0 (of_nat (first_area kend + 0 * BIGPG_SIZE)) (of_nat 2281701376) = Ret t"
    "bd_inv ufk_cfg t {}" "page_addr t = areas (first_area kend) (n_areas kend)" "marks t = {}"
    using table_fill_ok [OF f(1,3,2) _ n, of ?s 0 "unat PHYSTOP div BIGPG_SIZE + 1"] by (auto simp: BIG PHYSTOP_unat)
  let ?u = "u\<lparr>uf_tab := t, uf_bd := bd_init (uf_bd u)\<rparr>"
  have "ufkinit u kend = Ret ?u"
    using t(1) unfolding ufkinit_def table_init_def unat_BIGPGROUNDUP [OF assms(2)] PHYSTOP_unat(2) [symmetric] by simp
  moreover have bi: "bd_inv bd_cfg (bd_init (uf_bd u)) {}" "page_addr (bd_init (uf_bd u)) = (\<lambda>_. 0)"
    using bd_ok_no_pages [OF cfg_ok_inst(1), of "bt_links (uf_bd u)"] no_page_bits [of "uf_bd u"] by (simp_all add: bd_inv_def bd_init_def)
  then have "ufk_inv ?u {}" using t(2,4) by (simp add: ufk_inv_def mleaves_def halves_def live_def)
  moreover have "mleaves ?u = {}" using t(4) by (simp add: mleaves_def)
  ultimately show ?thesis using t(3) bi(2) by (intro exI [of _ ?u]) simp
qed

text \<open>After boot every request of up to a page is served.\<close>

lemma boot_serves:
  assumes k: "2 ^ 31 \<le> unat kend" "kend \<le> PHYSTOP" "0 < n_areas kend" and n: "n \<le> int PGSZ"
  shows "\<exists>u' p u''. ufkinit u kend = Ret u' \<and> ufk_inv u' {} \<and> ufkalloc u' n = Ret (p, u'')"
proof -
  obtain u' where u: "ufkinit u kend = Ret u'" "ufk_inv u' {}" "page_addr (uf_tab u') = areas (first_area kend) (n_areas kend)"
    "mleaves u' = {}" "page_addr (uf_bd u') = (\<lambda>_. 0)" using ufkinit_ok [OF k(1,2)] by blast
  have ok: "bd_ok ufk_cfg (page_addr (uf_tab u')) (alloc_bits (uf_tab u')) (split_bits (uf_tab u')) (bt_links (uf_tab u')) {}"
    using ufk_invD(1) [OF u(2)] u(4) by (simp add: bd_inv_def)
  have S: "split_bits (uf_tab u') = {}" by (rule all_free_whole [OF ok])
  have "first_area kend + n_areas kend * BIGPG_SIZE \<le> 2281701376"
    using first_area_bounds(2) [OF k(1,2)] div_times_less_eq_dividend [of "unat PHYSTOP - first_area kend" BIGPG_SIZE]
    unfolding n_areas_def PHYSTOP_unat(1) by linarith
  then have "first_area kend + n_areas kend * BIGPG_SIZE \<le> 2 ^ 32" by simp
  from unat_area [OF this k(3)] have "page_addr (uf_tab u') 0 \<noteq> 0" using first_area_bounds(1) [OF k(1,2)] u(3) by auto
  then have "(0, MAX_SIZE ufk_cfg, 0) \<in> free_blocks ufk_cfg (uf_tab u') ({b. Big b \<in> {}} \<union> mleaves u')"
    using S u(4) by (simp add: free_blocks_def leaves_def live_def ufk_cfg_def)
  moreover have "fk = 0" if "size_class ufk_cfg (max n (int PGSZ)) fk" for fk
    using that n unfolding size_class_def by (cases fk) (auto simp: max_def PGSZ_def sizes(1))
  ultimately have "\<not> no_room u' {} (max n (int PGSZ))" unfolding no_room_def by fastforce
  moreover have "\<not> small_full u'"
  proof
    assume "small_full u'"
    then obtain i1 where "\<forall>i<cf_npages bd_cfg. i \<noteq> i1 \<longrightarrow> page_addr (uf_bd u') i \<noteq> 0" unfolding small_full_def by blast
    then have "cf_npages bd_cfg \<le> Suc 0" using u(5) by (metis One_nat_def Suc_lessD less_one not_less zero_neq_one)
    then show False by (simp add: bd_cfg_def)
  qed
  moreover have "n \<le> 2 ^ 30" using n by (simp add: PGSZ_def)
  ultimately show ?thesis using ufkalloc_ok [OF u(2), of n] u(1,2) by blast
qed

subsection \<open>Clients\<close>

fun alloc_all :: "('s \<Rightarrow> int \<Rightarrow> (u64 \<times> 's) kres) \<Rightarrow> 's \<Rightarrow> int list \<Rightarrow> (u64 list \<times> 's) kres" where
  "alloc_all alloc s [] = Ret ([], s)"
| "alloc_all alloc s (n # ns) = kbind (alloc s n) (\<lambda>(p, s1). kbind (alloc_all alloc s1 ns) (\<lambda>(ps, s2). Ret (p # ps, s2)))"

fun free_all :: "('s \<Rightarrow> u64 \<Rightarrow> 's kres) \<Rightarrow> 's \<Rightarrow> u64 list \<Rightarrow> 's kres" where
  "free_all free s [] = Ret s"
| "free_all free s (p # ps) = kbind (free s p) (\<lambda>s1. free_all free s1 ps)"

text \<open>What the clients of an allocator rely on: \<open>inv s W\<close> says that the blocks \<open>W\<close> are in use in the state \<open>s\<close>, and the
  address and the bytes of a block in use do not change.\<close>

locale allocator =
  fixes alloc :: "'s \<Rightarrow> int \<Rightarrow> (u64 \<times> 's) kres" and free :: "'s \<Rightarrow> u64 \<Rightarrow> 's kres"
    and inv :: "'s \<Rightarrow> 'b set \<Rightarrow> bool" and addr :: "'s \<Rightarrow> 'b \<Rightarrow> u64" and cells :: "'s \<Rightarrow> 'b \<Rightarrow> nat set" and bsize :: "'b \<Rightarrow> nat"
  assumes fresh: "inv s W \<Longrightarrow> n \<le> 2 ^ 30 \<Longrightarrow> alloc s n = Ret (p, s') \<Longrightarrow>
      \<exists>b. b \<notin> W \<and> p = addr s' b \<and> n \<le> int (bsize b) \<and> inv s' (insert b W) \<and> (\<forall>w\<in>W. addr s' w = addr s w \<and> cells s' w = cells s w)"
    and release: "inv s W \<Longrightarrow> b \<in> W \<Longrightarrow>
      \<exists>s'. free s (addr s b) = Ret s' \<and> inv s' (W - {b}) \<and> (\<forall>w\<in>W. addr s' w = addr s w \<and> cells s' w = cells s w)"
    and apart: "inv s W \<Longrightarrow> b \<in> W \<Longrightarrow> b' \<in> W \<Longrightarrow> b \<noteq> b' \<Longrightarrow> cells s b \<inter> cells s b' = {}"
begin

lemma alloc_all_blocks:
  "inv s W \<Longrightarrow> \<forall>n\<in>set ns. n \<le> 2 ^ 30 \<Longrightarrow> alloc_all alloc s ns = Ret (ps, s') \<Longrightarrow>
   \<exists>bs. distinct bs \<and> set bs \<inter> W = {} \<and> ps = map (addr s') bs \<and> list_all2 (\<lambda>n b. n \<le> int (bsize b)) ns bs \<and> inv s' (W \<union> set bs) \<and>
     (\<forall>w\<in>W. addr s' w = addr s w \<and> cells s' w = cells s w)"
proof (induction ns arbitrary: s W ps)
  case (Cons n ns)
  obtain p s1 ps1 where a: "alloc s n = Ret (p, s1)" "alloc_all alloc s1 ns = Ret (ps1, s')" "ps = p # ps1"
    using Cons.prems(3) by (auto simp: kbind_Ret_iff)
  have n: "n \<le> 2 ^ 30" "\<forall>n\<in>set ns. n \<le> 2 ^ 30" using Cons.prems(2) by simp_all
  obtain b where b: "b \<notin> W" "p = addr s1 b" "n \<le> int (bsize b)" "inv s1 (insert b W)" "\<forall>w\<in>W. addr s1 w = addr s w \<and> cells s1 w = cells s w"
    using fresh [OF Cons.prems(1) n(1) a(1)] by blast
  obtain bs where bs: "distinct bs" "set bs \<inter> insert b W = {}" "ps1 = map (addr s') bs" "list_all2 (\<lambda>n b. n \<le> int (bsize b)) ns bs"
    "inv s' (insert b W \<union> set bs)" "\<forall>w\<in>insert b W. addr s' w = addr s1 w \<and> cells s' w = cells s1 w"
    using Cons.IH [OF b(4) n(2) a(2)] by blast
  have "insert b W \<union> set bs = W \<union> set (b # bs)" by auto
  then show ?case using b(1-3,5) bs a(3) by (intro exI [of _ "b # bs"]) auto
qed simp

lemma free_all_blocks:
  "inv s (W \<union> set bs) \<Longrightarrow> distinct bs \<Longrightarrow> set bs \<inter> W = {} \<Longrightarrow> \<exists>s'. free_all free s (map (addr s) bs) = Ret s' \<and> inv s' W"
proof (induction bs arbitrary: s)
  case (Cons b bs)
  obtain s1 where s1: "free s (addr s b) = Ret s1" "inv s1 (W \<union> set (b # bs) - {b})" "\<forall>w\<in>W \<union> set (b # bs). addr s1 w = addr s w"
    using release [OF Cons.prems(1), of b] by auto
  have "W \<union> set (b # bs) - {b} = W \<union> set bs" using Cons.prems(2,3) by auto
  then obtain s' where "free_all free s1 (map (addr s1) bs) = Ret s'" "inv s' W" using Cons.IH [of s1] s1(2) Cons.prems(2,3) by auto
  moreover have "map (addr s1) bs = map (addr s) bs" using s1(3) by simp
  ultimately show ?case using s1(1) by simp
qed simp

lemma blocks_apart:
  assumes "inv s' (W \<union> set bs)" "distinct bs" "i < length bs" "j < length bs" "i \<noteq> j"
  shows "cells s' (bs ! i) \<inter> cells s' (bs ! j) = {}"
  using assms by (intro apart [OF assms(1)]) (simp_all add: nth_eq_iff_index_eq)

end

interpretation kheap: allocator ufkalloc ufkfree ufk_inv uaddr urange usize
proof (unfold_locales, goal_cases)
  case (1 s W n p s')
  then show ?case using ufkalloc_ok [OF 1(1,2)] by (auto simp: keeps_def)
next
  case (2 s W b)
  then show ?case using ufkfree_ok [OF 2] by (auto simp: keeps_def)
next
  case (3 s W b b')
  then show ?case by (rule used_disjoint)
qed

lemma perm_of_map: "mset ys = image_mset f (mset xs) \<Longrightarrow> \<exists>zs. mset zs = mset xs \<and> map f zs = ys"
proof (induction ys arbitrary: xs)
  case (Cons y ys)
  have "y \<in># image_mset f (mset xs)" using Cons.prems by (metis list.set_intros(1) set_mset_mset)
  then obtain x where x: "x \<in> set xs" "y = f x" by auto
  then have xs: "mset xs = add_mset x (mset (remove1 x xs))" by simp
  have "mset ys = image_mset f (mset (remove1 x xs))" using Cons.prems x(2) unfolding xs by simp
  then obtain zs where zs: "mset zs = mset (remove1 x xs)" "map f zs = ys" using Cons.IH by blast
  have "mset (x # zs) = mset xs" by (simp only: mset.simps zs(1) xs [symmetric])
  moreover have "map f (x # zs) = y # ys" using zs(2) x(2) by simp
  ultimately show ?case by (intro exI [of _ "x # zs"] conjI)
qed simp

lemma urange_eq:
  assumes inv: "ufk_inv u W" and w: "w \<in> W"
  shows "urange u w = {unat (uaddr u w) ..< unat (uaddr u w) + usize w}"
proof (cases w)
  case (Big b)
  obtain i k j where b: "b = (i, k, j)" by (cases b)
  note ok = ufk_invD(1) [OF inv, unfolded bd_inv_def]
  have "(i, k, j) \<in> leaves ufk_cfg (page_addr (uf_tab u)) (split_bits (uf_tab u))" using used_leaf(1) [OF inv] w Big b by blast
  from node_addr(1) [OF bd_okD(1) [OF ok] leaf_level(3) [OF ok this]] show ?thesis unfolding Big b by (simp del: baddr.simps)
next
  case (Small b)
  obtain i k j where b: "b = (i, k, j)" by (cases b)
  note ok = ufk_invD(3) [OF inv, unfolded bd_inv_def]
  have "(i, k, j) \<in> leaves bd_cfg (page_addr (uf_bd u)) (split_bits (uf_bd u))" using used_leaf(2) [OF inv] w Small b by blast
  from node_addr(1) [OF bd_okD(1) [OF ok] leaf_level(3) [OF ok this]] show ?thesis unfolding Small b by (simp del: baddr.simps)
qed

subsection \<open>Properties\<close>

text \<open>C14: the memory handed out by the kernel allocator does not overlap. From any consistent state, let a list of
  requests be served by \<^verbatim>\<open>ufkalloc\<close>. Each gets at least the bytes it asked for; the areas share no byte with
  each other nor with any block that was in use before; and \<^verbatim>\<open>ufkfree\<close> takes the addresses back in
  any order, without a fault or a panic, to a state in which exactly the earlier blocks are in use.\<close>

theorem kheap_blocks_disjoint:
  assumes "ufk_inv u W" "\<forall>n\<in>set ns. n \<le> 2 ^ 30" "alloc_all ufkalloc u ns = Ret (ps, u')"
  shows "\<exists>szs. length ps = length ns \<and> length szs = length ns \<and> (\<forall>i<length ns. ns ! i \<le> int (szs ! i)) \<and>
     (\<forall>i<length ns. \<forall>j<length ns. i \<noteq> j \<longrightarrow>
        {unat (ps ! i) ..< unat (ps ! i) + szs ! i} \<inter> {unat (ps ! j) ..< unat (ps ! j) + szs ! j} = {}) \<and>
     (\<forall>i<length ns. \<forall>w\<in>W. {unat (ps ! i) ..< unat (ps ! i) + szs ! i} \<inter> urange u w = {}) \<and>
     (\<forall>order. mset order = mset ps \<longrightarrow> (\<exists>u''. free_all ufkfree u' order = Ret u'' \<and> ufk_inv u'' W))"
proof -
  obtain bs where bs: "distinct bs" "set bs \<inter> W = {}" "ps = map (uaddr u') bs" "list_all2 (\<lambda>n b. n \<le> int (usize b)) ns bs"
    "ufk_inv u' (W \<union> set bs)" "\<forall>w\<in>W. uaddr u' w = uaddr u w \<and> urange u' w = urange u w"
    using kheap.alloc_all_blocks [OF assms] by blast
  have len: "length bs = length ns" using bs(4) by (simp add: list_all2_lengthD)
  have r: "urange u' (bs ! i) = {unat (ps ! i) ..< unat (ps ! i) + map usize bs ! i}" if "i < length ns" for i
    using urange_eq [OF bs(5), of "bs ! i"] that len bs(3) by simp
  have "{unat (ps ! i) ..< unat (ps ! i) + map usize bs ! i} \<inter> {unat (ps ! j) ..< unat (ps ! j) + map usize bs ! j} = {}"
    if "i < length ns" "j < length ns" "i \<noteq> j" for i j
    using kheap.blocks_apart [OF bs(5,1)] that len unfolding r [OF that(1), symmetric] r [OF that(2), symmetric] by simp
  moreover have "{unat (ps ! i) ..< unat (ps ! i) + map usize bs ! i} \<inter> urange u w = {}" if i: "i < length ns" and w: "w \<in> W" for i w
  proof -
    have "bs ! i \<in> set bs" using i len by simp
    then have "urange u' (bs ! i) \<inter> urange u' w = {}" using bs(2) w by (intro used_disjoint [OF bs(5)]) auto
    then show ?thesis using bs(6) w unfolding r [OF i, symmetric] by simp
  qed
  moreover have "\<exists>u''. free_all ufkfree u' order = Ret u'' \<and> ufk_inv u'' W" if o: "mset order = mset ps" for order
  proof -
    obtain zs where zs: "mset zs = mset bs" "map (uaddr u') zs = order" using perm_of_map [of order "uaddr u'" bs] o bs(3) by auto
    have z: "distinct zs" "set zs = set bs" using zs(1) bs(1) by (metis mset_eq_imp_distinct_iff, metis mset_eq_setD)
    show ?thesis using kheap.free_all_blocks [of u' W zs] bs(2,5) z unfolding zs(2) by simp
  qed
  moreover have "ns ! i \<le> int (map usize bs ! i)" if "i < length ns" for i using bs(4) that len by (simp add: list_all2_conv_all_nth)
  moreover have "length ps = length ns" "length (map usize bs) = length ns" using len bs(3) by simp_all
  ultimately show ?thesis by (intro exI [of _ "map usize bs"]) blast
qed

definition zero_tab :: bdtab where
  "zero_tab = \<lparr>bt_links = \<lparr>lk_next = (\<lambda>_. Null), lk_prev = (\<lambda>_. Null)\<rparr>, bt_plist = (\<lambda>_. no_page)\<rparr>"

definition zero_ufk :: ufk where
  "zero_ufk = \<lparr>uf_tab = zero_tab, uf_bd = zero_tab, uf_allocated = 0\<rparr>"

lemma boot_100: "\<exists>u' p u''. ufkinit zero_ufk 0x80030000 = Ret u' \<and> ufk_inv u' {} \<and> ufkalloc u' 100 = Ret (p, u'')"
  by (rule boot_serves) (simp_all add: PHYSTOP_def n_areas_def first_area_def BIG PGSZ_def)

theorem kheap_blocks_disjoint_witness:
  "\<exists>u p u'. ufkinit zero_ufk 0x80030000 = Ret u \<and> alloc_all ufkalloc u [100] = Ret ([p], u') \<and>
     (\<exists>u''. free_all ufkfree u' [p] = Ret u'' \<and> ufk_inv u'' {})"
proof -
  obtain u p u' where u: "ufkinit zero_ufk 0x80030000 = Ret u" "ufk_inv u {}" "ufkalloc u 100 = Ret (p, u')" using boot_100 by blast
  have a: "alloc_all ufkalloc u [100] = Ret ([p], u')" using u(3) by simp
  have "\<forall>n\<in>set [100 :: int]. n \<le> 2 ^ 30" by simp
  from kheap_blocks_disjoint [OF u(2) this a] have "\<exists>u''. free_all ufkfree u' [p] = Ret u'' \<and> ufk_inv u'' {}" by blast
  then show ?thesis using u(1) a by blast
qed





end
