(* ===== verification/Sched.thy ===== *)
theory Sched
  imports Prelude
begin

text \<open>
  Scheduling, sleeping and waking up (kernel/proc/proc.c), with all CPUs in parallel. A step of a CPU is what it does
  between two lock operations, so every call is cut at its acquires and releases; spin locks are the
  mutual exclusion that the lock theory proves. Kernel code outside of these calls is any code that follows
  the rule for sleeping: a channel has a lock and a condition, the condition changes only with the lock held, a
  process sleeps only when it finds the condition false with the lock held, and who makes it true
  calls \<^verbatim>\<open>wakeup\<close> before letting go of the lock.
\<close>

definition NPROC :: nat where "NPROC = 64"

datatype procstate = UNUSED | SLEEPING | RUNNABLE | RUNNING | ZOMBIE

text \<open>Where a process that is switched out goes on: in \<^verbatim>\<open>sleep\<close> on a channel, in \<^verbatim>\<open>yield\<close>, in \<^verbatim>\<open>forkret\<close>, or at the end of
  \<^verbatim>\<open>exit\<close>.\<close>

datatype saved = SvSleep nat | SvYield | SvNew | SvExit

record kproc =
  kp_lock :: "nat option"
  kp_state :: procstate
  kp_chan :: nat
  kp_killed :: bool
  kp_pid :: int
  kp_saved :: saved

text \<open>What a CPU is doing. \<open>InProc l\<close> is code of the process with the lock \<open>l\<close>, if any; \<open>SleepB\<close>, \<open>SleepC\<close>, \<open>Sw\<close>,
  \<open>Resume\<close> and \<open>ReLk\<close> are the stages of \<^verbatim>\<open>sleep\<close>.\<close>

datatype phase =
    Scan nat | Pick nat | Drop nat
  | InProc "nat option"
  | SleepB nat | SleepC nat | Sw saved | Resume saved | ReLk nat
  | YieldB | ExitB
  | Wake nat nat | WakeB nat nat
  | AllocB nat | ReapB nat
  | KillA int nat | KillB int nat

record smach =
  sm_proc :: "nat \<Rightarrow> kproc"
  sm_run :: "nat \<Rightarrow> nat option"
  sm_noff :: "nat \<Rightarrow> nat"
  sm_phase :: "nat \<Rightarrow> phase"
  sm_lk :: "nat \<Rightarrow> nat option"
  sm_cond :: "nat \<Rightarrow> bool"

subsection \<open>Locks\<close>

definition upd_p :: "nat \<Rightarrow> (kproc \<Rightarrow> kproc) \<Rightarrow> smach \<Rightarrow> smach" where
  "upd_p j f m = m\<lparr>sm_proc := (sm_proc m)(j := f (sm_proc m j))\<rparr>"

definition goto :: "nat \<Rightarrow> phase \<Rightarrow> smach \<Rightarrow> smach" where
  "goto c ph m = m\<lparr>sm_phase := (sm_phase m)(c := ph)\<rparr>"

definition acq_p :: "nat \<Rightarrow> nat \<Rightarrow> smach \<Rightarrow> smach" where
  "acq_p c j m = upd_p j (\<lambda>q. q\<lparr>kp_lock := Some c\<rparr>) (m\<lparr>sm_noff := (sm_noff m)(c := sm_noff m c + 1)\<rparr>)"

definition rel_p :: "nat \<Rightarrow> nat \<Rightarrow> smach \<Rightarrow> smach" where
  "rel_p c j m = upd_p j (\<lambda>q. q\<lparr>kp_lock := None\<rparr>) (m\<lparr>sm_noff := (sm_noff m)(c := sm_noff m c - 1)\<rparr>)"

definition acq_l :: "nat \<Rightarrow> nat \<Rightarrow> smach \<Rightarrow> smach" where
  "acq_l c l m = m\<lparr>sm_lk := (sm_lk m)(l := Some c), sm_noff := (sm_noff m)(c := sm_noff m c + 1)\<rparr>"

definition rel_l :: "nat \<Rightarrow> nat \<Rightarrow> smach \<Rightarrow> smach" where
  "rel_l c l m = m\<lparr>sm_lk := (sm_lk m)(l := None), sm_noff := (sm_noff m)(c := sm_noff m c - 1)\<rparr>"

subsection \<open>The scheduler\<close>

text \<open>With the lock of process \<open>i\<close>: run it if it is runnable.\<close>

definition scheduler_pick :: "nat \<Rightarrow> nat \<Rightarrow> smach \<Rightarrow> smach" where
  "scheduler_pick c i m =
     (if kp_state (sm_proc m i) = RUNNABLE
      then goto c (Resume (kp_saved (sm_proc m i))) ((upd_p i (\<lambda>q. q\<lparr>kp_state := RUNNING\<rparr>) m)\<lparr>sm_run := (sm_run m)(c := Some i)\<rparr>)
      else goto c (Drop i) m)"

text \<open>\<^verbatim>\<open>sched\<close>: the checks, and the switch to the scheduler of the CPU. A CPU that holds a lock has its interrupts off,
  so the fourth check cannot fail where the second passes.\<close>

definition sched :: "nat \<Rightarrow> saved \<Rightarrow> smach \<Rightarrow> smach kres" where
  "sched c sv m =
     (case sm_run m c of
        None \<Rightarrow> Fault
      | Some p \<Rightarrow>
          if kp_lock (sm_proc m p) \<noteq> Some c then Panic ''sched p->lock''
          else if sm_noff m c \<noteq> 1 then Panic ''sched locks''
          else if kp_state (sm_proc m p) = RUNNING then Panic ''sched running''
          else Ret (goto c (Drop p) ((upd_p p (\<lambda>q. q\<lparr>kp_saved := sv\<rparr>) m)\<lparr>sm_run := (sm_run m)(c := None)\<rparr>)))"

subsection \<open>Sleeping and waking up\<close>

definition sleep_park :: "nat \<Rightarrow> nat \<Rightarrow> smach \<Rightarrow> smach" where
  "sleep_park p ch m = upd_p p (\<lambda>q. q\<lparr>kp_chan := ch, kp_state := SLEEPING\<rparr>) m"

definition sleep_tidy :: "nat \<Rightarrow> nat \<Rightarrow> smach \<Rightarrow> smach" where
  "sleep_tidy c p m = rel_p c p (upd_p p (\<lambda>q. q\<lparr>kp_chan := 0\<rparr>) m)"

definition wakeup_check :: "nat \<Rightarrow> nat \<Rightarrow> smach \<Rightarrow> smach" where
  "wakeup_check ch j m =
     (if kp_state (sm_proc m j) = SLEEPING \<and> kp_chan (sm_proc m j) = ch
      then upd_p j (\<lambda>q. q\<lparr>kp_state := RUNNABLE\<rparr>) m else m)"

definition yield_ready :: "nat \<Rightarrow> smach \<Rightarrow> smach" where
  "yield_ready p m = upd_p p (\<lambda>q. q\<lparr>kp_state := RUNNABLE\<rparr>) m"

text \<open>The test of \<^verbatim>\<open>kill\<close> on one process, and what it does to the victim.\<close>

definition kill_check :: "int \<Rightarrow> nat \<Rightarrow> smach \<Rightarrow> bool \<times> smach" where
  "kill_check pid j m =
     (if kp_pid (sm_proc m j) = pid then
        (True, upd_p j (\<lambda>q. q\<lparr>kp_killed := True, kp_state := (if kp_state q = SLEEPING then RUNNABLE else kp_state q)\<rparr>) m)
      else (False, m))"

text \<open>The end of \<^verbatim>\<open>exit\<close>; what \<^verbatim>\<open>allocproc\<close> and \<^verbatim>\<open>fork\<close> do to the slot they look at; what \<^verbatim>\<open>wait\<close> does to it.\<close>

definition exit_zombie :: "nat \<Rightarrow> smach \<Rightarrow> smach" where
  "exit_zombie p m = upd_p p (\<lambda>q. q\<lparr>kp_state := ZOMBIE\<rparr>) m"

definition alloc_slot :: "int \<Rightarrow> nat \<Rightarrow> smach \<Rightarrow> smach" where
  "alloc_slot pid j m =
     (if kp_state (sm_proc m j) = UNUSED
      then upd_p j (\<lambda>q. q\<lparr>kp_state := RUNNABLE, kp_saved := SvNew, kp_pid := pid\<rparr>) m else m)"

definition reap_slot :: "nat \<Rightarrow> smach \<Rightarrow> smach" where
  "reap_slot j m =
     (if kp_state (sm_proc m j) = ZOMBIE
      then upd_p j (\<lambda>q. q\<lparr>kp_state := UNUSED, kp_chan := 0, kp_killed := False, kp_pid := 0\<rparr>) m else m)"

definition set_cond :: "nat \<Rightarrow> bool \<Rightarrow> smach \<Rightarrow> smach" where
  "set_cond ch b m = m\<lparr>sm_cond := (sm_cond m)(ch := b)\<rparr>"

lemmas sched_ops = upd_p_def goto_def acq_p_def rel_p_def acq_l_def rel_l_def sleep_park_def sleep_tidy_def
  yield_ready_def set_cond_def exit_zombie_def

subsection \<open>All CPUs in parallel\<close>

inductive sstep :: "(nat \<Rightarrow> nat) \<Rightarrow> smach \<Rightarrow> smach \<Rightarrow> bool" for lkof :: "nat \<Rightarrow> nat" where
  scan: "sm_phase m c = Scan i \<Longrightarrow> i < NPROC \<Longrightarrow> kp_lock (sm_proc m i) = None \<Longrightarrow> sstep lkof m (goto c (Pick i) (acq_p c i m))"
| pick: "sm_phase m c = Pick i \<Longrightarrow> sstep lkof m (scheduler_pick c i m)"
| drop: "sm_phase m c = Drop i \<Longrightarrow> sstep lkof m (goto c (Scan (Suc i mod NPROC)) (rel_p c i m))"
| resume_sleep: "sm_phase m c = Resume (SvSleep ch) \<Longrightarrow> sm_run m c = Some p \<Longrightarrow> sstep lkof m (goto c (ReLk ch) (sleep_tidy c p m))"
| resume_yield: "sm_phase m c = Resume sv \<Longrightarrow> sv \<in> {SvYield, SvNew} \<Longrightarrow> sm_run m c = Some p \<Longrightarrow> sstep lkof m (goto c (InProc None) (rel_p c p m))"
| relk: "sm_phase m c = ReLk ch \<Longrightarrow> sm_lk m (lkof ch) = None \<Longrightarrow> sstep lkof m (goto c (InProc (Some (lkof ch))) (acq_l c (lkof ch) m))"
| lock: "sm_phase m c = InProc None \<Longrightarrow> sm_lk m l = None \<Longrightarrow> sstep lkof m (goto c (InProc (Some l)) (acq_l c l m))"
| unlock: "sm_phase m c = InProc (Some l) \<Longrightarrow> sstep lkof m (goto c (InProc None) (rel_l c l m))"
| unset: "sm_phase m c = InProc (Some (lkof ch)) \<Longrightarrow> sstep lkof m (set_cond ch False m)"
| wakeup: "sm_phase m c = InProc (Some (lkof ch)) \<Longrightarrow> sstep lkof m (goto c (Wake ch 0) (set_cond ch True m))"
| wake_lock: "sm_phase m c = Wake ch j \<Longrightarrow> j < NPROC \<Longrightarrow> kp_lock (sm_proc m j) = None \<Longrightarrow> sstep lkof m (goto c (WakeB ch j) (acq_p c j m))"
| wake_check: "sm_phase m c = WakeB ch j \<Longrightarrow> sstep lkof m (goto c (Wake ch (Suc j)) (rel_p c j (wakeup_check ch j m)))"
| wake_done: "sm_phase m c = Wake ch j \<Longrightarrow> j \<ge> NPROC \<Longrightarrow> sstep lkof m (goto c (InProc (Some (lkof ch))) m)"
| sleep_lock: "sm_phase m c = InProc (Some (lkof ch)) \<Longrightarrow> \<not> sm_cond m ch \<Longrightarrow> sm_run m c = Some p \<Longrightarrow> kp_lock (sm_proc m p) = None \<Longrightarrow>
    sstep lkof m (goto c (SleepB ch) (acq_p c p m))"
| sleep_unlock: "sm_phase m c = SleepB ch \<Longrightarrow> sstep lkof m (goto c (SleepC ch) (rel_l c (lkof ch) m))"
| sleep: "sm_phase m c = SleepC ch \<Longrightarrow> sm_run m c = Some p \<Longrightarrow> sstep lkof m (goto c (Sw (SvSleep ch)) (sleep_park p ch m))"
| sw: "sm_phase m c = Sw sv \<Longrightarrow> sched c sv m = Ret m' \<Longrightarrow> sstep lkof m m'"
| yield_lock: "sm_phase m c = InProc None \<Longrightarrow> sm_run m c = Some p \<Longrightarrow> kp_lock (sm_proc m p) = None \<Longrightarrow> sstep lkof m (goto c YieldB (acq_p c p m))"
| yield: "sm_phase m c = YieldB \<Longrightarrow> sm_run m c = Some p \<Longrightarrow> sstep lkof m (goto c (Sw SvYield) (yield_ready p m))"
| exit_lock: "sm_phase m c = InProc None \<Longrightarrow> sm_run m c = Some p \<Longrightarrow> kp_lock (sm_proc m p) = None \<Longrightarrow> sstep lkof m (goto c ExitB (acq_p c p m))"
| exit: "sm_phase m c = ExitB \<Longrightarrow> sm_run m c = Some p \<Longrightarrow> sstep lkof m (goto c (Sw SvExit) (exit_zombie p m))"
| alloc_lock: "sm_phase m c = InProc None \<Longrightarrow> j < NPROC \<Longrightarrow> kp_lock (sm_proc m j) = None \<Longrightarrow> sstep lkof m (goto c (AllocB j) (acq_p c j m))"
| alloc: "sm_phase m c = AllocB j \<Longrightarrow> sstep lkof m (goto c (InProc None) (rel_p c j (alloc_slot pid j m)))"
| reap_lock: "sm_phase m c = InProc None \<Longrightarrow> j < NPROC \<Longrightarrow> kp_lock (sm_proc m j) = None \<Longrightarrow> sstep lkof m (goto c (ReapB j) (acq_p c j m))"
| reap: "sm_phase m c = ReapB j \<Longrightarrow> sstep lkof m (goto c (InProc None) (rel_p c j (reap_slot j m)))"
| interrupt: "sm_phase m c = Scan i \<Longrightarrow> sstep lkof m (goto c (InProc None) m)"
| interrupt_return: "sm_phase m c = InProc None \<Longrightarrow> sm_run m c = None \<Longrightarrow> i < NPROC \<Longrightarrow> sstep lkof m (goto c (Scan i) m)"
| kill: "sm_phase m c = InProc None \<Longrightarrow> sstep lkof m (goto c (KillA pid 0) m)"
| kill_lock: "sm_phase m c = KillA pid j \<Longrightarrow> j < NPROC \<Longrightarrow> kp_lock (sm_proc m j) = None \<Longrightarrow> sstep lkof m (goto c (KillB pid j) (acq_p c j m))"
| kill_check: "sm_phase m c = KillB pid j \<Longrightarrow> kill_check pid j m = (found, m1) \<Longrightarrow>
    sstep lkof m (goto c (if found then InProc None else KillA pid (Suc j)) (rel_p c j m1))"
| kill_done: "sm_phase m c = KillA pid j \<Longrightarrow> j \<ge> NPROC \<Longrightarrow> sstep lkof m (goto c (InProc None) m)"

definition sstart :: "smach \<Rightarrow> bool" where
  "sstart m \<longleftrightarrow>
     (\<forall>j. kp_lock (sm_proc m j) = None \<and> kp_state (sm_proc m j) \<in> (if j < NPROC then {UNUSED, RUNNABLE} else {UNUSED})) \<and>
     (\<forall>j. kp_state (sm_proc m j) = RUNNABLE \<longrightarrow> kp_saved (sm_proc m j) = SvNew) \<and>
     (\<forall>c. sm_run m c = None \<and> sm_noff m c = 0 \<and> sm_phase m c = Scan 0) \<and> (\<forall>l. sm_lk m l = None)"

subsection \<open>The invariant\<close>

text \<open>Which process locks and which other lock a CPU holds, and how many, as functions of where it is.\<close>

fun holds_p :: "phase \<Rightarrow> nat option \<Rightarrow> nat \<Rightarrow> bool" where
  "holds_p (Pick i) r j = (j = i)"
| "holds_p (Drop i) r j = (j = i)"
| "holds_p (SleepB ch) r j = (r = Some j)"
| "holds_p (SleepC ch) r j = (r = Some j)"
| "holds_p (Sw sv) r j = (r = Some j)"
| "holds_p (Resume sv) r j = (r = Some j)"
| "holds_p YieldB r j = (r = Some j)"
| "holds_p ExitB r j = (r = Some j)"
| "holds_p (WakeB ch i) r j = (j = i)"
| "holds_p (AllocB i) r j = (j = i)"
| "holds_p (ReapB i) r j = (j = i)"
| "holds_p (KillB pid i) r j = (j = i)"
| "holds_p _ r j = False"

fun holds_l :: "(nat \<Rightarrow> nat) \<Rightarrow> phase \<Rightarrow> nat \<Rightarrow> bool" where
  "holds_l lkof (InProc (Some k)) l = (l = k)"
| "holds_l lkof (SleepB ch) l = (l = lkof ch)"
| "holds_l lkof (Wake ch j) l = (l = lkof ch)"
| "holds_l lkof (WakeB ch j) l = (l = lkof ch)"
| "holds_l lkof _ l = False"

fun nheld :: "phase \<Rightarrow> nat" where
  "nheld (SleepB ch) = 2"
| "nheld (WakeB ch j) = 2"
| "nheld (InProc (Some l)) = 1"
| "nheld (InProc None) = 0"
| "nheld (Scan i) = 0"
| "nheld (ReLk ch) = 0"
| "nheld (KillA pid j) = 0"
| "nheld _ = 1"

text \<open>Phases in which the CPU runs a process, and in which it runs none.\<close>

fun in_proc :: "phase \<Rightarrow> bool" where
  "in_proc (Scan i) = False"
| "in_proc (Pick i) = False"
| "in_proc (Drop i) = False"
| "in_proc _ = True"

fun needs_proc :: "phase \<Rightarrow> bool" where
  "needs_proc (SleepB ch) = True"
| "needs_proc (SleepC ch) = True"
| "needs_proc (Sw sv) = True"
| "needs_proc (Resume sv) = True"
| "needs_proc (ReLk ch) = True"
| "needs_proc YieldB = True"
| "needs_proc ExitB = True"
| "needs_proc _ = False"

fun switching :: "phase \<Rightarrow> bool" where
  "switching (Sw sv) = True"
| "switching _ = False"

definition plock_ok :: "smach \<Rightarrow> bool" where
  "plock_ok m \<longleftrightarrow> (\<forall>j c. kp_lock (sm_proc m j) = Some c \<longleftrightarrow> holds_p (sm_phase m c) (sm_run m c) j)"

definition llock_ok :: "(nat \<Rightarrow> nat) \<Rightarrow> smach \<Rightarrow> bool" where
  "llock_ok lkof m \<longleftrightarrow> (\<forall>l c. sm_lk m l = Some c \<longleftrightarrow> holds_l lkof (sm_phase m c) l)"

definition noff_ok :: "smach \<Rightarrow> bool" where
  "noff_ok m \<longleftrightarrow> (\<forall>c. sm_noff m c = nheld (sm_phase m c))"

definition slots_ok :: "smach \<Rightarrow> bool" where
  "slots_ok m \<longleftrightarrow> (\<forall>j \<ge> NPROC. kp_lock (sm_proc m j) = None \<and> kp_state (sm_proc m j) = UNUSED)"

definition cpu_ok :: "smach \<Rightarrow> bool" where
  "cpu_ok m \<longleftrightarrow> (\<forall>c. (needs_proc (sm_phase m c) \<longrightarrow> sm_run m c \<noteq> None) \<and>
     (\<forall>p. sm_run m c = Some p \<longrightarrow> in_proc (sm_phase m c) \<and> (kp_state (sm_proc m p) = RUNNING \<longleftrightarrow> \<not> switching (sm_phase m c))))"

definition run_inj :: "smach \<Rightarrow> bool" where
  "run_inj m \<longleftrightarrow> (\<forall>c d p. sm_run m c = Some p \<longrightarrow> sm_run m d = Some p \<longrightarrow> c = d)"

text \<open>A process that has decided to sleep on \<open>ch\<close>, and a CPU inside \<^verbatim>\<open>wakeup(ch)\<close> that has not yet looked at slot \<open>p\<close>.\<close>

definition pends :: "smach \<Rightarrow> nat \<Rightarrow> nat \<Rightarrow> bool" where
  "pends m ch p \<longleftrightarrow> kp_state (sm_proc m p) = SLEEPING \<and> kp_chan (sm_proc m p) = ch \<or>
     (\<exists>c. sm_phase m c = SleepC ch \<and> sm_run m c = Some p)"

definition waking :: "smach \<Rightarrow> nat \<Rightarrow> nat \<Rightarrow> bool" where
  "waking m ch p \<longleftrightarrow> (\<exists>c j. j \<le> p \<and> (sm_phase m c = Wake ch j \<or> sm_phase m c = WakeB ch j))"

definition sleep_ok :: "smach \<Rightarrow> bool" where
  "sleep_ok m \<longleftrightarrow> (\<forall>c ch. sm_phase m c = SleepB ch \<longrightarrow> \<not> sm_cond m ch) \<and>
     (\<forall>ch p. pends m ch p \<longrightarrow> sm_cond m ch \<longrightarrow> waking m ch p)"

lemmas step_defs = sched_ops scheduler_pick_def wakeup_check_def kill_check_def alloc_slot_def reap_slot_def

lemma llock_step: "sstep lkof m t \<Longrightarrow> llock_ok lkof m \<Longrightarrow> llock_ok lkof t"
  by (erule sstep.cases)
     (auto simp: llock_ok_def step_defs sched_def split: if_splits option.splits,
      (metis holds_l.simps option.distinct(1) option.inject)+)

lemma noff_step: "sstep lkof m t \<Longrightarrow> noff_ok m \<Longrightarrow> noff_ok t"
  by (erule sstep.cases)
     (auto simp: noff_ok_def step_defs sched_def split: if_splits option.splits)

lemma plock_D: "plock_ok m \<Longrightarrow> holds_p (sm_phase m c) (sm_run m c) j \<Longrightarrow> kp_lock (sm_proc m j) = Some c"
  by (simp add: plock_ok_def)

lemma run_state:
  "cpu_ok m \<Longrightarrow> sm_run m c = Some p \<Longrightarrow> kp_state (sm_proc m p) = RUNNING \<longleftrightarrow> \<not> switching (sm_phase m c)"
  by (simp add: cpu_ok_def)

lemma switching_lock:
  "plock_ok m \<Longrightarrow> switching (sm_phase m c) \<Longrightarrow> sm_run m c = Some p \<Longrightarrow> kp_lock (sm_proc m p) = Some c"
  by (cases "sm_phase m c") (auto simp: plock_ok_def)

text \<open>Who does not hold the lock of a process that a CPU runs sees it running.\<close>

lemma seen_running:
  assumes "plock_ok m" "cpu_ok m" "sm_run m d = Some j" "kp_lock (sm_proc m j) \<noteq> Some d"
  shows "kp_state (sm_proc m j) = RUNNING" "\<not> switching (sm_phase m d)"
  using assms run_state [of m d j] switching_lock [of m d j] by auto

lemma slot_lt:
  assumes "slots_ok m" "kp_lock (sm_proc m j) \<noteq> None \<or> kp_state (sm_proc m j) \<noteq> UNUSED"
  shows "j < NPROC"
  using assms by (meson linorder_not_le slots_ok_def)

lemma run_lt: "plock_ok m \<Longrightarrow> slots_ok m \<Longrightarrow> cpu_ok m \<Longrightarrow> sm_run m c = Some p \<Longrightarrow> p < NPROC"
  using seen_running(1) [of m c p] slot_lt [of m p] by force

lemma held_lt: "plock_ok m \<Longrightarrow> slots_ok m \<Longrightarrow> holds_p (sm_phase m c) (sm_run m c) j \<Longrightarrow> j < NPROC"
  using plock_D [of m c j] slot_lt [of m j] by force

lemma slots_step:
  assumes "sstep lkof m t" "plock_ok m" "cpu_ok m" "slots_ok m"
  shows "slots_ok t"
  using assms(1)
proof cases
  case (alloc c j pid)
  with held_lt [OF assms(2,4), of c j] assms(4) show ?thesis
    by (auto simp: slots_ok_def step_defs)
qed (use assms in \<open>auto simp: slots_ok_def step_defs sched_def split: if_splits option.splits
      dest: run_lt [unfolded slots_ok_def] held_lt [unfolded slots_ok_def]\<close>)

lemma plock_step: "sstep lkof m t \<Longrightarrow> plock_ok m \<Longrightarrow> cpu_ok m \<Longrightarrow> plock_ok t"
  by (erule sstep.cases)
     (auto simp: plock_ok_def step_defs sched_def split: if_splits option.splits,
      (metis holds_p.simps option.distinct(1) option.inject)+)

lemma inj_step:
  assumes "sstep lkof m t" "plock_ok m" "cpu_ok m" "run_inj m"
  shows "run_inj t"
  using assms(1)
proof cases
  case (pick c i)
  have "sm_run m d \<noteq> Some i" if "kp_state (sm_proc m i) = RUNNABLE" "d \<noteq> c" for d
    using seen_running(1) [OF assms(2,3), of d i] plock_D [OF assms(2), of c i] pick that by auto
  then show ?thesis
    using assms(4) by (auto simp: run_inj_def step_defs pick)
qed (use assms(4) in \<open>auto simp: run_inj_def step_defs sched_def split: if_splits option.splits\<close>)

lemma idle_cpu: "cpu_ok m \<Longrightarrow> \<not> in_proc (sm_phase m c) \<Longrightarrow> sm_run m c = None"
  by (cases "sm_run m c") (auto simp: cpu_ok_def)

text \<open>A step of CPU \<open>c\<close> that changes the state of process \<open>k\<close> at most.\<close>

lemma cpu_okI:
  assumes "cpu_ok m" "plock_ok m"
    and other: "\<And>d. d \<noteq> c \<Longrightarrow> sm_phase t d = sm_phase m d \<and> sm_run t d = sm_run m d"
    and frame: "\<And>j. kp_state (sm_proc t j) = kp_state (sm_proc m j) \<or> j = k \<and> kp_lock (sm_proc m k) = Some c \<and>
      (kp_state (sm_proc m k) \<noteq> RUNNING \<or> sm_run m c = Some k)"
    and own: "needs_proc (sm_phase t c) \<Longrightarrow> sm_run t c \<noteq> None"
      "\<And>p. sm_run t c = Some p \<Longrightarrow> in_proc (sm_phase t c) \<and> (kp_state (sm_proc t p) = RUNNING \<longleftrightarrow> \<not> switching (sm_phase t c))"
    and "run_inj m"
  shows "cpu_ok t"
proof -
  have "kp_state (sm_proc t p) = kp_state (sm_proc m p)" if "d \<noteq> c" "sm_run m d = Some p" for d p
  proof (rule ccontr)
    assume "kp_state (sm_proc t p) \<noteq> kp_state (sm_proc m p)"
    with frame [of p] have p: "kp_lock (sm_proc m p) = Some c" "kp_state (sm_proc m p) \<noteq> RUNNING \<or> sm_run m c = Some p"
      by auto
    with seen_running(1) [OF assms(2,1) that(2)] that have "sm_run m c = Some p"
      by auto
    with that \<open>run_inj m\<close> show False
      by (auto simp: run_inj_def)
  qed
  then have "\<forall>p. sm_run t d = Some p \<longrightarrow> in_proc (sm_phase t d) \<and> (kp_state (sm_proc t p) = RUNNING \<longleftrightarrow> \<not> switching (sm_phase t d))"
    "needs_proc (sm_phase t d) \<longrightarrow> sm_run t d \<noteq> None" for d
    using assms(1) other [of d] own by (cases "d = c"; simp add: cpu_ok_def)+
  then show ?thesis
    unfolding cpu_ok_def by blast
qed

lemma busy_cpu: "cpu_ok m \<Longrightarrow> needs_proc (sm_phase m c) \<Longrightarrow> \<exists>p. sm_run m c = Some p"
  by (cases "sm_run m c") (auto simp: cpu_ok_def)

lemma cpu_same:
  assumes "cpu_ok m" and "\<And>j. kp_state (sm_proc t j) = kp_state (sm_proc m j)" "sm_run t = sm_run m"
    and "\<And>d. sm_phase t d = sm_phase m d \<or> (needs_proc (sm_phase t d) \<longrightarrow> sm_run m d \<noteq> None) \<and>
      (sm_run m d \<noteq> None \<longrightarrow> in_proc (sm_phase t d)) \<and> switching (sm_phase t d) = switching (sm_phase m d)"
  shows "cpu_ok t"
proof -
  have "\<forall>p. sm_run t d = Some p \<longrightarrow> in_proc (sm_phase t d) \<and> (kp_state (sm_proc t p) = RUNNING \<longleftrightarrow> \<not> switching (sm_phase t d))"
    "needs_proc (sm_phase t d) \<longrightarrow> sm_run t d \<noteq> None" for d
    using assms(1) assms(4) [of d] by (auto simp: cpu_ok_def assms(2,3))
  then show ?thesis
    unfolding cpu_ok_def by blast
qed

lemma cpu_step: 
  assumes "sstep lkof m t" "plock_ok m" "cpu_ok m" "run_inj m"
  shows "cpu_ok t"
  using assms(1)
proof cases
  case (pick c i)
  with plock_D [OF assms(2), of c i] idle_cpu [OF assms(3), of c] show ?thesis
    by (intro cpu_okI [where m = m and c = c and k = i, OF assms(3,2) _ _ _ _ assms(4)])
       (auto simp: step_defs split: if_splits)
next
  case (sleep c ch p)
  with plock_D [OF assms(2), of c p] show ?thesis
    by (intro cpu_okI [where m = m and c = c and k = p, OF assms(3,2) _ _ _ _ assms(4)]) (auto simp: step_defs)
next
  case (yield c p)
  with plock_D [OF assms(2), of c p] show ?thesis
    by (intro cpu_okI [where m = m and c = c and k = p, OF assms(3,2) _ _ _ _ assms(4)]) (auto simp: step_defs)
next
  case (exit c p)
  with plock_D [OF assms(2), of c p] show ?thesis
    by (intro cpu_okI [where m = m and c = c and k = p, OF assms(3,2) _ _ _ _ assms(4)]) (auto simp: step_defs)
next
  case (wake_check c ch j)
  with plock_D [OF assms(2), of c j] run_state [OF assms(3), of c] show ?thesis
    by (intro cpu_okI [where m = m and c = c and k = j, OF assms(3,2) _ _ _ _ assms(4)]) (auto simp: step_defs split: if_splits)
next
  case (alloc c j pid)
  with plock_D [OF assms(2), of c j] run_state [OF assms(3), of c] show ?thesis
    by (intro cpu_okI [where m = m and c = c and k = j, OF assms(3,2) _ _ _ _ assms(4)]) (auto simp: step_defs split: if_splits)
next
  case (reap c j)
  with plock_D [OF assms(2), of c j] run_state [OF assms(3), of c] show ?thesis
    by (intro cpu_okI [where m = m and c = c and k = j, OF assms(3,2) _ _ _ _ assms(4)]) (auto simp: step_defs split: if_splits)
next
  case (kill_check c pid j found m1)
  with plock_D [OF assms(2), of c j] run_state [OF assms(3), of c] show ?thesis
    by (intro cpu_okI [where m = m and c = c and k = j, OF assms(3,2) _ _ _ _ assms(4)]) (auto simp: step_defs split: if_splits)
next
  case (sw c sv)
  with assms(3,4) show ?thesis
    by (auto simp: cpu_ok_def run_inj_def goto_def upd_p_def sched_def split: if_splits option.splits)
next
  case (sleep_unlock c ch)
  with busy_cpu [OF assms(3), of c] show ?thesis
    by (intro cpu_same [OF assms(3)]) (auto simp: step_defs)
qed ((rule cpu_same [OF assms(3)]; simp add: step_defs idle_cpu [OF assms(3)])+)

lemma llock_D: "llock_ok lkof m \<Longrightarrow> holds_l lkof (sm_phase m c) l \<Longrightarrow> sm_lk m l = Some c"
  by (simp add: llock_ok_def)

lemma one_holder: "llock_ok lkof m \<Longrightarrow> holds_l lkof (sm_phase m c) l \<Longrightarrow> holds_l lkof (sm_phase m d) l \<Longrightarrow> c = d"
  by (metis llock_D option.inject)

lemma sleepB_step:
  assumes "sstep lkof m t" "llock_ok lkof m" "\<forall>c ch. sm_phase m c = SleepB ch \<longrightarrow> \<not> sm_cond m ch"
  shows "\<forall>c ch. sm_phase t c = SleepB ch \<longrightarrow> \<not> sm_cond t ch"
  using assms(1)
proof cases
  case (wakeup c ch)
  have "sm_phase m d \<noteq> SleepB ch" if "d \<noteq> c" for d
    using one_holder [OF assms(2), of c "lkof ch" d] wakeup that by auto
  with assms(3) wakeup show ?thesis
    by (auto simp: step_defs)
qed (use assms(3) in \<open>auto simp: step_defs sched_def split: if_splits option.splits\<close>)

lemma pends_lt: "plock_ok m \<Longrightarrow> slots_ok m \<Longrightarrow> cpu_ok m \<Longrightarrow> pends m ch p \<Longrightarrow> p < NPROC"
  using slot_lt [of m p] by (auto simp: pends_def dest: run_lt)

lemma wakingI: "j \<le> p \<Longrightarrow> sm_phase t d = Wake ch j \<or> sm_phase t d = WakeB ch j \<Longrightarrow> waking t ch p"
  unfolding waking_def by blast

text \<open>A process decides to sleep only where the condition is false; a condition becomes true only at the start of
  a wakeup.\<close>

lemma pends_step:
  assumes "sstep lkof m t" "cpu_ok m" "\<forall>c ch. sm_phase m c = SleepB ch \<longrightarrow> \<not> sm_cond m ch"
    and P: "pends t ch p" "sm_cond t ch"
  shows "pends m ch p \<and> sm_cond m ch \<or> waking t ch p"
  using assms(1)
proof cases
  case (resume_sleep c ch' q)
  with run_state [OF assms(2), of c q] P show ?thesis
    by (auto simp: pends_def step_defs split: if_splits)
next
  case (wakeup c ch')
  have "waking t ch p" if "ch = ch'"
    using that by (intro wakingI [of 0 p t c]) (simp_all add: wakeup step_defs)
  with wakeup P show ?thesis
    by (auto simp: pends_def step_defs split: if_splits)
qed (use assms(3) P in \<open>auto simp: pends_def step_defs sched_def split: if_splits option.splits\<close>)

text \<open>A wakeup does not pass a slot whose process stays asleep on its channel.\<close>

lemma waking_step:
  assumes "sstep lkof m t" "plock_ok m" "waking m ch p" "pends t ch p" "p < NPROC"
  shows "waking t ch p"
proof -
  obtain d i where d: "i \<le> p" "sm_phase m d = Wake ch i \<or> sm_phase m d = WakeB ch i"
    using assms(3) unfolding waking_def by blast
  show ?thesis
    using assms(1)
  proof cases
    case (wake_check c ch' j)
    have lk: "kp_lock (sm_proc m j) = Some c"
      using plock_D [OF assms(2), of c j] wake_check by simp
    have no_sleeper: "\<not> (sm_phase m e = SleepC ch \<and> sm_run m e = Some j)" for e
      using plock_D [OF assms(2), of e j] lk wake_check by auto
    have "ch' \<noteq> ch \<or> p \<noteq> j"
      using assms(4) lk no_sleeper wake_check by (auto simp: pends_def step_defs split: if_splits)
    with wake_check d show ?thesis
      by (intro wakingI [of "if d = c then Suc i else i" p t d]) (auto simp: step_defs)
  qed ((rule wakingI [OF d(1), of t d]; use d assms(5) in \<open>auto simp: step_defs sched_def split: if_splits option.splits\<close>)+)
qed

lemma sleep_step:
  assumes "sstep lkof m t" and I: "plock_ok m" "llock_ok lkof m" "slots_ok m" "cpu_ok m" "sleep_ok m"
    and J: "plock_ok t" "slots_ok t" "cpu_ok t"
  shows "sleep_ok t"
proof -
  have B: "\<forall>c ch. sm_phase m c = SleepB ch \<longrightarrow> \<not> sm_cond m ch"
    using I(5) unfolding sleep_ok_def by blast
  have "waking t ch p" if P: "pends t ch p" "sm_cond t ch" for ch p
    using pends_step [OF assms(1) I(4) B P] waking_step [OF assms(1) I(1) _ P(1) pends_lt [OF J P(1)]] I(5)
    unfolding sleep_ok_def by blast
  with sleepB_step [OF assms(1) I(2) B] show ?thesis
    unfolding sleep_ok_def by blast
qed

text \<open>A process that has exited is never run again.\<close>

definition exit_ok :: "smach \<Rightarrow> bool" where
  "exit_ok m \<longleftrightarrow> (\<forall>p. kp_saved (sm_proc m p) = SvExit \<longrightarrow> kp_state (sm_proc m p) \<in> {ZOMBIE, UNUSED}) \<and>
     (\<forall>c p. sm_phase m c = Sw SvExit \<longrightarrow> sm_run m c = Some p \<longrightarrow> kp_state (sm_proc m p) = ZOMBIE) \<and>
     (\<forall>c. sm_phase m c \<noteq> Resume SvExit)"

lemma exit_step:
  assumes "sstep lkof m t" "plock_ok m" "cpu_ok m" "run_inj m" "exit_ok m"
  shows "exit_ok t"
  using assms(1)
proof cases
  case (reap c j)
  have "\<not> (sm_phase m e = Sw SvExit \<and> sm_run m e = Some j)" for e
    using plock_D [OF assms(2), of e j] plock_D [OF assms(2), of c j] reap by auto
  with reap assms(5) show ?thesis
    by (auto simp: exit_ok_def step_defs)
next
  case (sleep c ch p)
  with run_state [OF assms(3), of c p] assms(4,5) show ?thesis
    by (auto simp: exit_ok_def run_inj_def step_defs)
next
  case (yield c p)
  with run_state [OF assms(3), of c p] assms(4,5) show ?thesis
    by (auto simp: exit_ok_def run_inj_def step_defs)
qed (use assms(4,5) in \<open>auto simp: exit_ok_def run_inj_def step_defs sched_def split: if_splits option.splits\<close>)

definition sched_inv :: "(nat \<Rightarrow> nat) \<Rightarrow> smach \<Rightarrow> bool" where
  "sched_inv lkof m \<longleftrightarrow> plock_ok m \<and> llock_ok lkof m \<and> noff_ok m \<and> slots_ok m \<and> cpu_ok m \<and> run_inj m \<and> sleep_ok m \<and> exit_ok m"

lemma sched_inv_start: "sstart m \<Longrightarrow> sched_inv lkof m"
  unfolding sched_inv_def
proof (intro conjI)
  assume m: "sstart m"
  then show "slots_ok m"
    by (metis insert_absorb insert_iff insert_not_empty linorder_not_le singletonD slots_ok_def sstart_def)
  have "kp_state (sm_proc m p) \<noteq> SLEEPING" for p
    using m unfolding sstart_def by (metis empty_iff insert_iff procstate.distinct)
  with m show "sleep_ok m"
    by (simp add: sleep_ok_def pends_def sstart_def)
  have "kp_state (sm_proc m p) \<in> {UNUSED, RUNNABLE}" for p
    using m unfolding sstart_def by (metis insert_iff)
  with m show "exit_ok m"
    unfolding exit_ok_def sstart_def by (metis insert_iff phase.distinct saved.distinct singletonD)
qed (simp_all add: sstart_def plock_ok_def llock_ok_def noff_ok_def cpu_ok_def run_inj_def)

lemma sched_inv_step: "sstep lkof m t \<Longrightarrow> sched_inv lkof m \<Longrightarrow> sched_inv lkof t"
  unfolding sched_inv_def
  by (blast intro: plock_step llock_step noff_step slots_step cpu_step inj_step sleep_step exit_step)

interpretation sch: invariant sstart "sstep lkof" "sched_inv lkof" for lkof
  by unfold_locales (rule sched_inv_start sched_inv_step; assumption)+

lemma sched_returns:
  assumes "sched_inv lkof m" "sm_phase m c = Sw sv"
  shows "\<exists>m'. sched c sv m = Ret m'"
proof -
  from assms busy_cpu [of m c] obtain p where p: "sm_run m c = Some p"
    by (auto simp: sched_inv_def)
  with assms plock_D [of m c p] run_state [of m c p] show ?thesis
    by (auto simp: sched_def sched_inv_def noff_ok_def)
qed

subsection \<open>Properties\<close>

text \<open>A run of the machine: process 0 is scheduled on CPU 0, takes lock 5 and goes to sleep on channel 5.\<close>

definition demo_start :: smach where
  "demo_start = \<lparr>sm_proc = (\<lambda>j. \<lparr>kp_lock = None, kp_state = (if j = 0 then RUNNABLE else UNUSED), kp_chan = 0,
      kp_killed = False, kp_pid = 1, kp_saved = SvNew\<rparr>),
     sm_run = (\<lambda>c. None), sm_noff = (\<lambda>c. 0), sm_phase = (\<lambda>c. Scan 0), sm_lk = (\<lambda>l. None), sm_cond = (\<lambda>ch. ch = 6)\<rparr>"

definition demo_running :: smach where
  "demo_running = goto 0 (InProc None) (rel_p 0 0 (scheduler_pick 0 0 (goto 0 (Pick 0) (acq_p 0 0 demo_start))))"

definition demo_asleep :: smach where
  "demo_asleep = goto 0 (Sw (SvSleep 5)) (sleep_park 0 5 (goto 0 (SleepC 5) (rel_l 0 5 (goto 0 (SleepB 5) (acq_p 0 0
     (goto 0 (InProc (Some 5)) (acq_l 0 5 demo_running)))))))"

lemmas demo_defs = demo_start_def demo_running_def demo_asleep_def

lemma demo_sstart: "sstart demo_start"
  by (simp add: sstart_def demo_start_def NPROC_def)

lemma one_more: "(sstep lkof)\<^sup>*\<^sup>* a b \<Longrightarrow> sstep lkof b c \<Longrightarrow> (sstep lkof)\<^sup>*\<^sup>* a c"
  by (rule rtranclp.rtrancl_into_rtrancl)

lemma demo_running_reached: "(sstep lkof)\<^sup>*\<^sup>* demo_start demo_running"
proof -
  let ?a = "goto 0 (Pick 0) (acq_p 0 0 demo_start)"
  have s1: "sstep lkof demo_start ?a"
    by (rule sstep.scan) (simp_all add: demo_start_def NPROC_def)
  have s2: "sstep lkof ?a (scheduler_pick 0 0 ?a)"
    by (rule sstep.pick) (simp add: goto_def)
  have s3: "sstep lkof (scheduler_pick 0 0 ?a) demo_running"
    unfolding demo_running_def
    by (rule sstep.resume_yield [where sv = SvNew]) (simp_all add: scheduler_pick_def sched_ops demo_start_def)
  show ?thesis
    by (rule one_more [OF one_more [OF r_into_rtranclp [of "sstep lkof", OF s1] s2] s3])
qed

lemma demo_asleep_reached: "(sstep id)\<^sup>*\<^sup>* demo_start demo_asleep"
proof -
  let ?a = "goto 0 (InProc (Some 5)) (acq_l 0 5 demo_running)"
  let ?b = "goto 0 (SleepB 5) (acq_p 0 0 ?a)"
  let ?c = "goto 0 (SleepC 5) (rel_l 0 5 ?b)"
  have s1: "sstep id demo_running ?a"
    by (rule sstep.lock) (simp_all add: scheduler_pick_def sched_ops demo_defs)
  have s2: "sstep id ?a ?b"
    by (rule sstep.sleep_lock [where ch = 5]) (simp_all add: scheduler_pick_def sched_ops demo_defs)
  have s3: "sstep id ?b ?c"
    using sstep.sleep_unlock [of ?b 0 5 id] by (simp add: goto_def)
  have s4: "sstep id ?c demo_asleep"
    unfolding demo_asleep_def
    by (rule sstep.sleep) (simp_all add: scheduler_pick_def sched_ops demo_defs)
  show ?thesis
    by (rule one_more [OF one_more [OF one_more [OF one_more [OF demo_running_reached [of id] s1] s2] s3] s4])
qed





end
