(* ===== verification/P9wire.thy ===== *)
theory P9wire
  imports Prelude
begin

text \<open>
  The message codec of the 9P file server (user/9psv): the byte macros of p9.h, the string functions, the parsers of
  requests, the composers and sizes of responses. Buffers are lists of bytes, and an access outside of a buffer or
  of an array is a \<^const>\<open>Fault\<close>. A request is parsed in place: its strings are made C strings inside
  the receive buffer and the message holds pointers to them, here offsets into the buffer.
\<close>

subsection \<open>The byte macros\<close>

definition GBIT8 :: "u8 list \<Rightarrow> nat \<Rightarrow> u8 kres" where
  "GBIT8 buf p = (if p < length buf then Ret (buf ! p) else Fault)"

definition GBIT16 :: "u8 list \<Rightarrow> nat \<Rightarrow> u16 kres" where
  "GBIT16 buf p = kbind (GBIT8 buf p) (\<lambda>a. kbind (GBIT8 buf (p + 1)) (\<lambda>b. Ret (ucast a OR push_bit 8 (ucast b))))"

definition GBIT32 :: "u8 list \<Rightarrow> nat \<Rightarrow> u32 kres" where
  "GBIT32 buf p = kbind (GBIT8 buf p) (\<lambda>a. kbind (GBIT8 buf (p + 1)) (\<lambda>b.
     kbind (GBIT8 buf (p + 2)) (\<lambda>c. kbind (GBIT8 buf (p + 3)) (\<lambda>d.
       Ret (ucast a OR push_bit 8 (ucast b) OR push_bit 16 (ucast c) OR push_bit 24 (ucast d))))))"

text \<open>The upper half is an \<^verbatim>\<open>int\<close> before it is widened, so its sign is extended and then shifted out.\<close>

definition GBIT64 :: "u8 list \<Rightarrow> nat \<Rightarrow> u64 kres" where
  "GBIT64 buf p = kbind (GBIT32 buf p) (\<lambda>lo. kbind (GBIT32 buf (p + 4)) (\<lambda>hi.
     Ret (ucast lo OR push_bit 32 (scast hi))))"

definition le16 :: "u16 \<Rightarrow> u8 list" where
  "le16 v = [ucast v, ucast (drop_bit 8 v)]"

definition le32 :: "u32 \<Rightarrow> u8 list" where
  "le32 v = [ucast v, ucast (drop_bit 8 v), ucast (drop_bit 16 v), ucast (drop_bit 24 v)]"

definition le64 :: "u64 \<Rightarrow> u8 list" where
  "le64 v = [ucast v, ucast (drop_bit 8 v), ucast (drop_bit 16 v), ucast (drop_bit 24 v),
     ucast (drop_bit 32 v), ucast (drop_bit 40 v), ucast (drop_bit 48 v), ucast (drop_bit 56 v)]"

text \<open>A buffer that is being written and the write position.\<close>

type_synonym wcur = "u8 list \<times> nat"

definition wput :: "wcur \<Rightarrow> u8 list \<Rightarrow> wcur kres" where
  "wput c bs = (let (buf, p) = c in
     if p + length bs \<le> length buf then Ret (take p buf @ bs @ drop (p + length bs) buf, p + length bs) else Fault)"

definition PBIT8 :: "wcur \<Rightarrow> u8 \<Rightarrow> wcur kres" where "PBIT8 c v = wput c [v]"
definition PBIT16 :: "wcur \<Rightarrow> u16 \<Rightarrow> wcur kres" where "PBIT16 c v = wput c (le16 v)"
definition PBIT32 :: "wcur \<Rightarrow> u32 \<Rightarrow> wcur kres" where "PBIT32 c v = wput c (le32 v)"
definition PBIT64 :: "wcur \<Rightarrow> u64 \<Rightarrow> wcur kres" where "PBIT64 c v = wput c (le64 v)"

lemmas PBIT_defs = PBIT8_def PBIT16_def PBIT32_def PBIT64_def

subsection \<open>Messages\<close>

definition P9_TVERSION :: nat where "P9_TVERSION = 100"
definition P9_HDR_SIZE :: nat where "P9_HDR_SIZE = 7"
definition P9_QIDSZ :: u32 where "P9_QIDSZ = 13"
definition P9_MAXWELEM :: nat where "P9_MAXWELEM = 16"
definition P9_NOTAG :: u16 where "P9_NOTAG = NOT 0"
definition P9_RERROR :: u8 where "P9_RERROR = 107"

definition P9_MAXMSGLEN :: int where "P9_MAXMSGLEN = 8192"
definition P9_MAXDATALEN :: int where "P9_MAXDATALEN = P9_MAXMSGLEN - (P9_MAXMSGLEN + 4)"

record p9_qid =
  qid_path :: u64
  qid_vers :: u32
  qid_type :: u8

text \<open>\<open>'s\<close> is what a pointer to a string is: an offset into the receive buffer in a request, the
  string itself in a response.\<close>

record 's p9_stat =
  st_size :: u32
  st_type :: u16
  st_dev :: u32
  st_qid :: p9_qid
  st_mode :: u32
  st_atime :: u32
  st_mtime :: u32
  st_length :: u64
  st_name :: "'s option"
  st_uid :: "'s option"
  st_gid :: "'s option"
  st_muid :: "'s option"

text \<open>The union of p9.h is flattened: each message type reads and writes its own members.\<close>

record 's p9_fcall =
  fc_size :: u32
  fc_type :: u8
  fc_tag :: u16
  fc_fid :: u32
  fc_msize :: u32
  fc_version :: "'s option"
  fc_oldtag :: u16
  fc_ename :: "'s option"
  fc_qid :: p9_qid
  fc_iounit :: u32
  fc_afid :: u32
  fc_uname :: "'s option"
  fc_aname :: "'s option"
  fc_perm :: u32
  fc_name :: "'s option"
  fc_mode :: u8
  fc_newfid :: u32
  fc_nwname :: u16
  fc_wname :: "'s option list"
  fc_nwqid :: u16
  fc_wqid :: "p9_qid list"
  fc_offset :: u64
  fc_count :: u32
  fc_data :: "u8 list"
  fc_parlen :: u16
  fc_nstat :: u16
  fc_stat :: "'s p9_stat option"

type_synonym request = "nat p9_fcall"
type_synonym response = "u8 list p9_fcall"

text \<open>\<^verbatim>\<open>p9_allocreq\<close> clears the request.\<close>

definition qid0 :: p9_qid where "qid0 = \<lparr>qid_path = 0, qid_vers = 0, qid_type = 0\<rparr>"

definition p9_allocreq :: "'s p9_fcall" where
  "p9_allocreq = \<lparr>fc_size = 0, fc_type = 0, fc_tag = 0, fc_fid = 0, fc_msize = 0, fc_version = None, fc_oldtag = 0,
     fc_ename = None, fc_qid = qid0, fc_iounit = 0, fc_afid = 0, fc_uname = None, fc_aname = None, fc_perm = 0,
     fc_name = None, fc_mode = 0, fc_newfid = 0, fc_nwname = 0, fc_wname = replicate P9_MAXWELEM None, fc_nwqid = 0,
     fc_wqid = replicate P9_MAXWELEM qid0, fc_offset = 0, fc_count = 0, fc_data = [], fc_parlen = 0, fc_nstat = 0,
     fc_stat = None\<rparr>"

subsection \<open>Strings\<close>

text \<open>\<^verbatim>\<open>p9_gstring\<close> shifts the string down by one byte, over the upper byte of its length, to make room for the
  terminator. The result is the new position, the pointer to the string and the changed buffer.\<close>

definition p9_gstring :: "u8 list \<Rightarrow> nat \<Rightarrow> int \<Rightarrow> (nat \<times> nat \<times> u8 list) option kres" where
  "p9_gstring buf p ep =
     (if int p + 2 > ep then Ret None
      else kbind (GBIT16 buf p) (\<lambda>n.
        let n = unat n; q = p + 1 in
        if int q + int n + 1 > ep then Ret None
        else if q + n + 1 > length buf then Fault
        else Ret (Some (q + n + 1, q, take q buf @ take n (drop (q + 1) buf) @ [0] @ drop (q + n + 1) buf))))"

fun p9_pstring :: "wcur \<Rightarrow> u8 list option \<Rightarrow> wcur kres" where
  "p9_pstring c None = PBIT16 c 0"
| "p9_pstring c (Some s) = (let n = of_nat (length s) :: u32 in
     kbind (PBIT16 c (ucast n)) (\<lambda>c. wput c (take (unat n) s)))"

fun p9_stringsz :: "u8 list option \<Rightarrow> u16" where
  "p9_stringsz None = 2"
| "p9_stringsz (Some s) = 2 + of_nat (length s)"

subsection \<open>Parsing requests\<close>

text \<open>A parser gets the message so far, the buffer, the position and the length of the body; it returns the position
  behind what it has read, the buffer and the message, or null.\<close>

type_synonym parser = "request \<Rightarrow> u8 list \<Rightarrow> nat \<Rightarrow> int \<Rightarrow> (nat \<times> u8 list \<times> request) option kres"

definition parse_tversion :: parser where
  "parse_tversion f buf p len =
     (if fc_tag f \<noteq> P9_NOTAG then Ret None
      else kbind (GBIT32 buf p) (\<lambda>ms.
        kbind (p9_gstring buf (p + 4) (int p + len)) (\<lambda>r. case r of
          None \<Rightarrow> Ret None
        | Some (p', s, buf') \<Rightarrow> Ret (Some (p', buf', f\<lparr>fc_msize := ms, fc_version := Some s\<rparr>)))))"

definition parse_tattach :: parser where
  "parse_tattach f buf p len =
     kbind (GBIT32 buf p) (\<lambda>fid. kbind (GBIT32 buf (p + 4)) (\<lambda>afid.
       kbind (p9_gstring buf (p + 8) (int p + len)) (\<lambda>r. case r of
         None \<Rightarrow> Ret None
       | Some (p1, u, buf1) \<Rightarrow> kbind (p9_gstring buf1 p1 (int p + len)) (\<lambda>r. case r of
           None \<Rightarrow> Ret None
         | Some (p2, a, buf2) \<Rightarrow>
             Ret (Some (p2, buf2, f\<lparr>fc_fid := fid, fc_afid := afid, fc_uname := Some u, fc_aname := Some a\<rparr>))))))"

definition parse_tflush :: parser where
  "parse_tflush f buf p len = kbind (GBIT16 buf p) (\<lambda>t. Ret (Some (p + 2, buf, f\<lparr>fc_oldtag := t\<rparr>)))"

text \<open>The names of a walk; \<open>k\<close> names are left to read, and there are pointers for \<^const>\<open>P9_MAXWELEM\<close> of them.\<close>

fun parse_wnames :: "nat \<Rightarrow> nat \<Rightarrow> request \<Rightarrow> u8 list \<Rightarrow> nat \<Rightarrow> int \<Rightarrow> (nat \<times> u8 list \<times> request) option kres" where
  "parse_wnames 0 i f buf p ep = Ret (Some (p, buf, f))"
| "parse_wnames (Suc k) i f buf p ep =
     (if i \<ge> length (fc_wname f) then Fault
      else kbind (p9_gstring buf p ep) (\<lambda>r. case r of
        None \<Rightarrow> Ret None
      | Some (p', s, buf') \<Rightarrow> parse_wnames k (Suc i) (f\<lparr>fc_wname := (fc_wname f)[i := Some s]\<rparr>) buf' p' ep))"

definition parse_twalk :: parser where
  "parse_twalk f buf p len =
     kbind (GBIT32 buf p) (\<lambda>fid. kbind (GBIT32 buf (p + 4)) (\<lambda>newfid. kbind (GBIT16 buf (p + 8)) (\<lambda>n.
       parse_wnames (unat n) 0 (f\<lparr>fc_fid := fid, fc_newfid := newfid, fc_nwname := n\<rparr>) buf (p + 10) (int p + len))))"

definition parse_topen :: parser where
  "parse_topen f buf p len =
     kbind (GBIT32 buf p) (\<lambda>fid. kbind (GBIT8 buf (p + 4)) (\<lambda>m. Ret (Some (p + 5, buf, f\<lparr>fc_fid := fid, fc_mode := m\<rparr>))))"

text \<open>The result of \<^verbatim>\<open>p9_gstring\<close> is not tested here: a null position is read from.\<close>

definition parse_tcreate :: parser where
  "parse_tcreate f buf p len =
     kbind (GBIT32 buf p) (\<lambda>fid. kbind (p9_gstring buf (p + 4) (int p + len)) (\<lambda>r. case r of
       None \<Rightarrow> Fault
     | Some (p1, s, buf1) \<Rightarrow> kbind (GBIT32 buf1 p1) (\<lambda>perm. kbind (GBIT8 buf1 (p1 + 4)) (\<lambda>m.
         Ret (Some (p1 + 5, buf1, f\<lparr>fc_fid := fid, fc_name := Some s, fc_perm := perm, fc_mode := m\<rparr>))))))"

definition parse_tread :: parser where
  "parse_tread f buf p len =
     kbind (GBIT32 buf p) (\<lambda>fid. kbind (GBIT64 buf (p + 4)) (\<lambda>off. kbind (GBIT32 buf (p + 12)) (\<lambda>n.
       Ret (Some (p + 16, buf, f\<lparr>fc_fid := fid, fc_offset := off, fc_count := n\<rparr>)))))"

text \<open>The count is compared with the limit as an unsigned number.\<close>

definition clamp_count :: "u32 \<Rightarrow> u32" where
  "clamp_count n = (if n \<ge> word_of_int P9_MAXDATALEN then word_of_int P9_MAXDATALEN else n)"

definition parse_twrite :: parser where
  "parse_twrite f buf p len =
     kbind (GBIT32 buf p) (\<lambda>fid. kbind (GBIT64 buf (p + 4)) (\<lambda>off. kbind (GBIT32 buf (p + 12)) (\<lambda>n.
       let n = clamp_count n; k = unat n in
       if p + 16 + k > length buf then Fault
       else Ret (Some (p + 16 + k, buf, f\<lparr>fc_fid := fid, fc_offset := off, fc_count := n, fc_data := take k (drop (p + 16) buf)\<rparr>)))))"

definition parse_tclunk :: parser where
  "parse_tclunk f buf p len = kbind (GBIT32 buf p) (\<lambda>fid. Ret (Some (p + 4, buf, f\<lparr>fc_fid := fid\<rparr>)))"

definition parse_tremove :: parser where
  "parse_tremove f buf p len = kbind (GBIT32 buf p) (\<lambda>fid. Ret (Some (p + 4, buf, f\<lparr>fc_fid := fid\<rparr>)))"

definition parse_tstat :: parser where
  "parse_tstat f buf p len = kbind (GBIT32 buf p) (\<lambda>fid. Ret (Some (p + 4, buf, f\<lparr>fc_fid := fid\<rparr>)))"

definition parse_twstat :: parser where
  "parse_twstat f buf p len = Ret (Some (p, buf, f))"

definition parse_ignore :: parser where
  "parse_ignore f buf p len = Ret None"

text \<open>The table of parsers: the types without an entry are null pointers or lie behind the table.\<close>

definition parsefunc :: "u8 \<Rightarrow> parser option" where
  "parsefunc t = map_of
     [(100, parse_tversion), (102, parse_ignore), (104, parse_tattach), (106, parse_ignore), (108, parse_tflush),
      (110, parse_twalk), (112, parse_topen), (114, parse_tcreate), (116, parse_tread), (118, parse_twrite),
      (120, parse_tclunk), (122, parse_tremove), (124, parse_tstat), (126, parse_twstat)] t"

definition parse_hdr :: "request \<Rightarrow> u8 list \<Rightarrow> (nat \<times> request) kres" where
  "parse_hdr f buf = kbind (GBIT32 buf 0) (\<lambda>sz. kbind (GBIT8 buf 4) (\<lambda>ty. kbind (GBIT16 buf 5) (\<lambda>tg.
     Ret (7, f\<lparr>fc_size := sz, fc_type := ty, fc_tag := tg\<rparr>))))"

definition parsefcall :: "u8 list \<Rightarrow> int \<Rightarrow> (u8 list \<times> request) option kres" where
  "parsefcall buf n =
     (if n < int P9_HDR_SIZE then Ret None
      else kbind (parse_hdr p9_allocreq buf) (\<lambda>(p, f).
        case parsefunc (fc_type f) of
          None \<Rightarrow> Fault
        | Some parse \<Rightarrow> kbind (parse f buf p (sint (fc_size f - of_nat P9_HDR_SIZE))) (\<lambda>r. case r of
            None \<Rightarrow> Ret None
          | Some (_, buf', f') \<Rightarrow> Ret (Some (buf', f')))))"

subsection \<open>Composing responses\<close>

definition compose_qid :: "wcur \<Rightarrow> p9_qid \<Rightarrow> wcur kres" where
  "compose_qid c q = kbind (PBIT8 c (qid_type q)) (\<lambda>c. kbind (PBIT32 c (qid_vers q)) (\<lambda>c. PBIT64 c (qid_path q)))"

type_synonym composer = "response \<Rightarrow> wcur \<Rightarrow> wcur kres"

definition compose_rversion :: composer where
  "compose_rversion f c = kbind (PBIT32 c (fc_msize f)) (\<lambda>c. p9_pstring c (fc_version f))"

definition compose_rattach :: composer where
  "compose_rattach f c = compose_qid c (fc_qid f)"

definition compose_rerror :: composer where
  "compose_rerror f c = p9_pstring c (fc_ename f)"

definition compose_rflush :: composer where
  "compose_rflush f c = Ret c"

fun compose_wqids :: "nat \<Rightarrow> nat \<Rightarrow> response \<Rightarrow> wcur \<Rightarrow> wcur kres" where
  "compose_wqids 0 i f c = Ret c"
| "compose_wqids (Suc k) i f c =
     (if i \<ge> length (fc_wqid f) then Fault
      else kbind (compose_qid c (fc_wqid f ! i)) (compose_wqids k (Suc i) f))"

definition compose_rwalk :: composer where
  "compose_rwalk f c = kbind (PBIT16 c (fc_nwqid f)) (compose_wqids (unat (fc_nwqid f)) 0 f)"

definition compose_ropen :: composer where
  "compose_ropen f c = kbind (compose_qid c (fc_qid f)) (\<lambda>c. PBIT32 c (fc_iounit f))"

definition compose_rcreate :: composer where
  "compose_rcreate f c = kbind (compose_qid c (fc_qid f)) (\<lambda>c. PBIT32 c (fc_iounit f))"

fun compose_data :: "nat \<Rightarrow> nat \<Rightarrow> response \<Rightarrow> wcur \<Rightarrow> wcur kres" where
  "compose_data 0 i f c = Ret c"
| "compose_data (Suc k) i f c =
     (if i \<ge> length (fc_data f) then Fault
      else kbind (PBIT8 c (fc_data f ! i)) (compose_data k (Suc i) f))"

definition compose_rread :: composer where
  "compose_rread f c = kbind (PBIT32 c (fc_count f)) (compose_data (unat (fc_count f)) 0 f)"

definition compose_rwrite :: composer where
  "compose_rwrite f c = PBIT32 c (fc_count f)"

definition compose_rclunk :: composer where
  "compose_rclunk f c = Ret c"

definition compose_rremove :: composer where
  "compose_rremove f c = Ret c"

text \<open>The body of a stat, in \<^verbatim>\<open>compose_rstat\<close> and again in \<^verbatim>\<open>compose_stat\<close>.\<close>

definition compose_statbody :: "u8 list p9_stat \<Rightarrow> wcur \<Rightarrow> wcur kres" where
  "compose_statbody st c =
     kbind (PBIT16 c (st_type st)) (\<lambda>c. kbind (PBIT32 c (st_dev st)) (\<lambda>c. kbind (compose_qid c (st_qid st)) (\<lambda>c.
     kbind (PBIT32 c (st_mode st)) (\<lambda>c. kbind (PBIT32 c (st_atime st)) (\<lambda>c. kbind (PBIT32 c (st_mtime st)) (\<lambda>c.
     kbind (PBIT64 c (st_length st)) (\<lambda>c. kbind (p9_pstring c (st_name st)) (\<lambda>c. kbind (p9_pstring c (st_uid st)) (\<lambda>c.
     kbind (p9_pstring c (st_gid st)) (\<lambda>c. p9_pstring c (st_muid st)))))))))))"

definition compose_rstat :: composer where
  "compose_rstat f c =
     kbind (PBIT16 c (fc_parlen f)) (\<lambda>c. kbind (PBIT16 c (fc_nstat f)) (\<lambda>c.
       case fc_stat f of None \<Rightarrow> Fault | Some st \<Rightarrow> compose_statbody st c))"

definition compose_rwstat :: composer where
  "compose_rwstat f c = Ret c"

definition compose_ignore :: composer where
  "compose_ignore f c = Ret c"

definition compose_stat :: "wcur \<Rightarrow> u8 list p9_stat \<Rightarrow> wcur kres" where
  "compose_stat c st = kbind (PBIT16 c (ucast (st_size st))) (compose_statbody st)"

definition composefunc :: "u8 \<Rightarrow> composer option" where
  "composefunc t = map_of
     [(101, compose_rversion), (103, compose_ignore), (105, compose_rattach), (107, compose_rerror), (109, compose_rflush),
      (111, compose_rwalk), (113, compose_ropen), (115, compose_rcreate), (117, compose_rread), (119, compose_rwrite),
      (121, compose_rclunk), (123, compose_rremove), (125, compose_rstat), (127, compose_rwstat)] t"

text \<open>The size of the buffer is a parameter of the C function that it never looks at.\<close>

definition composefcall :: "response \<Rightarrow> u8 list \<Rightarrow> wcur kres" where
  "composefcall f buf =
     kbind (PBIT32 (buf, 0) (fc_size f)) (\<lambda>c. kbind (PBIT8 c (fc_type f)) (\<lambda>c. kbind (PBIT16 c (fc_tag f)) (\<lambda>c.
       case composefunc (fc_type f) of None \<Rightarrow> Fault | Some compose \<Rightarrow> compose f c)))"

subsection \<open>Sizes\<close>

text \<open>All numbers are \<^verbatim>\<open>int\<close>s, which are as good as 32-bit words here.\<close>

type_synonym sizer = "u8 list p9_fcall \<Rightarrow> u32"

definition size_tversion :: sizer where "size_tversion f = 4 + ucast (p9_stringsz (fc_version f))"
definition size_rversion :: sizer where "size_rversion f = 4 + ucast (p9_stringsz (fc_version f))"
definition size_tauth :: sizer where
  "size_tauth f = 4 + ucast (p9_stringsz (fc_uname f)) + ucast (p9_stringsz (fc_aname f))"
definition size_rauth :: sizer where "size_rauth f = P9_QIDSZ"
definition size_tattach :: sizer where
  "size_tattach f = 4 + 4 + ucast (p9_stringsz (fc_uname f)) + ucast (p9_stringsz (fc_aname f))"
definition size_rattach :: sizer where "size_rattach f = P9_QIDSZ"
definition size_rerror :: sizer where "size_rerror f = ucast (p9_stringsz (fc_ename f))"
definition size_tflush :: sizer where "size_tflush f = 2"
definition size_rflush :: sizer where "size_rflush f = 0"
definition size_twalk :: sizer where
  "size_twalk f = 4 + 4 + 2 + sum_list (map (\<lambda>s. ucast (p9_stringsz s)) (take (unat (fc_nwname f)) (fc_wname f)))"
definition size_rwalk :: sizer where "size_rwalk f = 2 + ucast (fc_nwqid f) * P9_QIDSZ"
definition size_topen :: sizer where "size_topen f = 4 + 1"
definition size_ropen :: sizer where "size_ropen f = P9_QIDSZ + 4"
definition size_tcreate :: sizer where "size_tcreate f = 4 + ucast (p9_stringsz (fc_name f)) + 4 + 1"
definition size_rcreate :: sizer where "size_rcreate f = P9_QIDSZ + 4"
definition size_tread :: sizer where "size_tread f = 4 + 8 + 4"
definition size_rread :: sizer where "size_rread f = 4 + fc_count f"
definition size_twrite :: sizer where "size_twrite f = 4 + 8 + 4 + fc_count f"
definition size_rwrite :: sizer where "size_rwrite f = 4"
definition size_tclunk :: sizer where "size_tclunk f = 4"
definition size_rclunk :: sizer where "size_rclunk f = 0"
definition size_tremove :: sizer where "size_tremove f = 4"
definition size_rremove :: sizer where "size_rremove f = 0"
definition size_tstat :: sizer where "size_tstat f = 4"
definition size_rstat :: sizer where "size_rstat f = 2 + ucast (fc_parlen f)"
definition size_twstat :: sizer where "size_twstat f = 4 + 2 + ucast (fc_nstat f)"
definition size_rwstat :: sizer where "size_rwstat f = 0"

definition sizefunc :: "u8 \<Rightarrow> sizer option" where
  "sizefunc t = map_of
     [(100, size_tversion), (101, size_rversion), (102, size_tauth), (103, size_rauth), (104, size_tattach),
      (105, size_rattach), (107, size_rerror), (108, size_tflush), (109, size_rflush), (110, size_twalk),
      (111, size_rwalk), (112, size_topen), (113, size_ropen), (114, size_tcreate), (115, size_rcreate),
      (116, size_tread), (117, size_rread), (118, size_twrite), (119, size_rwrite), (120, size_tclunk),
      (121, size_rclunk), (122, size_tremove), (123, size_rremove), (124, size_tstat), (125, size_rstat),
      (126, size_twstat), (127, size_rwstat)] t"

definition p9_getfcallsize :: "u8 list p9_fcall \<Rightarrow> u32 kres" where
  "p9_getfcallsize f = (case sizefunc (fc_type f) of None \<Rightarrow> Fault | Some sz \<Rightarrow> Ret (4 + 1 + 2 + sz f))"

text \<open>\<^verbatim>\<open>respond\<close> up to the call that sends: type, size and tag, then the bytes. The result is the buffer and the number of
  bytes to send.\<close>

definition respond :: "u8 list \<Rightarrow> bool \<Rightarrow> u8 \<Rightarrow> u16 \<Rightarrow> response \<Rightarrow> (u8 list \<times> u32) kres" where
  "respond wbuf error itype itag f =
     (let f1 = f\<lparr>fc_type := (if error then P9_RERROR else itype + 1)\<rparr> in
      kbind (p9_getfcallsize f1) (\<lambda>sz.
        let f2 = f1\<lparr>fc_size := sz, fc_tag := itag\<rparr> in
        kbind (composefcall f2 wbuf) (\<lambda>(buf, _). Ret (buf, sz))))"

subsection \<open>Stat replies\<close>

definition T_DIR :: u16 where "T_DIR = 1"
definition P9_ODIR :: u8 where "P9_ODIR = 128"
definition P9_RSTAT_DEFLEN :: u32 where "P9_RSTAT_DEFLEN = 41"
definition P9_DEFPERM :: u32 where "P9_DEFPERM = 511"

text \<open>\<^verbatim>\<open>p9_getfilename\<close> walks back from the end of the path to a slash; without one it leaves the string.\<close>

definition p9_getfilename :: "u8 list \<Rightarrow> u8 list kres" where
  "p9_getfilename path = (if 47 \<in> set path then Ret (rev (takeWhile (\<lambda>c. c \<noteq> 47) (rev path))) else Fault)"

definition to_qid_type :: "u16 \<Rightarrow> u8" where
  "to_qid_type t = (if t AND T_DIR \<noteq> 0 then P9_ODIR else 0)"

text \<open>What the system call \<^verbatim>\<open>fstat\<close> tells.\<close>

record fstat =
  fs_dev :: u32
  fs_ino :: u32
  fs_type :: u16
  fs_size :: u64

text \<open>\<^verbatim>\<open>p9_getstat\<close>, with the answer of \<^verbatim>\<open>open\<close> and \<^verbatim>\<open>fstat\<close> as its second argument. The server has
  its own names for the owner; \<open>nobody\<close> is \<^verbatim>\<open>"nobody"\<close>.\<close>

definition nobody :: "u8 list" where "nobody = [110, 111, 98, 111, 100, 121]"

definition p9_getstat :: "u8 list \<Rightarrow> fstat option \<Rightarrow> u8 list p9_stat option kres" where
  "p9_getstat path r = (case r of None \<Rightarrow> Ret None | Some st \<Rightarrow>
     kbind (p9_getfilename path) (\<lambda>name. Ret (Some
       \<lparr>st_size = P9_RSTAT_DEFLEN - 2 + of_nat (length name) + of_nat (length nobody) + 0 + 0 + 2 * 4,
        st_type = 0, st_dev = fs_dev st,
        st_qid = \<lparr>qid_path = ucast (fs_ino st), qid_vers = 0, qid_type = to_qid_type (fs_type st)\<rparr>,
        st_mode = push_bit 31 (ucast (fs_type st AND T_DIR)) + P9_DEFPERM, st_atime = 0, st_mtime = 0,
        st_length = (if fs_type st AND T_DIR \<noteq> 0 then 0 else fs_size st),
        st_name = Some name, st_uid = Some nobody, st_gid = Some [], st_muid = Some []\<rparr>)))"

text \<open>What \<^verbatim>\<open>rstat\<close> puts into the response.\<close>

definition rstat_fill :: "response \<Rightarrow> u8 list p9_stat \<Rightarrow> response" where
  "rstat_fill f st = f\<lparr>fc_stat := Some st, fc_nstat := ucast (st_size st), fc_parlen := ucast (st_size st + 2)\<rparr>"

subsection \<open>Reading and writing little-endian numbers\<close>

lemma length_le [simp]: "length (le16 v) = 2" "length (le32 w) = 4" "length (le64 x) = 8"
  by (simp_all add: le16_def le32_def le64_def)

text \<open>\<open>ahead buf p ys\<close>: the bytes of the buffer from position \<open>p\<close> on are \<open>ys\<close>.\<close>

definition ahead :: "u8 list \<Rightarrow> nat \<Rightarrow> u8 list \<Rightarrow> bool" where
  "ahead buf p ys \<longleftrightarrow> p \<le> length buf \<and> drop p buf = ys"

lemma ahead_length: "ahead buf p ys \<Longrightarrow> length buf = p + length ys"
  by (auto simp: ahead_def)

lemma ahead_append: "ahead buf p (xs @ ys) \<Longrightarrow> ahead buf (p + length xs) ys"
proof -
  assume a: "ahead buf p (xs @ ys)"
  then have d: "drop p buf = xs @ ys"
    by (simp add: ahead_def)
  have "drop (p + length xs) buf = drop (length xs) (drop p buf)"
    by (simp add: add.commute)
  then have "drop (p + length xs) buf = ys"
    unfolding d by simp
  then show ?thesis
    using ahead_length [OF a] by (simp add: ahead_def)
qed

lemma ahead_nth: "ahead buf p (xs @ ys) \<Longrightarrow> i < length xs \<Longrightarrow> GBIT8 buf (p + i) = Ret (xs ! i)"
proof -
  assume a: "ahead buf p (xs @ ys)" and i: "i < length xs"
  then have d: "drop p buf = xs @ ys" "p \<le> length buf"
    by (simp_all add: ahead_def)
  have "buf ! (p + i) = drop p buf ! i"
    by (rule nth_drop [symmetric]) (rule d(2))
  then have "buf ! (p + i) = xs ! i"
    using i unfolding d(1) by (simp add: nth_append)
  then show ?thesis
    using i ahead_length [OF a] by (simp add: GBIT8_def)
qed

lemma GBIT8_ahead: "ahead buf p ([v] @ ys) \<Longrightarrow> GBIT8 buf p = Ret v"
  using ahead_nth [of buf p "[v]" ys 0] by simp

lemma GBIT16_ahead: "ahead buf p (le16 v @ ys) \<Longrightarrow> GBIT16 buf p = Ret v"
  using ahead_nth [of buf p "le16 v" ys 0] ahead_nth [of buf p "le16 v" ys 1]
  by (auto simp: GBIT16_def le16_def bit_simps intro!: bit_word_eqI)

lemma GBIT32_ahead: "ahead buf p (le32 v @ ys) \<Longrightarrow> GBIT32 buf p = Ret v"
proof -
  assume a: "ahead buf p (le32 v @ ys)"
  have "(ucast (ucast v :: u8) :: u32) OR push_bit 8 (ucast (ucast (drop_bit 8 v) :: u8)) OR
    push_bit 16 (ucast (ucast (drop_bit 16 v) :: u8)) OR push_bit 24 (ucast (ucast (drop_bit 24 v) :: u8)) = v"
  proof (rule bit_word_eqI)
    fix n :: nat assume "n < LENGTH(32)"
    then have "n < 8 \<or> 8 \<le> n \<and> n < 16 \<or> 16 \<le> n \<and> n < 24 \<or> 24 \<le> n \<and> n < 32" by auto
    then show "bit ((ucast (ucast v :: u8) :: u32) OR push_bit 8 (ucast (ucast (drop_bit 8 v) :: u8)) OR
      push_bit 16 (ucast (ucast (drop_bit 16 v) :: u8)) OR push_bit 24 (ucast (ucast (drop_bit 24 v) :: u8))) n = bit v n"
      by (elim disjE) (auto simp: bit_simps)
  qed
  then show ?thesis
    using ahead_nth [OF a, of 0] ahead_nth [OF a, of 1] ahead_nth [OF a, of 2] ahead_nth [OF a, of 3]
    by (simp add: GBIT32_def le32_def numeral_2_eq_2 numeral_3_eq_3)
qed

lemma le64_split: "le64 v = le32 (ucast v) @ le32 (ucast (drop_bit 32 v))"
  unfolding le64_def le32_def by (auto simp: bit_simps intro!: bit_word_eqI)

lemma GBIT64_ahead: "ahead buf p (le64 v @ ys) \<Longrightarrow> GBIT64 buf p = Ret v"
proof -
  assume "ahead buf p (le64 v @ ys)"
  then have a: "ahead buf p (le32 (ucast v) @ le32 (ucast (drop_bit 32 v)) @ ys)"
    by (simp add: le64_split)
  have "ucast (ucast v :: u32) OR push_bit 32 (scast (ucast (drop_bit 32 v) :: u32)) = v"
  proof (rule bit_word_eqI)
    fix n :: nat assume "n < LENGTH(64)"
    then have "n < 32 \<or> 32 \<le> n \<and> n < 63 \<or> n = 63" by auto
    then show "bit ((ucast (ucast v :: u32) :: u64) OR push_bit 32 (scast (ucast (drop_bit 32 v) :: u32))) n = bit v n"
      by (elim disjE) (auto simp: bit_simps min_def)
  qed
  then show ?thesis
    using GBIT32_ahead [OF a] GBIT32_ahead [OF ahead_append [OF a]] by (simp add: GBIT64_def)
qed

text \<open>Writes in a row are one write.\<close>

lemma wput_wput: "kbind (wput c a) (\<lambda>c. wput c b) = wput c (a @ b)"
  by (auto simp: wput_def Let_def ac_simps split: prod.splits)

lemma wput_bind [simp]: "kbind (wput c a) (\<lambda>c. kbind (wput c b) g) = kbind (wput c (a @ b)) g"
  by (simp add: wput_wput [symmetric] kbind_assoc)

lemma wput_Nil: "p \<le> length buf \<Longrightarrow> wput (buf, p) [] = Ret (buf, p)"
  by (simp add: wput_def)

subsection \<open>Requests on the wire\<close>

text \<open>The requests of 9P2000 and their encoding, as the protocol defines them.\<close>

datatype tmsg =
    Tversion u32 "u8 list"
  | Tattach u32 u32 "u8 list" "u8 list"
  | Tflush u16
  | Twalk u32 u32 "u8 list list"
  | Topen u32 u8
  | Tcreate u32 "u8 list" u32 u8
  | Tread u32 u64 u32
  | Twrite u32 u64 "u8 list"
  | Tclunk u32
  | Tremove u32
  | Tstat u32

definition str9 :: "u8 list \<Rightarrow> u8 list" where
  "str9 s = le16 (of_nat (length s)) @ s"

fun ttype :: "tmsg \<Rightarrow> u8" where
  "ttype (Tversion _ _) = 100"
| "ttype (Tattach _ _ _ _) = 104"
| "ttype (Tflush _) = 108"
| "ttype (Twalk _ _ _) = 110"
| "ttype (Topen _ _) = 112"
| "ttype (Tcreate _ _ _ _) = 114"
| "ttype (Tread _ _ _) = 116"
| "ttype (Twrite _ _ _) = 118"
| "ttype (Tclunk _) = 120"
| "ttype (Tremove _) = 122"
| "ttype (Tstat _) = 124"

fun tbody :: "tmsg \<Rightarrow> u8 list" where
  "tbody (Tversion ms v) = le32 ms @ str9 v"
| "tbody (Tattach fid afid u a) = le32 fid @ le32 afid @ str9 u @ str9 a"
| "tbody (Tflush t) = le16 t"
| "tbody (Twalk fid nf ns) = le32 fid @ le32 nf @ le16 (of_nat (length ns)) @ concat (map str9 ns)"
| "tbody (Topen fid m) = le32 fid @ [m]"
| "tbody (Tcreate fid n perm m) = le32 fid @ str9 n @ le32 perm @ [m]"
| "tbody (Tread fid off n) = le32 fid @ le64 off @ le32 n"
| "tbody (Twrite fid off ds) = le32 fid @ le64 off @ le32 (of_nat (length ds)) @ ds"
| "tbody (Tclunk fid) = le32 fid"
| "tbody (Tremove fid) = le32 fid"
| "tbody (Tstat fid) = le32 fid"

definition enc_t :: "u16 \<Rightarrow> tmsg \<Rightarrow> u8 list" where
  "enc_t tag t = le32 (of_nat (7 + length (tbody t))) @ [ttype t] @ le16 tag @ tbody t"

fun tstrings :: "tmsg \<Rightarrow> u8 list list" where
  "tstrings (Tversion ms v) = [v]"
| "tstrings (Tattach fid afid u a) = [u, a]"
| "tstrings (Twalk fid nf ns) = ns"
| "tstrings (Tcreate fid n perm m) = [n]"
| "tstrings _ = []"

text \<open>A well-formed request: a version request has no tag, a walk has at most 16 names, strings are short enough for
  their length field and have no zero byte, and the message fits into the message buffer.\<close>

definition wf_t :: "u16 \<Rightarrow> tmsg \<Rightarrow> bool" where
  "wf_t tag t \<longleftrightarrow> (case t of Tversion _ _ \<Rightarrow> tag = P9_NOTAG | Twalk _ _ ns \<Rightarrow> length ns \<le> P9_MAXWELEM | _ \<Rightarrow> True) \<and>
     (\<forall>s \<in> set (tstrings t). 0 \<notin> set s) \<and> 7 + length (tbody t) \<le> nat P9_MAXMSGLEN"

text \<open>A C string in a buffer, and what it means that a parsed message is the request \<open>t\<close>.\<close>

definition cstr_at :: "u8 list \<Rightarrow> nat option \<Rightarrow> u8 list \<Rightarrow> bool" where
  "cstr_at buf po s \<longleftrightarrow> (case po of None \<Rightarrow> False | Some q \<Rightarrow>
     q + length s < length buf \<and> take (length s) (drop q buf) = s \<and> buf ! (q + length s) = 0)"

fun says :: "u8 list \<Rightarrow> request \<Rightarrow> tmsg \<Rightarrow> bool" where
  "says buf f (Tversion ms v) = (fc_msize f = ms \<and> cstr_at buf (fc_version f) v)"
| "says buf f (Tattach fid afid u a) = (fc_fid f = fid \<and> fc_afid f = afid \<and> cstr_at buf (fc_uname f) u \<and> cstr_at buf (fc_aname f) a)"
| "says buf f (Tflush t) = (fc_oldtag f = t)"
| "says buf f (Twalk fid nf ns) = (fc_fid f = fid \<and> fc_newfid f = nf \<and> unat (fc_nwname f) = length ns \<and>
     length ns \<le> length (fc_wname f) \<and> (\<forall>i < length ns. cstr_at buf (fc_wname f ! i) (ns ! i)))"
| "says buf f (Topen fid m) = (fc_fid f = fid \<and> fc_mode f = m)"
| "says buf f (Tcreate fid n perm m) = (fc_fid f = fid \<and> cstr_at buf (fc_name f) n \<and> fc_perm f = perm \<and> fc_mode f = m)"
| "says buf f (Tread fid off n) = (fc_fid f = fid \<and> fc_offset f = off \<and> fc_count f = n)"
| "says buf f (Twrite fid off ds) = (fc_fid f = fid \<and> fc_offset f = off \<and> unat (fc_count f) = length ds \<and> fc_data f = ds)"
| "says buf f (Tclunk fid) = (fc_fid f = fid)"
| "says buf f (Tremove fid) = (fc_fid f = fid)"
| "says buf f (Tstat fid) = (fc_fid f = fid)"

subsection \<open>Parsing undoes the encoding\<close>

lemma length_str9 [simp]: "length (str9 s) = 2 + length s"
  by (simp add: str9_def)

text \<open>The buffer after a string has been turned into a C string.\<close>

definition gstr :: "u8 list \<Rightarrow> nat \<Rightarrow> u8 list \<Rightarrow> u8 list \<Rightarrow> u8 list" where
  "gstr buf p s ys = take (p + 1) buf @ s @ [0] @ ys"

lemma gstr_facts:
  assumes "ahead buf p (str9 s @ ys)"
  shows "ahead (gstr buf p s ys) (p + 2 + length s) ys" "length (gstr buf p s ys) = length buf"
    "take p (gstr buf p s ys) = take p buf" "cstr_at (gstr buf p s ys) (Some (p + 1)) s"
  using ahead_length [OF assms] by (auto simp: gstr_def ahead_def cstr_at_def nth_append min_def)

lemma gstring_ahead:
  assumes a: "ahead buf p (str9 s @ ys)" and "length s < 65536" "int p + 2 + int (length s) \<le> ep"
  shows "p9_gstring buf p ep = Ret (Some (p + 2 + length s, p + 1, gstr buf p s ys))"
proof -
  have a2: "ahead buf p (le16 (of_nat (length s)) @ s @ ys)"
    using a by (simp add: str9_def)
  have n: "unat (of_nat (length s) :: u16) = length s"
    using assms(2) by (simp add: unat_of_nat)
  have n': "uint (of_nat (length s) :: u16) = int (length s)"
    using arg_cong [OF n, of int] by simp
  have d: "drop (p + 2) buf = s @ ys"
    using ahead_append [OF a2] by (simp add: ahead_def)
  have "p + 1 + length s + 1 = length s + (p + 2)"
    by simp
  then have "drop (p + 1 + length s + 1) buf = drop (length s) (drop (p + 2) buf)"
    by (simp only: drop_drop)
  then have d2: "drop (p + 1 + length s + 1) buf = ys"
    unfolding d by simp
  have 1: "\<not> int p + 2 > ep" "\<not> int (p + 1) + int (length s) + 1 > ep" "\<not> p + 1 + length s + 1 > length buf"
    using assms(3) ahead_length [OF a] by simp_all
  have "p9_gstring buf p ep = Ret (Some (p + 1 + length s + 1, p + 1,
      take (p + 1) buf @ take (length s) (drop (p + 1 + 1) buf) @ [0] @ drop (p + 1 + length s + 1) buf))"
    unfolding p9_gstring_def Let_def using GBIT16_ahead [OF a2] 1 n' by (simp add: n)
  moreover have "take (length s) (drop (p + 1 + 1) buf) = s"
    using d by simp
  ultimately show ?thesis
    using d2 by (simp add: gstr_def)
qed

lemma cstr_at_mono:
  assumes "cstr_at buf (Some q) s" "q + length s < p" "take p buf' = take p buf" "length buf' = length buf"
  shows "cstr_at buf' (Some q) s"
proof -
  have "take (length s) (drop q buf') = take (length s) (drop q (take p buf'))"
    using assms(2) by (simp add: drop_take min_def)
  moreover have "take (length s) (drop q buf) = take (length s) (drop q (take p buf))"
    using assms(2) by (simp add: drop_take min_def)
  moreover have "buf' ! (q + length s) = buf ! (q + length s)"
    using assms by (metis nth_take)
  ultimately show ?thesis
    using assms by (simp add: cstr_at_def)
qed

lemma parse_hdr_ahead:
  assumes "ahead buf 0 (le32 sz @ [ty] @ le16 tg @ ys)"
  shows "parse_hdr f buf = Ret (7, f\<lparr>fc_size := sz, fc_type := ty, fc_tag := tg\<rparr>)" "ahead buf 7 ys"
proof -
  have a: "ahead buf 4 ([ty] @ le16 tg @ ys)" "ahead buf 5 (le16 tg @ ys)"
    using ahead_append [OF assms] ahead_append [OF ahead_append [OF assms]] by simp_all
  show "parse_hdr f buf = Ret (7, f\<lparr>fc_size := sz, fc_type := ty, fc_tag := tg\<rparr>)"
    using GBIT32_ahead [OF assms] GBIT8_ahead [OF a(1)] GBIT16_ahead [OF a(2)] by (simp add: parse_hdr_def)
  show "ahead buf 7 ys"
    using ahead_append [OF a(2)] by simp
qed

text \<open>The contract of a parser on the body of a request: it reads the whole body, tells what the request says, and leaves the
  bytes behind it alone.\<close>

definition parses :: "parser \<Rightarrow> request \<Rightarrow> u8 list \<Rightarrow> nat \<Rightarrow> tmsg \<Rightarrow> u8 list \<Rightarrow> bool" where
  "parses parse f buf p t ys \<longleftrightarrow> (\<exists>buf' f'. parse f buf p (int (length (tbody t))) = Ret (Some (p + length (tbody t), buf', f')) \<and>
     says buf' f' t \<and> ahead buf' (p + length (tbody t)) ys \<and> length buf' = length buf \<and>
     fc_tag f' = fc_tag f \<and> fc_type f' = fc_type f)"

lemma parses_tflush: "ahead buf p (tbody (Tflush t) @ ys) \<Longrightarrow> parses parse_tflush f buf p (Tflush t) ys"
  using GBIT16_ahead [of buf p t ys] ahead_append [of buf p "le16 t" ys]
  by (simp add: parses_def parse_tflush_def)

lemma parses_fid:
  "ahead buf p (tbody (Tclunk fid) @ ys) \<Longrightarrow> parses parse_tclunk f buf p (Tclunk fid) ys"
  "ahead buf p (tbody (Tremove fid) @ ys) \<Longrightarrow> parses parse_tremove f buf p (Tremove fid) ys"
  "ahead buf p (tbody (Tstat fid) @ ys) \<Longrightarrow> parses parse_tstat f buf p (Tstat fid) ys"
  using GBIT32_ahead [of buf p fid ys] ahead_append [of buf p "le32 fid" ys]
  by (simp_all add: parses_def parse_tclunk_def parse_tremove_def parse_tstat_def)

lemma parses_topen:
  assumes "ahead buf p (tbody (Topen fid m) @ ys)"
  shows "parses parse_topen f buf p (Topen fid m) ys"
proof -
  from assms have a: "ahead buf p (le32 fid @ [m] @ ys)" by simp
  from ahead_append [OF a] have b: "ahead buf (p + 4) ([m] @ ys)" by simp
  from ahead_append [OF b] have c: "ahead buf (p + 5) ys" by (simp add: add.commute)
  show ?thesis
    using GBIT32_ahead [OF a] GBIT8_ahead [OF b] c by (simp add: parses_def parse_topen_def)
qed

lemma parses_tread:
  assumes "ahead buf p (tbody (Tread fid off n) @ ys)"
  shows "parses parse_tread f buf p (Tread fid off n) ys"
proof -
  from assms have a: "ahead buf p (le32 fid @ le64 off @ le32 n @ ys)" by simp
  from ahead_append [OF a] have b: "ahead buf (p + 4) (le64 off @ le32 n @ ys)" by simp
  from ahead_append [OF b] have c: "ahead buf (p + 12) (le32 n @ ys)" by (simp add: add.assoc)
  show ?thesis
    using GBIT32_ahead [OF a] GBIT64_ahead [OF b] GBIT32_ahead [OF c] ahead_append [OF c]
    by (simp add: parses_def parse_tread_def add.assoc)
qed

lemma clamp_small: "unat n < 4294967292 \<Longrightarrow> clamp_count n = n"
proof -
  have "(word_of_int P9_MAXDATALEN :: u32) = 4294967292"
    by (simp add: P9_MAXDATALEN_def)
  then show "unat n < 4294967292 \<Longrightarrow> clamp_count n = n"
    by (simp add: clamp_count_def word_le_nat_alt)
qed

lemma parses_twrite:
  assumes "ahead buf p (tbody (Twrite fid off ds) @ ys)" "length ds < 4294967292"
  shows "parses parse_twrite f buf p (Twrite fid off ds) ys"
proof -
  let ?n = "of_nat (length ds) :: u32"
  from assms have a: "ahead buf p (le32 fid @ le64 off @ le32 ?n @ ds @ ys)" by simp
  from ahead_append [OF a] have b: "ahead buf (p + 4) (le64 off @ le32 ?n @ ds @ ys)" by simp
  from ahead_append [OF b] have c: "ahead buf (p + 12) (le32 ?n @ ds @ ys)" by (simp add: add.assoc)
  from ahead_append [OF c] have d: "ahead buf (p + 16) (ds @ ys)" by (simp add: add.assoc)
  have n: "unat ?n = length ds"
    using assms(2) by (simp add: unat_of_nat)
  then have "clamp_count ?n = ?n"
    using assms(2) clamp_small by simp
  moreover have "take (length ds) (drop (p + 16) buf) = ds" "p + 16 + length ds \<le> length buf"
    using d by (simp_all add: ahead_def) (use ahead_length [OF d] in simp)
  ultimately show ?thesis
    using GBIT32_ahead [OF a] GBIT64_ahead [OF b] GBIT32_ahead [OF c] ahead_append [OF d] n
    by (simp add: parses_def parse_twrite_def add.assoc Let_def)
qed

lemma parses_tversion:
  assumes "ahead buf p (tbody (Tversion ms v) @ ys)" "length v < 65536" "fc_tag f = P9_NOTAG"
  shows "parses parse_tversion f buf p (Tversion ms v) ys"
proof -
  from assms have a: "ahead buf p (le32 ms @ str9 v @ ys)" by simp
  from ahead_append [OF a] have b: "ahead buf (p + 4) (str9 v @ ys)" by simp
  note f1 = gstr_facts [OF b]
  have g: "p9_gstring buf (p + 4) (int p + int (length (tbody (Tversion ms v)))) =
      Ret (Some (p + 4 + 2 + length v, p + 4 + 1, gstr buf (p + 4) v ys))"
    by (rule gstring_ahead [OF b assms(2)]) simp
  have e: "p + length (tbody (Tversion ms v)) = p + 4 + 2 + length v"
    by simp
  show ?thesis
    using f1(1,2,4) assms(3) unfolding parses_def parse_tversion_def e
    by (simp only: GBIT32_ahead [OF a] kbind.simps g option.case prod.case) simp
qed

lemma parses_tattach:
  assumes "ahead buf p (tbody (Tattach fid afid u w) @ ys)" "length u < 65536" "length w < 65536"
  shows "parses parse_tattach f buf p (Tattach fid afid u w) ys"
proof -
  let ?ep = "int p + int (length (tbody (Tattach fid afid u w)))"
  from assms have a: "ahead buf p (le32 fid @ le32 afid @ str9 u @ str9 w @ ys)" by simp
  from ahead_append [OF a] have b: "ahead buf (p + 4) (le32 afid @ str9 u @ str9 w @ ys)" by simp
  from ahead_append [OF b] have c: "ahead buf (p + 8) (str9 u @ str9 w @ ys)" by (simp add: add.assoc)
  let ?b1 = "gstr buf (p + 8) u (str9 w @ ys)" and ?p1 = "p + 8 + 2 + length u"
  note f1 = gstr_facts [OF c]
  let ?b2 = "gstr ?b1 ?p1 w ys"
  note f2 = gstr_facts [OF f1(1)]
  have g1: "p9_gstring buf (p + 8) ?ep = Ret (Some (?p1, p + 8 + 1, ?b1))"
    by (rule gstring_ahead [OF c assms(2)]) simp
  have g2: "p9_gstring ?b1 ?p1 ?ep = Ret (Some (?p1 + 2 + length w, ?p1 + 1, ?b2))"
    by (rule gstring_ahead [OF f1(1) assms(3)]) simp
  have "cstr_at ?b2 (Some (p + 8 + 1)) u"
    by (rule cstr_at_mono [OF f1(4) _ f2(3,2)]) simp
  moreover have "p + length (tbody (Tattach fid afid u w)) = ?p1 + 2 + length w"
    by simp
  ultimately show ?thesis
    using f2(1,2,4) f1(2) unfolding parses_def parse_tattach_def
    by (simp only: GBIT32_ahead [OF a] GBIT32_ahead [OF b] kbind.simps g1 g2 option.case prod.case) simp
qed

lemma parses_tcreate:
  assumes "ahead buf p (tbody (Tcreate fid n perm m) @ ys)" "length n < 65536"
  shows "parses parse_tcreate f buf p (Tcreate fid n perm m) ys"
proof -
  let ?ep = "int p + int (length (tbody (Tcreate fid n perm m)))"
  from assms have a: "ahead buf p (le32 fid @ str9 n @ le32 perm @ [m] @ ys)" by simp
  from ahead_append [OF a] have b: "ahead buf (p + 4) (str9 n @ le32 perm @ [m] @ ys)" by simp
  let ?b1 = "gstr buf (p + 4) n (le32 perm @ [m] @ ys)" and ?p1 = "p + 4 + 2 + length n"
  note f1 = gstr_facts [OF b]
  from ahead_append [OF f1(1)] have c: "ahead ?b1 (?p1 + 4) ([m] @ ys)" by simp
  from ahead_append [OF c] have d: "ahead ?b1 (?p1 + 5) ys" by (simp add: eval_nat_numeral)
  have g1: "p9_gstring buf (p + 4) ?ep = Ret (Some (?p1, p + 4 + 1, ?b1))"
    by (rule gstring_ahead [OF b assms(2)]) simp
  have e: "p + length (tbody (Tcreate fid n perm m)) = ?p1 + 5"
    by simp
  show ?thesis
    using f1(2,4) d unfolding parses_def parse_tcreate_def e
    by (simp only: GBIT32_ahead [OF a] GBIT32_ahead [OF f1(1)] GBIT8_ahead [OF c] kbind.simps g1 option.case prod.case) simp
qed

text \<open>The names of a walk, from number \<open>i\<close> on.\<close>

lemma wnames_ahead:
  assumes "ahead buf p (concat (map str9 ns) @ ys)" "\<forall>s \<in> set ns. length s < 65536"
    "int p + int (length (concat (map str9 ns))) \<le> ep" "i + length ns \<le> length (fc_wname f)"
  shows "\<exists>buf' ws. parse_wnames (length ns) i f buf p ep =
      Ret (Some (p + length (concat (map str9 ns)), buf', f\<lparr>fc_wname := ws\<rparr>)) \<and>
    ahead buf' (p + length (concat (map str9 ns))) ys \<and> length buf' = length buf \<and> take p buf' = take p buf \<and>
    length ws = length (fc_wname f) \<and> take i ws = take i (fc_wname f) \<and> (\<forall>k < length ns. cstr_at buf' (ws ! (i + k)) (ns ! k))"
  using assms
proof (induction ns arbitrary: buf p i f)
  case Nil
  then show ?case
    by (intro exI [of _ buf] exI [of _ "fc_wname f"]) simp
next
  case (Cons n ns)
  let ?zs = "concat (map str9 ns) @ ys"
  let ?b1 = "gstr buf p n ?zs" and ?p1 = "p + 2 + length n" and ?f1 = "f\<lparr>fc_wname := (fc_wname f)[i := Some (p + 1)]\<rparr>"
  have a: "ahead buf p (str9 n @ ?zs)"
    using Cons.prems(1) by simp
  note f1 = gstr_facts [OF a]
  have g: "p9_gstring buf p ep = Ret (Some (?p1, p + 1, ?b1))"
    by (rule gstring_ahead [OF a]) (use Cons.prems in simp_all)
  have ep: "int ?p1 + int (length (concat (map str9 ns))) \<le> ep" and i: "Suc i + length ns \<le> length (fc_wname ?f1)"
    using Cons.prems(3,4) by simp_all
  from Cons.IH [OF f1(1) _ ep i] Cons.prems(2) obtain buf' ws where
    ih: "parse_wnames (length ns) (Suc i) ?f1 ?b1 ?p1 ep =
      Ret (Some (?p1 + length (concat (map str9 ns)), buf', ?f1\<lparr>fc_wname := ws\<rparr>))"
      "ahead buf' (?p1 + length (concat (map str9 ns))) ys" "length buf' = length ?b1" "take ?p1 buf' = take ?p1 ?b1"
      "length ws = length (fc_wname ?f1)" "take (Suc i) ws = take (Suc i) (fc_wname ?f1)"
      "\<forall>k < length ns. cstr_at buf' (ws ! (Suc i + k)) (ns ! k)"
    by auto
  have e: "p + length (concat (map str9 (n # ns))) = ?p1 + length (concat (map str9 ns))"
    by simp
  have "ws ! i = Some (p + 1)"
    using arg_cong [OF ih(6), of "\<lambda>xs. xs ! i"] Cons.prems(4) by simp
  moreover have "cstr_at buf' (Some (p + 1)) n"
    by (rule cstr_at_mono [OF f1(4) _ ih(4,3)]) simp
  ultimately have "\<forall>k < length (n # ns). cstr_at buf' (ws ! (i + k)) ((n # ns) ! k)"
    using ih(7) by (auto simp: less_Suc_eq_0_disj)
  moreover have "take p buf' = take p buf"
    using arg_cong [OF ih(4), of "take p"] f1(3) by (simp add: min_def)
  moreover have "take i ws = take i (fc_wname f)"
    using arg_cong [OF ih(6), of "take i"] by (simp add: min_def)
  moreover have "parse_wnames (length (n # ns)) i f buf p ep = Ret (Some (p + length (concat (map str9 (n # ns))), buf', f\<lparr>fc_wname := ws\<rparr>))"
    using ih(1) Cons.prems(4) unfolding e by (simp add: g)
  ultimately show ?case
    using ih(2,3,5) f1(2) unfolding e by (intro exI [of _ buf'] exI [of _ ws]) simp
qed

lemma length_concat_str9: "x \<in> set ns \<Longrightarrow> length (x :: u8 list) + 2 \<le> length (concat (map str9 ns))"
  by (induction ns) auto

lemma count_concat_str9: "2 * length ns \<le> length (concat (map str9 ns))"
  by (induction ns) auto

lemma parses_twalk:
  assumes "ahead buf p (tbody (Twalk fid nf ns) @ ys)" "\<forall>s \<in> set ns. length s < 65536" "length ns \<le> length (fc_wname f)" "length ns < 65536"
  shows "parses parse_twalk f buf p (Twalk fid nf ns) ys"
proof -
  let ?n = "of_nat (length ns) :: u16" and ?ep = "int p + int (length (tbody (Twalk fid nf ns)))"
  let ?f = "f\<lparr>fc_fid := fid, fc_newfid := nf, fc_nwname := ?n\<rparr>"
  from assms have a: "ahead buf p (le32 fid @ le32 nf @ le16 ?n @ concat (map str9 ns) @ ys)" by simp
  from ahead_append [OF a] have b: "ahead buf (p + 4) (le32 nf @ le16 ?n @ concat (map str9 ns) @ ys)" by simp
  from ahead_append [OF b] have c: "ahead buf (p + 8) (le16 ?n @ concat (map str9 ns) @ ys)" by (simp add: add.assoc)
  from ahead_append [OF c] have d: "ahead buf (p + 10) (concat (map str9 ns) @ ys)" by (simp add: add.commute)
  have n: "unat ?n = length ns"
    using assms(4) by (simp add: unat_of_nat)
  have e: "p + length (tbody (Twalk fid nf ns)) = p + 10 + length (concat (map str9 ns))"
    by simp
  have ep: "int (p + 10) + int (length (concat (map str9 ns))) \<le> ?ep" and i: "0 + length ns \<le> length (fc_wname ?f)"
    using assms(3) by simp_all
  obtain buf' ws where w: "parse_wnames (length ns) 0 ?f buf (p + 10) ?ep =
      Ret (Some (p + 10 + length (concat (map str9 ns)), buf', ?f\<lparr>fc_wname := ws\<rparr>))"
    "ahead buf' (p + 10 + length (concat (map str9 ns))) ys" "length buf' = length buf" "length ws = length (fc_wname ?f)"
    "\<forall>k < length ns. cstr_at buf' (ws ! (0 + k)) (ns ! k)"
    using wnames_ahead [OF d assms(2) ep i] by (elim exE conjE) (rule that)
  have "parse_twalk f buf p (int (length (tbody (Twalk fid nf ns)))) =
      Ret (Some (p + length (tbody (Twalk fid nf ns)), buf', ?f\<lparr>fc_wname := ws\<rparr>))"
    unfolding parse_twalk_def e
    by (simp only: GBIT32_ahead [OF a] GBIT32_ahead [OF b] GBIT16_ahead [OF c] kbind.simps n w(1))
  then show ?thesis
    using w(2-5) assms(3) n unfolding parses_def e by (intro exI [of _ buf'] exI [of _ "?f\<lparr>fc_wname := ws\<rparr>"]) simp
qed

lemma tstrings_short: "s \<in> set (tstrings t) \<Longrightarrow> length s + 2 \<le> length (tbody t)"
  by (cases t) (auto dest: length_concat_str9)

lemma wf_t_parses:
  assumes "wf_t tag t" "ahead buf p (tbody t @ ys)" "fc_tag f = tag" "length (fc_wname f) = P9_MAXWELEM"
  shows "\<exists>parse. parsefunc (ttype t) = Some parse \<and> parses parse f buf p t ys"
proof -
  have len: "length (tbody t) < 65536"
    using assms(1) by (simp add: wf_t_def P9_MAXMSGLEN_def)
  have str: "length s < 65536" if "s \<in> set (tstrings t)" for s
    using tstrings_short [OF that] len by simp
  show ?thesis
  proof (cases t)
    case (Tversion ms v)
    then show ?thesis
      using parses_tversion [of buf p ms v ys f] assms str by (simp add: parsefunc_def wf_t_def)
  next
    case (Tattach fid afid u a)
    then show ?thesis
      using parses_tattach [of buf p fid afid u a ys f] assms str by (simp add: parsefunc_def)
  next
    case (Twalk fid nf ns)
    then show ?thesis
      using parses_twalk [of buf p fid nf ns ys f] assms str by (simp add: parsefunc_def wf_t_def P9_MAXWELEM_def)
  next
    case (Tcreate fid n perm m)
    then show ?thesis
      using parses_tcreate [of buf p fid n perm m ys f] assms str by (simp add: parsefunc_def)
  next
    case (Twrite fid off ds)
    then show ?thesis
      using parses_twrite [of buf p fid off ds ys f] assms len by (simp add: parsefunc_def)
  qed (use assms(2) parses_tflush parses_topen parses_tread parses_fid in \<open>simp_all add: parsefunc_def\<close>)
qed

lemma body_length:
  assumes "7 + n \<le> 8192"
  shows "sint (of_nat (7 + n) - of_nat P9_HDR_SIZE :: u32) = int n"
proof -
  have "(of_nat (7 + n) - of_nat P9_HDR_SIZE :: u32) = word_of_int (int n)"
    by (simp add: P9_HDR_SIZE_def)
  then show ?thesis
    using assms by (simp only: sint_sbintrunc') (simp add: signed_take_bit_int_eq_self)
qed


text \<open>\<open>'9P2000'\<close> and a name, as bytes.\<close>

definition bytes_of :: "string \<Rightarrow> u8 list" where
  "bytes_of s = map (\<lambda>c. of_nat (of_char c)) s"


subsection \<open>Too many names\<close>

lemma wnames_overflow:
  assumes "ahead buf p (concat (map str9 ns) @ ys)" "\<forall>s \<in> set ns. length s < 65536"
    "int p + int (length (concat (map str9 ns))) \<le> ep" "i + length ns > length (fc_wname f)"
  shows "parse_wnames (length ns) i f buf p ep = Fault \<or> i > length (fc_wname f) \<and> ns = []"
  using assms
proof (induction ns arbitrary: buf p i f)
  case (Cons n ns)
  let ?zs = "concat (map str9 ns) @ ys"
  have a: "ahead buf p (str9 n @ ?zs)"
    using Cons.prems(1) by simp
  note f1 = gstr_facts [OF a]
  have g: "p9_gstring buf p ep = Ret (Some (p + 2 + length n, p + 1, gstr buf p n ?zs))"
    by (rule gstring_ahead [OF a]) (use Cons.prems in simp_all)
  show ?case
    using Cons.IH [OF f1(1), of "f\<lparr>fc_wname := (fc_wname f)[i := Some (p + 1)]\<rparr>" "Suc i"] Cons.prems(2-4) g
    by (cases "i < length (fc_wname f)") auto
qed simp

text \<open>C37: a walk with too many names overruns the message. The parser has room for 16 names and does not
  look at the count in the request, so every request to walk along more than 16 names, otherwise well formed, makes the
  server store pointers behind the array.\<close>

theorem p9_walk_overflow:
  assumes "length ns > 16" "\<forall>s \<in> set ns. length s < 65536" "length (enc_t tag (Twalk fid nf ns)) \<le> 8192"
  shows "parsefcall (enc_t tag (Twalk fid nf ns) @ rest) (int (length (enc_t tag (Twalk fid nf ns)))) = Fault"
proof -
  let ?t = "Twalk fid nf ns"
  let ?sz = "of_nat (7 + length (tbody ?t)) :: u32" and ?n = "of_nat (length ns) :: u16" and ?buf = "enc_t tag ?t @ rest"
  let ?f = "(p9_allocreq :: request)\<lparr>fc_size := ?sz, fc_type := 110, fc_tag := tag\<rparr>"
  let ?g = "?f\<lparr>fc_fid := fid, fc_newfid := nf, fc_nwname := ?n\<rparr>"
  have len: "length (enc_t tag ?t) = 7 + length (tbody ?t)" "7 + length (tbody ?t) \<le> 8192" "length ns < 65536"
    using assms(3) count_concat_str9 [of ns] by (simp_all add: enc_t_def)
  have "ahead ?buf 0 (le32 ?sz @ [110] @ le16 tag @ tbody ?t @ rest)"
    by (simp add: ahead_def enc_t_def)
  note hdr = parse_hdr_ahead [OF this]
  have a: "ahead ?buf 7 (le32 fid @ le32 nf @ le16 ?n @ concat (map str9 ns) @ rest)"
    using hdr(2) by simp
  from ahead_append [OF a] have b: "ahead ?buf 11 (le32 nf @ le16 ?n @ concat (map str9 ns) @ rest)" by simp
  from ahead_append [OF b] have c: "ahead ?buf 15 (le16 ?n @ concat (map str9 ns) @ rest)" by simp
  from ahead_append [OF c] have d: "ahead ?buf 17 (concat (map str9 ns) @ rest)" by simp
  have n: "unat ?n = length ns"
    using len(3) by (simp add: unat_of_nat)
  have "parse_wnames (length ns) 0 ?g ?buf 17 (7 + int (length (tbody ?t))) = Fault"
    using wnames_overflow [OF d assms(2), of "7 + int (length (tbody ?t))" ?g 0] assms(1)
    by (auto simp: p9_allocreq_def P9_MAXWELEM_def)
  then have "parse_twalk ?f ?buf 7 (int (length (tbody ?t))) = Fault"
    using GBIT32_ahead [OF a] GBIT32_ahead [OF b] GBIT16_ahead [OF c] n by (simp add: parse_twalk_def)
  then show ?thesis
    using hdr(1) [of p9_allocreq] body_length [OF len(2)] len(1)
    by (simp add: parsefcall_def P9_HDR_SIZE_def parsefunc_def)
qed

theorem p9_walk_overflow_witness:
  "parsefcall (enc_t 5 (Twalk 1 2 (replicate 17 [97]))) 68 = Fault"
proof -
  have "length (concat (replicate 17 (str9 [97]))) = 51"
    by (simp add: numeral_eq_Suc)
  with p9_walk_overflow [of "replicate 17 [97]" 5 1 2 "[]"] show ?thesis
    by (simp add: enc_t_def)
qed

subsection \<open>Responses on the wire\<close>

text \<open>The bodies of the responses, as the protocol defines them.\<close>

definition ostr :: "u8 list option \<Rightarrow> u8 list" where
  "ostr s = (case s of None \<Rightarrow> le16 0 | Some s \<Rightarrow> str9 s)"

definition qid9 :: "p9_qid \<Rightarrow> u8 list" where
  "qid9 q = [qid_type q] @ le32 (qid_vers q) @ le64 (qid_path q)"

definition stat9 :: "u8 list p9_stat \<Rightarrow> u8 list" where
  "stat9 st = le16 (st_type st) @ le32 (st_dev st) @ qid9 (st_qid st) @ le32 (st_mode st) @ le32 (st_atime st) @
     le32 (st_mtime st) @ le64 (st_length st) @ ostr (st_name st) @ ostr (st_uid st) @ ostr (st_gid st) @ ostr (st_muid st)"

definition rbody :: "response \<Rightarrow> u8 list" where
  "rbody f =
     (if fc_type f = 101 then le32 (fc_msize f) @ ostr (fc_version f)
      else if fc_type f = 105 then qid9 (fc_qid f)
      else if fc_type f = 107 then ostr (fc_ename f)
      else if fc_type f = 111 then le16 (fc_nwqid f) @ concat (map qid9 (take (unat (fc_nwqid f)) (fc_wqid f)))
      else if fc_type f \<in> {113, 115} then qid9 (fc_qid f) @ le32 (fc_iounit f)
      else if fc_type f = 117 then le32 (fc_count f) @ take (unat (fc_count f)) (fc_data f)
      else if fc_type f = 119 then le32 (fc_count f)
      else if fc_type f = 125 then le16 (fc_parlen f) @ le16 (fc_nstat f) @ stat9 (the (fc_stat f))
      else [])"

text \<open>What a response needs: strings that fit into their length field, as many walk results and data bytes as announced,
  and for a stat the two lengths.\<close>

definition short :: "u8 list option \<Rightarrow> bool" where
  "short s \<longleftrightarrow> (case s of None \<Rightarrow> True | Some s \<Rightarrow> length s < 65534)"

definition wf_r :: "response \<Rightarrow> bool" where
  "wf_r f \<longleftrightarrow> fc_type f \<in> {101, 105, 107, 109, 111, 113, 115, 117, 119, 121, 123, 125, 127} \<and>
     (fc_type f = 101 \<longrightarrow> short (fc_version f)) \<and> (fc_type f = 107 \<longrightarrow> short (fc_ename f)) \<and>
     (fc_type f = 111 \<longrightarrow> unat (fc_nwqid f) \<le> length (fc_wqid f)) \<and>
     (fc_type f = 117 \<longrightarrow> unat (fc_count f) \<le> length (fc_data f)) \<and>
     (fc_type f = 125 \<longrightarrow> (\<exists>st. fc_stat f = Some st \<and> unat (fc_parlen f) = length (stat9 st) + 2 \<and>
        (\<forall>s \<in> {st_name st, st_uid st, st_gid st, st_muid st}. short s)))"

lemma wf_r_type: "wf_r f \<Longrightarrow> fc_type f \<in> {101, 105, 107, 109, 111, 113, 115, 117, 119, 121, 123, 125, 127}"
  unfolding wf_r_def by (rule conjunct1)

lemma length_ostr: "short s \<Longrightarrow> length (ostr s) = unat (p9_stringsz s)"
  by (cases s) (auto simp: short_def ostr_def unat_word_ariths unat_of_nat)

lemma length_qid9 [simp]: "length (qid9 q) = 13"
  by (simp add: qid9_def)

lemma compose_qid_wput: "compose_qid c q = wput c (qid9 q)"
  by (simp add: compose_qid_def qid9_def PBIT_defs wput_wput)

lemma ucast_length: "n < 65536 \<Longrightarrow> (ucast (of_nat n :: u32) :: u16) = of_nat n"
  by (simp add: word_unat_eq_iff unat_ucast_mod unat_of_nat)

lemma pstring_wput: "short s \<Longrightarrow> p9_pstring c s = wput c (ostr s)"
  by (cases s) (simp_all add: ucast_length ostr_def PBIT_defs str9_def short_def wput_wput unat_of_nat Let_def)

lemma compose_statbody_wput:
  assumes "\<forall>s \<in> {st_name st, st_uid st, st_gid st, st_muid st}. short s"
  shows "compose_statbody st c = wput c (stat9 st)"
  using assms by (simp add: compose_statbody_def stat9_def compose_qid_wput pstring_wput PBIT_defs wput_wput)

lemma compose_wqids_wput:
  "i + k \<le> length (fc_wqid f) \<Longrightarrow> snd c \<le> length (fst c) \<Longrightarrow>
   compose_wqids k i f c = wput c (concat (map qid9 (take k (drop i (fc_wqid f)))))"
proof (induction k arbitrary: i c)
  case 0
  then show ?case
    by (cases c) (simp add: wput_Nil)
next
  case (Suc k)
  have i: "i < length (fc_wqid f)"
    using Suc.prems by simp
  then have d: "take (Suc k) (drop i (fc_wqid f)) = fc_wqid f ! i # take k (drop (Suc i) (fc_wqid f))"
    by (simp add: Cons_nth_drop_Suc [symmetric])
  have "compose_wqids k (Suc i) f c' = wput c' (concat (map qid9 (take k (drop (Suc i) (fc_wqid f)))))"
    if "wput c (qid9 (fc_wqid f ! i)) = Ret c'" for c'
    using that Suc.prems by (intro Suc.IH) (auto simp: wput_def Let_def split: prod.splits if_splits)
  then have "kbind (wput c (qid9 (fc_wqid f ! i))) (compose_wqids k (Suc i) f) =
      kbind (wput c (qid9 (fc_wqid f ! i))) (\<lambda>c. wput c (concat (map qid9 (take k (drop (Suc i) (fc_wqid f))))))"
    by (intro kbind_cong) simp_all
  then show ?case
    using i unfolding d by (simp add: compose_qid_wput wput_wput)
qed

lemma compose_data_wput:
  "i + k \<le> length (fc_data f) \<Longrightarrow> snd c \<le> length (fst c) \<Longrightarrow>
   compose_data k i f c = wput c (take k (drop i (fc_data f)))"
proof (induction k arbitrary: i c)
  case 0
  then show ?case
    by (cases c) (simp add: wput_Nil)
next
  case (Suc k)
  have i: "i < length (fc_data f)"
    using Suc.prems by simp
  then have d: "take (Suc k) (drop i (fc_data f)) = [fc_data f ! i] @ take k (drop (Suc i) (fc_data f))"
    by (simp add: Cons_nth_drop_Suc [symmetric])
  have "compose_data k (Suc i) f c' = wput c' (take k (drop (Suc i) (fc_data f)))"
    if "wput c [fc_data f ! i] = Ret c'" for c'
    using that Suc.prems by (intro Suc.IH) (auto simp: wput_def Let_def split: prod.splits if_splits)
  then have "kbind (wput c [fc_data f ! i]) (compose_data k (Suc i) f) =
      kbind (wput c [fc_data f ! i]) (\<lambda>c. wput c (take k (drop (Suc i) (fc_data f))))"
    by (intro kbind_cong) simp_all
  then show ?case
    using i unfolding d by (simp add: PBIT_defs wput_wput)
qed

text \<open>A composer writes the body of its response behind the cursor.\<close>

lemma composer_wput:
  assumes "wf_r f" "snd c \<le> length (fst c)"
  shows "\<exists>compose. composefunc (fc_type f) = Some compose \<and> compose f c = wput c (rbody f)"
proof -
  have [simp]: "wput c [] = Ret c"
    using assms(2) by (cases c) (simp add: wput_Nil)
  have cur: "snd c' \<le> length (fst c')" if "wput c bs = Ret c'" for bs c'
    using that by (auto simp: wput_def Let_def split: prod.splits if_splits)
  consider "fc_type f \<in> {109, 121, 123, 127}" | "fc_type f = 101" | "fc_type f = 105" | "fc_type f = 107" | "fc_type f \<in> {113, 115}"
    | "fc_type f = 119" | "fc_type f = 111" | "fc_type f = 117" | "fc_type f = 125"
    using wf_r_type [OF assms(1)] by auto
  then show ?thesis
  proof cases
    case 1
    then show ?thesis
      by (auto simp: composefunc_def rbody_def compose_rflush_def compose_rclunk_def compose_rremove_def compose_rwstat_def)
  next
    case 2
    with assms(1) show ?thesis
      by (simp add: composefunc_def rbody_def compose_rversion_def wf_r_def pstring_wput PBIT_defs wput_wput)
  next
    case 3
    then show ?thesis
      by (simp add: composefunc_def rbody_def compose_rattach_def compose_qid_wput)
  next
    case 4
    with assms(1) show ?thesis
      by (simp add: composefunc_def rbody_def compose_rerror_def wf_r_def pstring_wput)
  next
    case 5
    then show ?thesis
      by (auto simp: composefunc_def rbody_def compose_ropen_def compose_rcreate_def compose_qid_wput PBIT_defs wput_wput)
  next
    case 6
    then show ?thesis
      by (simp add: composefunc_def rbody_def compose_rwrite_def PBIT_defs)
  next
    case 7
    have "kbind (wput c (le16 (fc_nwqid f))) (compose_wqids (unat (fc_nwqid f)) 0 f) =
        kbind (wput c (le16 (fc_nwqid f))) (\<lambda>c. wput c (concat (map qid9 (take (unat (fc_nwqid f)) (drop 0 (fc_wqid f))))))"
      using assms(1) 7 by (intro kbind_cong refl compose_wqids_wput cur) (auto simp: wf_r_def)
    with 7 show ?thesis
      by (simp add: composefunc_def rbody_def compose_rwalk_def PBIT_defs wput_wput)
  next
    case 8
    have "kbind (wput c (le32 (fc_count f))) (compose_data (unat (fc_count f)) 0 f) =
        kbind (wput c (le32 (fc_count f))) (\<lambda>c. wput c (take (unat (fc_count f)) (drop 0 (fc_data f))))"
      using assms(1) 8 by (intro kbind_cong refl compose_data_wput cur) (auto simp: wf_r_def)
    with 8 show ?thesis
      by (simp add: composefunc_def rbody_def compose_rread_def PBIT_defs wput_wput)
  next
    case 9
    with assms(1) show ?thesis
      by (auto simp: composefunc_def rbody_def compose_rstat_def wf_r_def compose_statbody_wput PBIT_defs wput_wput)
  qed
qed

lemma length_concat_qid9: "length (concat (map qid9 qs)) = 13 * length qs"
  by (induction qs) simp_all

text \<open>The size function agrees with the body.\<close>

lemma sizer_rbody:
  assumes "wf_r f" "length (rbody f) < 4294967296"
  shows "\<exists>sz. sizefunc (fc_type f) = Some sz \<and> sz f = of_nat (length (rbody f))"
proof -
  consider "fc_type f \<in> {109, 121, 123, 127}" | "fc_type f = 101" | "fc_type f = 105" | "fc_type f = 107" | "fc_type f \<in> {113, 115}"
    | "fc_type f = 119" | "fc_type f = 111" | "fc_type f = 117" | "fc_type f = 125"
    using wf_r_type [OF assms(1)] by auto
  then show ?thesis
  proof cases
    case 1
    then show ?thesis
      by (auto simp: sizefunc_def rbody_def size_rflush_def size_rclunk_def size_rremove_def size_rwstat_def)
  next
    case 2
    with assms(1) show ?thesis
      by (simp add: sizefunc_def rbody_def size_rversion_def wf_r_def length_ostr)
  next
    case 3
    then show ?thesis
      by (simp add: sizefunc_def rbody_def size_rattach_def P9_QIDSZ_def)
  next
    case 4
    with assms(1) show ?thesis
      by (simp add: sizefunc_def rbody_def size_rerror_def wf_r_def length_ostr)
  next
    case 5
    then show ?thesis
      by (auto simp: sizefunc_def rbody_def size_ropen_def size_rcreate_def P9_QIDSZ_def)
  next
    case 6
    then show ?thesis
      by (simp add: sizefunc_def rbody_def size_rwrite_def)
  next
    case 7
    with assms(1) show ?thesis
      by (simp add: sizefunc_def rbody_def size_rwalk_def wf_r_def length_concat_qid9 P9_QIDSZ_def min_def mult.commute)
  next
    case 8
    with assms(1) show ?thesis
      by (simp add: sizefunc_def rbody_def size_rread_def wf_r_def min_def)
  next
    case 9
    with assms(1) obtain st where st: "fc_stat f = Some st" "unat (fc_parlen f) = length (stat9 st) + 2"
      by (auto simp: wf_r_def)
    have "(ucast (fc_parlen f) :: u32) = of_nat (length (stat9 st) + 2)"
      using arg_cong [OF st(2), of "of_nat :: nat \<Rightarrow> u32"] by simp
    with 9 st(1) show ?thesis
      by (simp add: sizefunc_def rbody_def size_rstat_def)
  qed
qed

lemma rbody_header [simp]: "rbody (f\<lparr>fc_size := a, fc_tag := b\<rparr>) = rbody f" "wf_r (f\<lparr>fc_size := a, fc_tag := b\<rparr>) = wf_r f"
  by (cases f, simp only: rbody_def wf_r_def p9_fcall.simps)+

lemma composefcall_wput:
  assumes "wf_r f" "7 \<le> length buf"
  shows "composefcall f buf = wput (buf, 0) (le32 (fc_size f) @ [fc_type f] @ le16 (fc_tag f) @ rbody f)"
proof -
  let ?h = "le32 (fc_size f) @ [fc_type f] @ le16 (fc_tag f)"
  let ?c = "(take 0 buf @ ?h @ drop (0 + length ?h) buf, 0 + length ?h)"
  have h: "wput (buf, 0) ?h = Ret ?c"
    using assms(2) by (simp add: wput_def)
  obtain compose where c: "composefunc (fc_type f) = Some compose" "compose f ?c = wput ?c (rbody f)"
    using composer_wput [OF assms(1), of ?c] by auto
  have "composefcall f buf = kbind (wput (buf, 0) ?h) (compose f)"
    using c(1) by (simp add: composefcall_def PBIT_defs)
  also have "\<dots> = kbind (wput (buf, 0) ?h) (\<lambda>c. wput c (rbody f))"
    by (simp only: h kbind.simps c(2))
  also have "\<dots> = wput (buf, 0) (?h @ rbody f)"
    by (rule wput_wput)
  finally show ?thesis
    by simp
qed

lemma length_nobody: "length nobody = 6"
  by (simp add: nobody_def)

text \<open>The stat that \<^verbatim>\<open>p9_getstat\<close> makes has the right lengths.\<close>

lemma rstat_wf:
  assumes "p9_getstat path (Some st) = Ret (Some s)" "length path < 60000"
  shows "wf_r ((rstat_fill f s)\<lparr>fc_type := 125\<rparr>)"
proof -
  from assms(1) obtain name where n: "p9_getfilename path = Ret name" and
    s: "st_size s = of_nat (53 + length name)" "st_name s = Some name" "st_uid s = Some nobody" "st_gid s = Some []" "st_muid s = Some []"
    by (auto simp: p9_getstat_def P9_RSTAT_DEFLEN_def nobody_def kbind_Ret_iff)
  have "length (takeWhile (\<lambda>c. c \<noteq> 47) (rev path)) \<le> length (rev path)"
    by (rule length_takeWhile_le)
  then have "length name < 60000"
    using n assms(2) by (auto simp: p9_getfilename_def split: if_splits)
  moreover have "length (stat9 s) = 53 + length name"
    by (simp add: stat9_def s(2-5) ostr_def nobody_def)
  moreover have "(of_nat (53 + length name) + 2 :: u32) = of_nat (55 + length name)"
    by simp
  ultimately show ?thesis
    by (simp add: wf_r_def rstat_fill_def s short_def nobody_def unat_ucast_mod unat_of_nat del: of_nat_add)
qed

text \<open>C23: every response is what the protocol says. \<^verbatim>\<open>respond\<close> sends the size of the message, its type, the tag of the
  request and the body of 9P2000, in this order; the size is the number of bytes sent, counted by functions that know
  nothing of those that write; nothing behind the message is written. The response has to be
  consistent (its strings fit, its counts match) and has to fit into the buffer, which the code itself does not check.\<close>

theorem p9_response_wire:
  assumes "g = f\<lparr>fc_type := (if error then P9_RERROR else ity + 1)\<rparr>" "wf_r g"
    and "7 + length (rbody g) \<le> length wbuf" "length wbuf < 4294967296"
    and "msg = le32 (of_nat (7 + length (rbody g))) @ [fc_type g] @ le16 tag @ rbody g"
  shows "respond wbuf error ity tag f = Ret (msg @ drop (length msg) wbuf, of_nat (length msg))"
proof -
  obtain sz where sz: "sizefunc (fc_type g) = Some sz" "sz g = of_nat (length (rbody g))"
    using sizer_rbody [OF assms(2)] assms(3,4) by auto
  then have size: "p9_getfcallsize g = Ret (of_nat (7 + length (rbody g)))"
    by (simp add: p9_getfcallsize_def)
  let ?g = "g\<lparr>fc_size := of_nat (7 + length (rbody g)), fc_tag := tag\<rparr>"
  have "composefcall ?g wbuf = wput (wbuf, 0) msg"
    using composefcall_wput [of ?g wbuf] assms(2,3,5) by simp
  also have "\<dots> = Ret (msg @ drop (length msg) wbuf, length msg)"
    using assms(3,5) by (simp add: wput_def)
  finally show ?thesis
    using size assms(5) unfolding respond_def Let_def assms(1) by simp
qed

theorem p9_response_wire_witness:
  "respond (replicate 90 0) False 124 7 (rstat_fill p9_allocreq
      \<lparr>st_size = 56, st_type = 0, st_dev = 1, st_qid = \<lparr>qid_path = 5, qid_vers = 0, qid_type = 0\<rparr>, st_mode = 511, st_atime = 0,
       st_mtime = 0, st_length = 1000, st_name = Some [99, 97, 116], st_uid = Some nobody, st_gid = Some [], st_muid = Some []\<rparr>) =
   Ret (le32 67 @ [125] @ le16 7 @ le16 58 @ le16 56 @ le16 0 @ le32 1 @ [0] @ le32 0 @ le64 5 @ le32 511 @ le32 0 @ le32 0 @
     le64 1000 @ le16 3 @ [99, 97, 116] @ le16 6 @ nobody @ le16 0 @ le16 0 @ replicate 23 0, 67)"
proof -
  let ?s = "\<lparr>st_size = 56, st_type = 0, st_dev = 1, st_qid = \<lparr>qid_path = 5, qid_vers = 0, qid_type = 0\<rparr>, st_mode = 511, st_atime = 0,
       st_mtime = 0, st_length = 1000, st_name = Some [99, 97, 116], st_uid = Some nobody, st_gid = Some [], st_muid = Some []\<rparr>"
  let ?g = "(rstat_fill p9_allocreq ?s)\<lparr>fc_type := 125\<rparr>"
  have st: "stat9 ?s = le16 0 @ le32 1 @ [0] @ le32 0 @ le64 5 @ le32 511 @ le32 0 @ le32 0 @
     le64 1000 @ le16 3 @ [99, 97, 116] @ le16 6 @ nobody @ le16 0 @ le16 0"
    by (simp add: stat9_def qid9_def ostr_def str9_def length_nobody)
  have len: "length (stat9 ?s) = 56"
    unfolding st by (simp add: length_nobody)
  have wf: "wf_r ?g"
    by (simp add: wf_r_def rstat_fill_def len short_def length_nobody)
  have body: "rbody ?g = le16 58 @ le16 56 @ stat9 ?s"
    by (simp add: rbody_def rstat_fill_def)
  have "respond (replicate 90 0) False 124 7 (rstat_fill p9_allocreq ?s) =
      Ret ((le32 67 @ [125] @ le16 7 @ rbody ?g) @ drop (length (le32 67 @ [125] @ le16 7 @ rbody ?g)) (replicate 90 0),
        of_nat (length (le32 67 @ [125] @ le16 7 @ rbody ?g)))"
    by (rule p9_response_wire [where g = ?g]) (use wf in \<open>simp_all add: body len\<close>)
  then show ?thesis
    by (simp add: body len st length_nobody)
qed

end
