(* ===== verification/Grep.thy ===== *)
theory Grep
  imports Prelude
begin

text \<open>
  The pattern matcher and the line loop of grep (user/grep.c). C strings are character lists without their terminator. The
  matcher is compared with the meaning of patterns as regular expressions, the loop with the input cut into lines.
\<close>

subsection \<open>The matcher\<close>

function (sequential) matchhere :: "string \<Rightarrow> string \<Rightarrow> bool"
  and matchstar :: "char \<Rightarrow> string \<Rightarrow> string \<Rightarrow> bool" where
  "matchhere [] line = True"
| "matchhere (r # re) line =
     (if re \<noteq> [] \<and> hd re = CHR ''*'' then matchstar r (tl re) line
      else if r = CHR ''$'' \<and> re = [] then line = []
      else if line \<noteq> [] \<and> (r = CHR ''.'' \<or> r = hd line) then matchhere re (tl line)
      else False)"
| "matchstar c re line =
     (if matchhere re line then True
      else if line \<noteq> [] \<and> (hd line = c \<or> c = CHR ''.'') then matchstar c re (tl line)
      else False)"
  by pat_completeness auto
termination
  by (relation "measures [\<lambda>x. case x of Inl (re, t) \<Rightarrow> length re | Inr (c, re, t) \<Rightarrow> Suc (length re),
      \<lambda>x. case x of Inl (re, t) \<Rightarrow> length t | Inr (c, re, t) \<Rightarrow> length t]")
     auto

fun match_from :: "string \<Rightarrow> string \<Rightarrow> bool" where
  "match_from re [] = matchhere re []"
| "match_from re (t # line) = (if matchhere re (t # line) then True else match_from re line)"

definition match :: "string \<Rightarrow> string \<Rightarrow> bool" where
  "match re line = (if re \<noteq> [] \<and> hd re = CHR ''^'' then matchhere (tl re) line else match_from re line)"

subsection \<open>The line loop\<close>

definition nl :: char where "nl = CHR 0x0A"
definition BUFSZ :: nat where "BUFSZ = 1024"

text \<open>\<^verbatim>\<open>strchr(p, '\n')\<close>: the position of the first newline, if it comes before a zero byte.\<close>

fun strchr_nl :: "string \<Rightarrow> nat option" where
  "strchr_nl [] = None"
| "strchr_nl (c # s) = (if c = nl then Some 0 else if c = CHR 0x00 then None else map_option Suc (strchr_nl s))"

lemma strchr_lt: "strchr_nl s = Some i \<Longrightarrow> i < length s"
  by (induction s arbitrary: i) (auto split: if_splits)

text \<open>The lines in the buffer: what is written, and what is left in the buffer.\<close>

function grep_buf :: "string \<Rightarrow> string \<Rightarrow> string \<times> string" where
  "grep_buf pat s =
     (case strchr_nl s of
        None \<Rightarrow> ([], s)
      | Some i \<Rightarrow> let (out, r) = grep_buf pat (drop (i + 1) s) in
          ((if match pat (take i s) then take i s @ [nl] else []) @ out, r))"
  by pat_completeness auto
termination
  by (relation "measure (length \<circ> snd)") (auto dest: strchr_lt)

text \<open>\<^verbatim>\<open>read(fd, buf + m, want)\<close> returns at most \<open>want\<close> bytes, and some as long as the input lasts; how many is up
  to the file: \<open>chunk k\<close> says how many the \<open>k\<close>-th read returns at most.\<close>

definition read_some :: "(nat \<Rightarrow> nat) \<Rightarrow> nat \<Rightarrow> nat \<Rightarrow> string \<Rightarrow> nat" where
  "read_some chunk k want input = min (min want (length input)) (max 1 (chunk k))"

function grep :: "string \<Rightarrow> (nat \<Rightarrow> nat) \<Rightarrow> nat \<Rightarrow> string \<Rightarrow> string \<Rightarrow> string" where
  "grep pat chunk k buf input =
     (let n = read_some chunk k (BUFSZ - length buf - 1) input in
      if n = 0 then []
      else let (out, r) = grep_buf pat (buf @ take n input) in out @ grep pat chunk (Suc k) r (drop n input))"
  by pat_completeness auto
termination
  by (relation "measure (\<lambda>(_, _, _, _, input). length input)") (auto simp: read_some_def)

declare grep_buf.simps [simp del] grep.simps [simp del]

subsection \<open>Patterns as regular expressions\<close>

datatype atom = Lit char | Dot
datatype item = One atom | Many atom

fun admits :: "atom \<Rightarrow> char \<Rightarrow> bool" where
  "admits (Lit c) d = (d = c)"
| "admits Dot d = True"

text \<open>The words a sequence of items stands for.\<close>

inductive word_of :: "item list \<Rightarrow> string \<Rightarrow> bool" where
  "word_of [] []"
| "admits a c \<Longrightarrow> word_of is w \<Longrightarrow> word_of (One a # is) (c # w)"
| "(\<forall>c \<in> set u. admits a c) \<Longrightarrow> word_of is w \<Longrightarrow> word_of (Many a # is) (u @ w)"

inductive_cases word_of_NilE: "word_of [] w"
inductive_cases word_of_OneE: "word_of (One a # is) w"
inductive_cases word_of_ManyE: "word_of (Many a # is) w"

definition atom_of :: "char \<Rightarrow> atom" where
  "atom_of c = (if c = CHR ''.'' then Dot else Lit c)"

text \<open>The items of a pattern and whether it ends with \<^verbatim>\<open>$\<close>; a \<^verbatim>\<open>*\<close> that follows a character takes precedence.\<close>

function (sequential) items_of :: "string \<Rightarrow> item list \<times> bool" where
  "items_of [] = ([], False)"
| "items_of (r # re) =
     (if re \<noteq> [] \<and> hd re = CHR ''*'' then (let (is, e) = items_of (tl re) in (Many (atom_of r) # is, e))
      else if r = CHR ''$'' \<and> re = [] then ([], True)
      else (let (is, e) = items_of re in (One (atom_of r) # is, e)))"
  by pat_completeness auto
termination
  by (relation "measure length") auto

text \<open>A prefix of the line is a word of the pattern, the whole line if the pattern ends with \<^verbatim>\<open>$\<close>.\<close>

definition prefix_match :: "item list \<times> bool \<Rightarrow> string \<Rightarrow> bool" where
  "prefix_match p line \<longleftrightarrow> (\<exists>u v. line = u @ v \<and> word_of (fst p) u \<and> (snd p \<longrightarrow> v = []))"

lemma admits_atom_of: "admits (atom_of r) c \<longleftrightarrow> r = CHR ''.'' \<or> r = c"
  by (auto simp: atom_of_def)

lemma prefix_match_Nil: "prefix_match ([], e) line \<longleftrightarrow> (e \<longrightarrow> line = [])"
  by (auto simp: prefix_match_def intro: word_of.intros elim: word_of_NilE)

lemma prefix_match_One:
  "prefix_match (One a # is, e) line \<longleftrightarrow> line \<noteq> [] \<and> admits a (hd line) \<and> prefix_match (is, e) (tl line)"
proof
  assume "prefix_match (One a # is, e) line"
  then obtain u v where u: "line = u @ v" "word_of (One a # is) u" "e \<longrightarrow> v = []"
    by (auto simp: prefix_match_def)
  from u(2) obtain c w where "u = c # w" "admits a c" "word_of is w"
    by (auto elim: word_of_OneE)
  with u show "line \<noteq> [] \<and> admits a (hd line) \<and> prefix_match (is, e) (tl line)"
    unfolding prefix_match_def by simp (rule exI [of _ w], simp)
next
  assume r: "line \<noteq> [] \<and> admits a (hd line) \<and> prefix_match (is, e) (tl line)"
  then obtain u v where "tl line = u @ v" "word_of is u" "e \<longrightarrow> v = []"
    by (auto simp: prefix_match_def)
  with r have "line = (hd line # u) @ v \<and> word_of (One a # is) (hd line # u) \<and> (e \<longrightarrow> v = [])"
    by (auto intro: word_of.intros) (metis list.collapse)
  then show "prefix_match (One a # is, e) line"
    unfolding prefix_match_def fst_conv snd_conv by blast
qed

lemma prefix_match_Many:
  "prefix_match (Many a # is, e) line \<longleftrightarrow> (\<exists>u t. line = u @ t \<and> (\<forall>c \<in> set u. admits a c) \<and> prefix_match (is, e) t)"
proof
  assume "prefix_match (Many a # is, e) line"
  then obtain x v where x: "line = x @ v" "word_of (Many a # is) x" "e \<longrightarrow> v = []"
    by (auto simp: prefix_match_def)
  from x(2) obtain u w where "x = u @ w" "\<forall>c \<in> set u. admits a c" "word_of is w"
    by (auto elim: word_of_ManyE)
  with x show "\<exists>u t. line = u @ t \<and> (\<forall>c \<in> set u. admits a c) \<and> prefix_match (is, e) t"
    by (intro exI [of _ u] exI [of _ "w @ v"]) (auto simp: prefix_match_def)
next
  assume "\<exists>u t. line = u @ t \<and> (\<forall>c \<in> set u. admits a c) \<and> prefix_match (is, e) t"
  then obtain u w v where "line = u @ w @ v" "\<forall>c \<in> set u. admits a c" "word_of is w" "e \<longrightarrow> v = []"
    by (auto simp: prefix_match_def)
  then show "prefix_match (Many a # is, e) line"
    unfolding prefix_match_def by (intro exI [of _ "u @ w"] exI [of _ v]) (auto intro: word_of.intros)
qed

lemma split_step:
  "(\<exists>u t. line = u @ t \<and> (\<forall>c \<in> set u. P c) \<and> Q t) \<longleftrightarrow>
   Q line \<or> line \<noteq> [] \<and> P (hd line) \<and> (\<exists>u t. tl line = u @ t \<and> (\<forall>c \<in> set u. P c) \<and> Q t)" (is "?L = ?R")
proof
  assume ?L
  then obtain u t where u: "line = u @ t" "\<forall>c \<in> set u. P c" "Q t"
    by blast
  then show ?R
    by (cases u) auto
next
  assume ?R
  then show ?L
  proof
    assume "Q line"
    then show ?L
      by (intro exI [of _ "[]"] exI [of _ line]) simp
  next
    assume r: "line \<noteq> [] \<and> P (hd line) \<and> (\<exists>u t. tl line = u @ t \<and> (\<forall>c \<in> set u. P c) \<and> Q t)"
    then obtain u t where u: "tl line = u @ t" "\<forall>c \<in> set u. P c" "Q t"
      by blast
    with r show ?L
      by (intro exI [of _ "hd line # u"] exI [of _ t]) (cases line; simp)
  qed
qed

lemma matchhere_item:
  "prefix_match (items_of (r # re)) line \<longleftrightarrow>
     (if re \<noteq> [] \<and> hd re = CHR ''*'' then
        (\<exists>u t. line = u @ t \<and> (\<forall>d \<in> set u. admits (atom_of r) d) \<and> prefix_match (items_of (tl re)) t)
      else if r = CHR ''$'' \<and> re = [] then line = []
      else line \<noteq> [] \<and> (r = CHR ''.'' \<or> r = hd line) \<and> prefix_match (items_of re) (tl line))"
  by (cases "items_of re"; cases "items_of (tl re)")
     (simp add: prefix_match_Nil prefix_match_One prefix_match_Many admits_atom_of)

declare items_of.simps(2) [simp del]

lemma matcher_correct:
  "matchhere re line \<longleftrightarrow> prefix_match (items_of re) line"
  "matchstar c re line \<longleftrightarrow> (\<exists>u t. line = u @ t \<and> (\<forall>d \<in> set u. admits (atom_of c) d) \<and> prefix_match (items_of re) t)"
proof (induction re line and c re line rule: matchhere_matchstar.induct)
  case (1 line)
  then show ?case by (simp add: prefix_match_Nil)
next
  case (2 r re line)
  then show ?case
    unfolding matchhere_item by (auto simp: prefix_match_Nil simp del: matchstar.simps)
next
  case (3 c re line)
  show ?case
    by (subst split_step) (use 3 in \<open>simp add: admits_atom_of, blast\<close>)
qed

lemma match_from_iff: "match_from re line \<longleftrightarrow> (\<exists>a b. line = a @ b \<and> matchhere re b)"
proof (induction line)
  case (Cons t line)
  then show ?case
    by (auto simp: Cons_eq_append_conv)
qed simp

text \<open>C24: the matcher of grep decides its pattern language. A line matches when a part of it, at the start of the
  line for a pattern that begins with \<^verbatim>\<open>^\<close> and up to the end of the line for one that ends with \<^verbatim>\<open>$\<close>, is a word of the
  sequence of the pattern's characters, dots and starred characters. The C code returns for every pattern and line.\<close>

theorem match_regexp:
  "match re line \<longleftrightarrow>
     (if re \<noteq> [] \<and> hd re = CHR ''^'' then prefix_match (items_of (tl re)) line
      else (\<exists>a b. line = a @ b \<and> prefix_match (items_of re) b))"
  by (simp add: match_def match_from_iff matcher_correct(1))

subsection \<open>The loop prints the matching lines\<close>

text \<open>A line without its newline that fits into the buffer.\<close>

definition plain :: "string \<Rightarrow> bool" where
  "plain l \<longleftrightarrow> nl \<notin> set l \<and> CHR 0x00 \<notin> set l \<and> length l \<le> BUFSZ - 2"

definition unlines :: "string list \<Rightarrow> string" where
  "unlines ls = concat (map (\<lambda>l. l @ [nl]) ls)"

lemma unlines_simps [simp]:
  "unlines [] = []" "unlines (l # ls) = l @ [nl] @ unlines ls" "unlines (ls @ ks) = unlines ls @ unlines ks"
  by (simp_all add: unlines_def)

lemma strchr_line: "nl \<notin> set l \<Longrightarrow> CHR 0x00 \<notin> set l \<Longrightarrow> strchr_nl (l @ [nl] @ s) = Some (length l)"
  by (induction l) auto

lemma strchr_none: "nl \<notin> set s \<Longrightarrow> strchr_nl s = None"
  by (induction s) auto

lemma grep_buf_lines:
  "\<forall>l \<in> set ls. plain l \<Longrightarrow> nl \<notin> set t \<Longrightarrow> grep_buf pat (unlines ls @ t) = (unlines (filter (match pat) ls), t)"
proof (induction ls)
  case Nil
  then show ?case
    by (simp add: grep_buf.simps [of pat t] strchr_none)
next
  case (Cons l ls)
  have "strchr_nl (unlines (l # ls) @ t) = Some (length l)"
    using Cons.prems strchr_line [of l "unlines ls @ t"] by (simp add: plain_def)
  with Cons show ?case
    by (simp add: grep_buf.simps [of pat "l @ nl # unlines ls @ t"])
qed

text \<open>A prefix of the input is some whole lines and a part of the next one.\<close>

lemma cut_lines:
  assumes "s @ r = unlines ls @ rst" "\<forall>l \<in> set ls. plain l" "nl \<notin> set rst"
  shows "\<exists>ks ms t. ls = ks @ ms \<and> s = unlines ks @ t \<and> t @ r = unlines ms @ rst \<and> nl \<notin> set t"
  using assms
proof (induction ls arbitrary: s)
  case Nil
  then have "nl \<notin> set s"
    by (metis Un_iff append_Nil set_append unlines_simps(1))
  with Nil show ?case
    by (intro exI [of _ "[]"] exI [of _ s]) simp
next
  case (Cons l ls)
  show ?case
  proof (cases "length s \<le> length l")
    case True
    then have "s = take (length s) l"
      using arg_cong [OF Cons.prems(1), of "take (length s)"] by simp
    then have "nl \<notin> set s"
      using Cons.prems(2) by (metis in_set_takeD list.set_intros(1) plain_def)
    with Cons.prems(1) show ?thesis
      by (intro exI [of _ "[]"] exI [of _ "l # ls"] exI [of _ s]) simp
  next
    case False
    let ?s = "drop (Suc (length l)) s"
    have s: "s = l @ [nl] @ ?s"
    proof -
      have "take (Suc (length l)) s = l @ [nl]"
        using arg_cong [OF Cons.prems(1), of "take (Suc (length l))"] False by simp
      then show ?thesis
        by (metis append.assoc append_take_drop_id)
    qed
    have "?s @ r = unlines ls @ rst"
      using Cons.prems(1) by (subst (asm) s) simp
    then obtain ks ms t where "ls = ks @ ms" "?s = unlines ks @ t" "t @ r = unlines ms @ rst" "nl \<notin> set t"
      using Cons.IH [of ?s] Cons.prems(2,3) by auto
    then show ?thesis
      using s by (intro exI [of _ "l # ks"] exI [of _ ms] exI [of _ t]) simp
  qed
qed

lemma part_length:
  assumes "t @ r = unlines ls @ rst" "nl \<notin> set t" "ls \<noteq> []" "\<forall>l \<in> set ls. plain l"
  shows "length t \<le> BUFSZ - 2 \<and> r \<noteq> []"
proof -
  obtain l ks where l: "ls = l # ks"
    using assms(3) by (cases ls) auto
  have "length t \<le> length l"
  proof (rule ccontr)
    assume "\<not> length t \<le> length l"
    then have "t ! length l = nl"
      using arg_cong [OF assms(1), of "\<lambda>x. x ! length l"] l by (simp add: nth_append)
    with \<open>\<not> length t \<le> length l\<close> assms(2) show False
      by (metis not_le nth_mem)
  qed
  moreover have "r \<noteq> []"
    using arg_cong [OF assms(1), of length] \<open>length t \<le> length l\<close> l by auto
  ultimately show ?thesis
    using assms(4) l by (simp add: plain_def)
qed

lemma grep_lines:
  assumes "buf @ input = unlines ls @ rst" "\<forall>l \<in> set ls. plain l" "nl \<notin> set buf" "nl \<notin> set rst"
  shows "grep pat chunk k buf input = unlines (filter (match pat) ls)"
  using assms
proof (induction pat chunk k buf input arbitrary: ls rule: grep.induct)
  case (1 pat chunk k buf input)
  let ?n = "read_some chunk k (BUFSZ - length buf - 1) input"
  show ?case
  proof (cases "?n = 0")
    case True
    have "ls = []"
    proof (rule ccontr)
      assume "ls \<noteq> []"
      from part_length [OF 1(2,4) this 1(3)] True show False
        by (auto simp: read_some_def BUFSZ_def min_def split: if_splits)
    qed
    with True show ?thesis
      by (simp add: grep.simps [of pat chunk k])
  next
    case False
    have "(buf @ take ?n input) @ drop ?n input = unlines ls @ rst"
      using 1(2) by simp
    from cut_lines [OF this 1(3,5)] obtain ks ms t where
      c: "ls = ks @ ms" "buf @ take ?n input = unlines ks @ t" "t @ drop ?n input = unlines ms @ rst" "nl \<notin> set t"
      by blast
    have g: "grep_buf pat (buf @ take ?n input) = (unlines (filter (match pat) ks), t)"
      unfolding c(2) using 1(3) c(1,4) by (intro grep_buf_lines) auto
    have "grep pat chunk (Suc k) t (drop ?n input) = unlines (filter (match pat) ms)"
      by (rule 1(1) [OF refl False g [symmetric]]) (use 1(3,5) c in auto)
    then show ?thesis
      using False g c(1) by (simp add: grep.simps [of pat chunk k] Let_def)
  qed
qed

text \<open>C25: grep prints the lines that match, however its input arrives. For every way in which \<^verbatim>\<open>read\<close> cuts the input into pieces,
  the output is the matching lines in order, each once and with its newline, when lines have at most 1022 characters and no zero
  byte. A last line without newline is never printed.\<close>

theorem grep_prints_matches:
  assumes "\<forall>l \<in> set ls. nl \<notin> set l \<and> CHR 0x00 \<notin> set l \<and> length l \<le> 1022" "nl \<notin> set rst"
  shows "grep pat chunk 0 [] (unlines ls @ rst) = unlines (filter (match pat) ls)"
  by (rule grep_lines [where rst = rst]) (use assms in \<open>auto simp: plain_def BUFSZ_def\<close>)

theorem grep_prints_matches_witness:
  "grep ''^a.*c$'' (\<lambda>k. 2) 0 [] (unlines [''abbc'', ''bac'', ''ac''] @ ''axc'') = unlines [''abbc'', ''ac'']"
proof -
  have "grep ''^a.*c$'' (\<lambda>k. 2) 0 [] (unlines [''abbc'', ''bac'', ''ac''] @ ''axc'') =
      unlines (filter (match ''^a.*c$'') [''abbc'', ''bac'', ''ac''])"
    by (rule grep_prints_matches) (simp_all add: nl_def)
  then show ?thesis
    by (simp add: match_def)
qed

end
