(* ===== verification/Spec2Isabelle.thy ===== *)
theory Spec2Isabelle
  imports Netrecv Kstring Console Recovery Logspace Kheap Sched P9wire Grep
begin

text \<open>
  A verification of the network stack of a RISC-V xv6 kernel.
\<close>

end
